(* ===== verification/Shield_Prelude.thy ===== *)
theory Shield_Prelude
  imports Main "HOL-Library.Word"
begin

text \<open>
  Shared vocabulary of the development: the machine integers of the crate, the ways a Rust call
  can end (a return value, a panic, an abort, death by a signal, a non-local jump, undefined
  behaviour), computations that thread a state through such calls, the arithmetic of the two
  cargo profiles (overflow checks on or off), and the arithmetic of page alignment on words.
\<close>

unbundle bit_operations_syntax

section \<open>Machine integers\<close>

type_synonym u8 = "8 word"
type_synonym u32 = "32 word"
type_synonym u64 = "64 word"
type_synonym usize = "64 word"
type_synonym i64 = "64 word"
type_synonym c_int = "32 word"
type_synonym tid = nat

named_theorems comp_defs \<open>definitions of the elementary computations\<close>

section \<open>Outcomes and computations\<close>

datatype signal = SIGBUS | SIGSEGV

text \<open>
  How a call ends. \<open>LongJmp fr\<close> is a \<open>siglongjmp\<close> to the checkpoint \<open>fr\<close> that is
  still travelling up the stack; \<open>NoFuel\<close> marks a loop whose iteration budget was used up
  (the theorems on loops show that it does not occur).
\<close>

datatype 'a outcome =
    Ret 'a
  | Panicked string
  | Aborted
  | Killed signal
  | LongJmp nat
  | Undefined
  | NoFuel

type_synonym ('s, 'a) comp = "'s \<Rightarrow> 'a outcome \<times> 's"

definition ret :: "'a \<Rightarrow> ('s, 'a) comp" where
  [comp_defs]: "ret x = (\<lambda>s. (Ret x, s))"

definition halt :: "'a outcome \<Rightarrow> ('s, 'a) comp" where
  [comp_defs]: "halt out = (\<lambda>s. (out, s))"

definition gets :: "('s \<Rightarrow> 'a) \<Rightarrow> ('s, 'a) comp" where
  [comp_defs]: "gets f = (\<lambda>s. (Ret (f s), s))"

definition modify :: "('s \<Rightarrow> 's) \<Rightarrow> ('s, unit) comp" where
  [comp_defs]: "modify f = (\<lambda>s. (Ret (), f s))"

primrec on_ret :: "'a outcome \<Rightarrow> ('a \<Rightarrow> ('s, 'b) comp) \<Rightarrow> ('s, 'b) comp" where
  "on_ret (Ret x) k = k x"
| "on_ret (Panicked msg) k = halt (Panicked msg)"
| "on_ret Aborted k = halt Aborted"
| "on_ret (Killed sig) k = halt (Killed sig)"
| "on_ret (LongJmp fr) k = halt (LongJmp fr)"
| "on_ret Undefined k = halt Undefined"
| "on_ret NoFuel k = halt NoFuel"

definition and_then :: "('s, 'a) comp \<Rightarrow> ('a \<Rightarrow> ('s, 'b) comp) \<Rightarrow> ('s, 'b) comp" where
  "and_then m k = (\<lambda>s. case m s of (out, s') \<Rightarrow> on_ret out k s')"

text \<open>Rust's \<open>?\<close> on a \<open>Result\<close>: an error (\<open>Inl\<close>) is the value of the whole function.\<close>

definition try_then ::
    "('s, 'e + 'a) comp \<Rightarrow> ('a \<Rightarrow> ('s, 'e + 'b) comp) \<Rightarrow> ('s, 'e + 'b) comp" where
  "try_then m k = and_then m (\<lambda>r. case r of Inl e \<Rightarrow> ret (Inl e) | Inr x \<Rightarrow> k x)"

text \<open>A computation on a component of a larger state.\<close>

definition zoom :: "('s \<Rightarrow> 't) \<Rightarrow> ('t \<Rightarrow> 's \<Rightarrow> 's) \<Rightarrow> ('t, 'a) comp \<Rightarrow> ('s, 'a) comp" where
  "zoom get put m = (\<lambda>s. case m (get s) of (out, t) \<Rightarrow> (out, put t s))"

lemma ret_apply [simp]: "ret x s = (Ret x, s)"
  by (simp add: ret_def)

lemma halt_apply [simp]: "halt out s = (out, s)"
  by (simp add: halt_def)

lemma gets_apply [simp]: "gets f s = (Ret (f s), s)"
  by (simp add: gets_def)

lemma modify_apply [simp]: "modify f s = (Ret (), f s)"
  by (simp add: modify_def)

lemma and_then_apply: "and_then m k s = on_ret (fst (m s)) k (snd (m s))"
  by (simp add: and_then_def split: prod.splits)

lemma and_then_ret [simp]: "m s = (Ret x, s') \<Longrightarrow> and_then m k s = k x s'"
  by (simp add: and_then_def)

lemma and_then_left [simp]: "and_then (ret x) k = k x"
  by (simp add: fun_eq_iff)

lemma on_ret_ret [simp]: "on_ret out ret = halt out"
  by (cases out) (simp_all add: fun_eq_iff)

lemma and_then_right [simp]: "and_then m ret = m"
  by (simp add: fun_eq_iff and_then_apply)

lemma on_ret_and_then:
  "on_ret out (\<lambda>x. and_then (k x) h) = and_then (on_ret out k) h"
  by (cases out) (simp_all add: fun_eq_iff and_then_apply)

lemma and_then_assoc: "and_then (and_then m k) h = and_then m (\<lambda>x. and_then (k x) h)"
proof
  fix s
  show "and_then (and_then m k) h s = and_then m (\<lambda>x. and_then (k x) h) s"
    by (simp add: and_then_apply [of m] and_then_apply [of "and_then m k"] on_ret_and_then
        and_then_apply [of "on_ret _ _"])
qed

lemma and_then_modify [simp]: "and_then (modify f) k s = k () (f s)"
  by (simp add: and_then_def)

lemma and_then_gets [simp]: "and_then (gets f) k s = k (f s) s"
  by (simp add: and_then_def)

lemma and_then_halt_Panicked [simp]: "and_then (halt (Panicked msg)) k s = (Panicked msg, s)"
  by (simp add: and_then_def)

lemma try_then_Inl [simp]: "m s = (Ret (Inl e), s') \<Longrightarrow> try_then m k s = (Ret (Inl e), s')"
  by (simp add: try_then_def)

lemma try_then_Inr [simp]: "m s = (Ret (Inr x), s') \<Longrightarrow> try_then m k s = k x s'"
  by (simp add: try_then_def)

lemma and_then_RetE:
  assumes "and_then m k s = (Ret y, s'')"
  obtains x s' where "m s = (Ret x, s')" and "k x s' = (Ret y, s'')"
  using assms by (cases "m s"; cases "fst (m s)") (auto simp: and_then_def)

section \<open>Arithmetic of the two build profiles\<close>

text \<open>
  \<open>usize\<close> arithmetic panics on overflow when the crate is compiled with overflow checks
  (the debug profile) and wraps when it is not (the release profile); \<open>chk\<close> is the profile.
\<close>

definition checked_add :: "usize \<Rightarrow> usize \<Rightarrow> usize option" where
  "checked_add a b = (if unat a + unat b < 2 ^ 64 then Some (a + b) else None)"

definition is_none_or :: "'a option \<Rightarrow> ('a \<Rightarrow> bool) \<Rightarrow> bool" where
  "is_none_or x p = (case x of None \<Rightarrow> True | Some v \<Rightarrow> p v)"

definition usize_add :: "bool \<Rightarrow> usize \<Rightarrow> usize \<Rightarrow> ('s, usize) comp" where
  "usize_add chk a b =
     (if chk \<and> 2 ^ 64 \<le> unat a + unat b then halt (Panicked ''attempt to add with overflow'')
      else ret (a + b))"

definition usize_sub :: "bool \<Rightarrow> usize \<Rightarrow> usize \<Rightarrow> ('s, usize) comp" where
  "usize_sub chk a b =
     (if chk \<and> a < b then halt (Panicked ''attempt to subtract with overflow'')
      else ret (a - b))"

definition u32_add :: "bool \<Rightarrow> u32 \<Rightarrow> u32 \<Rightarrow> ('s, u32) comp" where
  "u32_add chk a b =
     (if chk \<and> 2 ^ 32 \<le> unat a + unat b then halt (Panicked ''attempt to add with overflow'')
      else ret (a + b))"

lemma unat_lt_64: "unat (x :: usize) < 18446744073709551616"
  using unsigned_less [of x] by simp

lemma unat_add_no_wrap: "unat a + unat b < 2 ^ 64 \<Longrightarrow> unat (a + b :: usize) = unat a + unat b"
  by (simp add: unat_word_ariths)

lemma unat_sub_no_wrap: "b \<le> a \<Longrightarrow> unat (a - b :: usize) = unat a - unat b"
  by (simp add: unat_sub)

lemma checked_add_Some_iff:
  "checked_add a b = Some c \<longleftrightarrow> unat a + unat b < 2 ^ 64 \<and> unat c = unat a + unat b"
  by (auto simp: checked_add_def unat_add_no_wrap simp flip: word_unat_eq_iff
      intro: word_unat_eq_iff [THEN iffD2])

lemma checked_add_None_iff: "checked_add a b = None \<longleftrightarrow> 2 ^ 64 \<le> unat a + unat b"
  by (auto simp: checked_add_def)

text \<open>
  The test \<open>offset.checked_add(len).is_none_or(|end| end > bound)\<close> that guards every range
  operation of the crate: it rejects exactly the ranges that, over the natural numbers, do not
  fit below the bound.
\<close>

lemma range_rejected_iff:
  "is_none_or (checked_add off len) (\<lambda>e. bound < e) \<longleftrightarrow> unat bound < unat off + unat len"
proof (cases "unat off + unat len < 2 ^ 64")
  case True
  then show ?thesis
    by (simp add: checked_add_def is_none_or_def word_less_nat_alt unat_add_no_wrap)
next
  case False
  then show ?thesis
    using unat_lt_64 [of bound] by (auto simp: checked_add_def is_none_or_def)
qed

lemma usize_add_ok [simp]: "unat a + unat b < 2 ^ 64 \<Longrightarrow> usize_add chk a b = ret (a + b)"
  by (simp add: usize_add_def)

lemma usize_sub_ok [simp]: "b \<le> a \<Longrightarrow> usize_sub chk a b = ret (a - b)"
  by (simp add: usize_sub_def not_less [symmetric])

section \<open>Page alignment on words\<close>

text \<open>
  \<open>x & !(page - 1)\<close>, the rounding the crate uses for page boundaries. For a page size that is
  a power of two it clears the low bits, so it subtracts the remainder.
\<close>

definition align_down :: "usize \<Rightarrow> usize \<Rightarrow> usize" where
  "align_down page x = x AND NOT (page - 1)"

lemma align_down_ident: "align_down (2 ^ k) x + take_bit k x = x"
proof -
  have "x AND NOT (mask k) = push_bit k (drop_bit k x)"
    by (rule bit_eqI) (auto simp: bit_simps)
  then have "align_down (2 ^ k) x = push_bit k (drop_bit k x)"
    by (simp add: align_down_def mask_eq_exp_minus_1)
  then show ?thesis by (simp add: bits_ident)
qed

lemma unat_align_down: "unat (align_down (2 ^ k) x) = unat x - unat x mod 2 ^ k"
proof -
  have tb: "unat (take_bit k x) = unat x mod 2 ^ k"
    by (simp add: unsigned_take_bit_eq flip: take_bit_eq_mod)
  then have le: "take_bit k x \<le> x"
    by (simp add: word_le_nat_alt)
  have "align_down (2 ^ k) x = x - take_bit k x"
    using align_down_ident [of k x] by (metis add_diff_cancel_right')
  then have "unat (align_down (2 ^ k) x) = unat x - unat (take_bit k x)"
    using le by (simp add: unat_sub)
  with tb show ?thesis by simp
qed

lemma dvd_unat_align_down: "2 ^ k dvd unat (align_down (2 ^ k) x)"
  by (simp add: unat_align_down dvd_minus_mod)

lemma align_down_le: "unat (align_down (2 ^ k) x) \<le> unat x"
  by (simp add: unat_align_down)

lemma align_down_gt: "unat x < unat (align_down (2 ^ k) x) + 2 ^ k"
proof -
  have "unat x mod 2 ^ k < 2 ^ k" by simp
  then show ?thesis unfolding unat_align_down by linarith
qed

lemma unat_pow2:
  assumes "k < 64"
  shows "unat (2 ^ k :: usize) = 2 ^ k"
proof -
  from assms have "(2::nat) ^ k < 2 ^ 64"
    by (rule power_strict_increasing) simp
  then have "unat (of_nat (2 ^ k) :: usize) = 2 ^ k"
    by (simp only: unat_of_nat) simp
  then show ?thesis by simp
qed

lemma unat_round_up:
  assumes k: "k < 64" and nw: "unat x + 2 ^ k \<le> 2 ^ 64"
  shows "unat (align_down (2 ^ k) (x + 2 ^ k - 1)) = (unat x + 2 ^ k - 1) div 2 ^ k * 2 ^ k"
proof -
  have "(1 :: usize) \<le> 2 ^ k" using k by (simp add: word_le_nat_alt unat_pow2)
  then have m: "unat (2 ^ k - 1 :: usize) = 2 ^ k - 1"
    using k by (simp add: unat_sub unat_pow2)
  have s: "unat x + (2 ^ k - 1) < 2 ^ 64"
  proof -
    have "(0::nat) < 2 ^ k" by simp
    with nw show ?thesis by linarith
  qed
  have "unat (x + (2 ^ k - 1)) = unat x + (2 ^ k - 1)"
    using unat_add_no_wrap [of x "2 ^ k - 1"] s unfolding m by blast
  then show ?thesis
    by (simp add: unat_align_down minus_mod_eq_div_mult add_diff_eq)
qed

text \<open>
  The crate rounds a byte range to pages in two ways: \<open>madvise\<close> and \<open>msync\<close> round the
  length up after adding the distance to the page start, \<open>mincore\<close> rounds the end of the range
  up and subtracts. Over the naturals they are the same number.
\<close>

lemma page_rounding_nat:
  fixes a l p :: nat
  assumes "0 < p"
  shows "(l + a mod p + p - 1) div p * p = (a + l + p - 1) div p * p - a div p * p"
proof -
  have "a + l + p - 1 = (l + a mod p + p - 1) + a div p * p"
    using assms div_mult_mod_eq [of a p] by linarith
  then have "(a + l + p - 1) div p = (l + a mod p + p - 1) div p + a div p"
    using assms by (metis div_mult_self1 add.commute not_less0)
  then show ?thesis by (simp add: add_mult_distrib)
qed
section \<open>Signed readings of small words\<close>

lemma sint_small:
  assumes "unat (w :: i64) < 2 ^ 63"
  shows "sint w = int (unat w)"
proof -
  have u: "uint w = int (unat w)" by simp
  have "int (unat w) < int (2 ^ 63)"
    using assms by (simp only: of_nat_less_iff)
  then have "signed_take_bit 63 (int (unat w)) = int (unat w)"
    by (intro signed_take_bit_int_eq_self) (auto intro: order_trans [of _ 0])
  then show ?thesis by (simp only: sint_uint u) simp
qed

lemma sint_pow2:
  assumes "k < 63"
  shows "sint (2 ^ k :: i64) = 2 ^ k"
proof -
  have "(2::nat) ^ k < 2 ^ 63" using assms by (rule power_strict_increasing) simp
  with assms have "unat (2 ^ k :: i64) < 2 ^ 63" by (simp add: unat_pow2)
  from sint_small [OF this] assms show ?thesis by (simp add: unat_pow2)
qed
end
