(* ===== verification/Shield_Error.thy ===== *)
theory Shield_Error
  imports Shield_Prelude
begin

text \<open>
  The error types of \<^verbatim>\<open>src/error.rs\<close> and the part of \<open>std::io::Error\<close> the crate
  uses: an OS error carries the \<open>errno\<close> value, a custom error its kind and message. The
  \<open>Display\<close> implementations that \<open>thiserror\<close> derives from the format attributes are
  modelled with the two formatters that are not the crate's own (\<open>io::Error\<close> and
  \<open>Duration\<close>) as arguments.
\<close>

section \<open>Error values\<close>

datatype error_kind = InvalidInput | PermissionDenied | UnexpectedEof

datatype io_error = OsError int | Custom error_kind string

type_synonym duration = nat \<comment> \<open>nanoseconds\<close>

datatype access_error =
    Sigbus usize
  | OutOfBounds usize usize usize
  | Poisoned u32
  | Timeout usize usize duration
  | Io io_error

datatype mmap_error =
    EmptyFile
  | OffsetBeyondFile u64 u64
  | MmapIo io_error

section \<open>Number formatting\<close>

definition digit :: "nat \<Rightarrow> char" where
  "digit d = ''0123456789abcdef'' ! d"

fun digits_in :: "nat \<Rightarrow> nat \<Rightarrow> string" where
  "digits_in b n =
     (if b \<le> 1 \<or> n < b then [digit n] else digits_in b (n div b) @ [digit (n mod b)])"

declare digits_in.simps [simp del]

definition decimal :: "nat \<Rightarrow> string" where
  "decimal n = digits_in 10 n"

definition hex :: "nat \<Rightarrow> string" where
  "hex n = ''0x'' @ digits_in 16 n"

section \<open>Display\<close>

definition display_access_error ::
    "bool \<Rightarrow> (io_error \<Rightarrow> string) \<Rightarrow> (duration \<Rightarrow> string) \<Rightarrow> access_error \<Rightarrow> ('s, string) comp" where
  "display_access_error chk show_io show_duration e =
     (case e of
        Sigbus fault_address \<Rightarrow> ret (''SIGBUS caught at address '' @ hex (unat fault_address))
      | OutOfBounds off len mapping_len \<Rightarrow>
          and_then (usize_add chk off len) (\<lambda>end_pos.
            ret (''access ['' @ decimal (unat off) @ ''..'' @ decimal (unat end_pos)
                 @ ''] exceeds mapping length '' @ decimal (unat mapping_len)))
      | Poisoned sigbus_count \<Rightarrow>
          ret (''file poisoned after '' @ decimal (unat sigbus_count) @ '' SIGBUS faults'')
      | Timeout off len deadline \<Rightarrow>
          and_then (usize_add chk off len) (\<lambda>end_pos.
            ret (''prefetch ['' @ decimal (unat off) @ ''..'' @ decimal (unat end_pos)
                 @ ''] timed out after '' @ show_duration deadline))
      | Io err \<Rightarrow> ret (''I/O error: '' @ show_io err))"

definition display_mmap_error :: "(io_error \<Rightarrow> string) \<Rightarrow> mmap_error \<Rightarrow> string" where
  "display_mmap_error show_io e =
     (case e of
        EmptyFile \<Rightarrow> ''cannot memory-map an empty file''
      | OffsetBeyondFile off file_len \<Rightarrow>
          ''offset '' @ decimal (unat off) @ '' is at or beyond file length ''
          @ decimal (unat file_len)
      | MmapIo err \<Rightarrow> ''mmap failed: '' @ show_io err)"

text \<open>The range an error reports, for the errors that report one.\<close>

fun error_range :: "access_error \<Rightarrow> (usize \<times> usize) option" where
  "error_range (OutOfBounds off len mapping_len) = Some (off, len)"
| "error_range (Timeout off len deadline) = Some (off, len)"
| "error_range e = None"

definition range_overflows :: "access_error \<Rightarrow> bool" where
  "range_overflows e =
     (case error_range e of None \<Rightarrow> False | Some (off, len) \<Rightarrow> 2 ^ 64 \<le> unat off + unat len)"

text \<open>
  Formatting an access error panics in exactly one situation, when overflow checks are
  on and the range the error reports does not fit in a \<open>usize\<close>.
\<close>

theorem display_panics_iff:
  "(\<exists>msg. fst (display_access_error chk show_io show_duration e s) = Panicked msg)
   \<longleftrightarrow> chk \<and> range_overflows e"
  by (cases e) (auto simp: display_access_error_def range_overflows_def usize_add_def
      and_then_def)

end
