(* ===== verification/Sys_Libc.thy ===== *)
theory Sys_Libc
  imports Shield_Error
begin

text \<open>
  The environment of the crate as one parameter: the build profile and target, the constants of
  the \<open>libc\<close> crate, the system calls, the file operations of \<open>std::fs\<close> that reach the
  kernel, and the memory accesses themselves. None of this code is in the repository, so a
  value of type \<open>'os libc\<close> stands for it, over an arbitrary type \<open>'os\<close> of kernel states;
  what a theorem needs of it is stated as one of the named hypotheses below, each a documented
  property of the call. The module also holds \<^verbatim>\<open>src/sys/page.rs\<close>.
\<close>

section \<open>The environment record\<close>

text \<open>A byte access either yields the byte, raises SIGBUS or raises SIGSEGV.\<close>

datatype mem_result = Value u8 | BusError | SegFault

text \<open>The fields of \<open>struct statfs\<close> the crate reads; the name is a NUL-terminated array.\<close>

record statfs_buf =
  f_type :: i64
  f_fstypename :: string

record 'os libc =
  overflow_checks :: bool
  target_linux :: bool
  SC_PAGESIZE :: i64
  PROT_READ :: c_int
  PROT_WRITE :: c_int
  PROT_NONE :: c_int
  MAP_PRIVATE :: c_int
  MAP_SHARED :: c_int
  MAP_ANON :: c_int
  MAP_POPULATE :: c_int
  MAP_FAILED :: usize
  MADV_NORMAL :: c_int
  MADV_SEQUENTIAL :: c_int
  MADV_RANDOM :: c_int
  MADV_WILLNEED :: c_int
  MADV_DONTNEED :: c_int
  MS_ASYNC :: c_int
  MS_SYNC :: c_int
  LOCK_EX :: c_int
  LOCK_SH :: c_int
  LOCK_NB :: c_int
  errno :: "'os \<Rightarrow> int"
  sys_mmap :: "usize \<Rightarrow> usize \<Rightarrow> c_int \<Rightarrow> c_int \<Rightarrow> c_int \<Rightarrow> i64 \<Rightarrow> 'os \<Rightarrow> usize \<times> 'os"
  sys_munmap :: "usize \<Rightarrow> usize \<Rightarrow> 'os \<Rightarrow> 'os"
  sys_madvise :: "usize \<Rightarrow> usize \<Rightarrow> c_int \<Rightarrow> 'os \<Rightarrow> c_int \<times> 'os"
  sys_msync :: "usize \<Rightarrow> usize \<Rightarrow> c_int \<Rightarrow> 'os \<Rightarrow> c_int \<times> 'os"
  sys_mincore :: "usize \<Rightarrow> usize \<Rightarrow> 'os \<Rightarrow> (c_int \<times> u8 list) \<times> 'os"
  sys_mlock :: "usize \<Rightarrow> usize \<Rightarrow> 'os \<Rightarrow> c_int \<times> 'os"
  sys_munlock :: "usize \<Rightarrow> usize \<Rightarrow> 'os \<Rightarrow> c_int \<times> 'os"
  sys_pread :: "c_int \<Rightarrow> usize \<Rightarrow> i64 \<Rightarrow> 'os \<Rightarrow> (i64 \<times> u8 list) \<times> 'os"
  sys_flock :: "c_int \<Rightarrow> c_int \<Rightarrow> 'os \<Rightarrow> c_int \<times> 'os"
  sys_sigaction :: "'os \<Rightarrow> c_int"
  sys_key_create :: "'os \<Rightarrow> c_int \<times> u32"
  sys_setspecific :: "'os \<Rightarrow> c_int"
  fs_open :: "bool \<Rightarrow> string \<Rightarrow> 'os \<Rightarrow> (io_error + c_int) \<times> 'os"
  fs_len :: "c_int \<Rightarrow> 'os \<Rightarrow> (io_error + u64) \<times> 'os"
  fs_close :: "c_int \<Rightarrow> 'os \<Rightarrow> 'os"
  mem_load :: "usize \<Rightarrow> 'os \<Rightarrow> mem_result \<times> 'os"
  mem_store :: "usize \<Rightarrow> u8 \<Rightarrow> 'os \<Rightarrow> mem_result \<times> 'os"
  copy_order :: "nat \<Rightarrow> nat list"
  sys_statfs :: "string \<Rightarrow> 'os \<Rightarrow> (c_int \<times> statfs_buf) \<times> 'os"
  alloc_ok :: "usize \<Rightarrow> bool"

text \<open>
  \<open>copy_order n\<close> is the order in which \<open>ptr::copy_nonoverlapping\<close> of \<open>n\<close> bytes visits
  them, which the language does not fix; \<open>alloc_ok n\<close> says whether the allocator can serve a
  request of \<open>n\<close> bytes.
\<close>

section \<open>Result conventions of the system calls\<close>

text \<open>\<open>io::Error::last_os_error()\<close> and the idiom
  \<open>if ret != 0 { return Err(io::Error::last_os_error()); } Ok(())\<close>.\<close>

definition last_os_error :: "'os libc \<Rightarrow> ('os, io_error) comp" where
  "last_os_error L = gets (\<lambda>s. OsError (errno L s))"

definition os_result :: "'os libc \<Rightarrow> c_int \<Rightarrow> 'a \<Rightarrow> ('os, io_error + 'a) comp" where
  "os_result L code x =
     (if code \<noteq> 0 then and_then (last_os_error L) (\<lambda>e. ret (Inl e)) else ret (Inr x))"

definition syscall :: "('os \<Rightarrow> 'a \<times> 'os) \<Rightarrow> ('os, 'a) comp" where
  "syscall f = (\<lambda>s. case f s of (x, s') \<Rightarrow> (Ret x, s'))"

lemma and_then_syscall [simp]: "and_then (syscall f) k s = k (fst (f s)) (snd (f s))"
  by (simp add: and_then_def syscall_def split: prod.splits)

lemma os_result_apply:
  "os_result L code x s = (Ret (if code = 0 then Inr x else Inl (OsError (errno L s))), s)"
  by (simp add: os_result_def last_os_error_def)

section \<open>Page size\<close>

definition page_size :: "'os libc \<Rightarrow> ('s, usize) comp" where
  "page_size L =
     (let size = SC_PAGESIZE L
      in if 0 < sint size then ret size else halt (Panicked ''sysconf(_SC_PAGESIZE) failed''))"

section \<open>Hypotheses on the environment\<close>

text \<open>The page size is a power of two (every platform the crate supports).\<close>

definition page_pow2 :: "'os libc \<Rightarrow> nat \<Rightarrow> bool" where
  "page_pow2 L k \<longleftrightarrow> SC_PAGESIZE L = 2 ^ k \<and> k < 63"

lemma page_size_pow2 [simp]: "page_pow2 L k \<Longrightarrow> page_size L = ret (2 ^ k)"
  by (simp add: page_size_def page_pow2_def sint_pow2)

text \<open>
  \<open>mmap(2)\<close>: on success the mapping starts on a page boundary and, rounded up to whole pages,
  lies inside the address space.
\<close>

definition mmap_law :: "'os libc \<Rightarrow> bool" where
  "mmap_law L \<longleftrightarrow>
     (\<forall>hint len prot flags fd off s.
        let p = fst (sys_mmap L hint len prot flags fd off s)
        in p \<noteq> MAP_FAILED L \<longrightarrow>
           unat p mod unat (SC_PAGESIZE L) = 0
           \<and> unat p + unat len + unat (SC_PAGESIZE L) < 2 ^ 64)"

text \<open>A copy of \<open>n\<close> bytes visits all of them and no others.\<close>

definition copy_law :: "'os libc \<Rightarrow> bool" where
  "copy_law L \<longleftrightarrow> (\<forall>n. set (copy_order L n) = {..<n})"

end
