(* ===== verification/Signal_Registry.thy ===== *)
theory Signal_Registry
  imports Shield_Prelude
begin

text \<open>
  \<^verbatim>\<open>src/signal/registry.rs\<close>: the set of registered regions, published as immutable
  heap-allocated snapshots behind an atomic pointer and reclaimed two generations late. The heap
  of snapshots is a finite map from pointers; the allocator of the model never hands out a
  pointer twice, so a dereference or a second free of a freed snapshot is visible and ends in
  \<open>Undefined\<close>. The global mutex is its poison flag: mutations exclude each other, and a
  panic inside the critical section poisons it. Handlers, which do not take the mutex, are
  interleaved with the two halves of a mutation.
\<close>

section \<open>State\<close>

record region =
  r_start :: usize
  r_end :: usize

record registry =
  snapshot :: "nat option"
  snaps :: "nat \<Rightarrow> region list option"
  next_snap :: nat
  previous :: "nat list"
  current :: "nat list"
  mutex_poisoned :: bool

definition registry_init :: registry where
  "registry_init =
     \<lparr>snapshot = None, snaps = Map.empty, next_snap = 0, previous = [], current = [],
      mutex_poisoned = False\<rparr>"

section \<open>Operations\<close>

definition deref_snapshot :: "nat \<Rightarrow> (registry, region list) comp" where
  "deref_snapshot p = (\<lambda>s. case snaps s p of None \<Rightarrow> (Undefined, s) | Some rs \<Rightarrow> (Ret rs, s))"

definition drop_snapshot :: "nat \<Rightarrow> (registry, unit) comp" where
  "drop_snapshot p =
     (\<lambda>s. case snaps s p of None \<Rightarrow> (Undefined, s)
                          | Some rs \<Rightarrow> (Ret (), s\<lparr>snaps := (snaps s)(p := None)\<rparr>))"

fun drop_all :: "nat list \<Rightarrow> (registry, unit) comp" where
  "drop_all [] = ret ()"
| "drop_all (p # ps) = and_then (drop_snapshot p) (\<lambda>_. drop_all ps)"

definition rotate_retired :: "(registry, unit) comp" where
  "rotate_retired =
     and_then (gets previous) (\<lambda>ps.
     and_then (drop_all ps) (\<lambda>_.
     modify (\<lambda>s. s\<lparr>previous := current s, current := []\<rparr>)))"

text \<open>\<open>Box::into_raw\<close>, the atomic swap, and retiring the pointer it returned.\<close>

definition publish :: "region list \<Rightarrow> (registry, unit) comp" where
  "publish regions =
     modify (\<lambda>s.
       let new_snapshot = next_snap s in
       s\<lparr>snaps := (snaps s)(new_snapshot \<mapsto> regions),
         next_snap := Suc new_snapshot,
         snapshot := Some new_snapshot,
         current := (case snapshot s of None \<Rightarrow> current s | Some prev \<Rightarrow> current s @ [prev])\<rparr>)"

definition lock_region_mutex :: "(registry, 'a) comp \<Rightarrow> (registry, 'a) comp" where
  "lock_region_mutex body =
     (\<lambda>s. if mutex_poisoned s then (Panicked ''region mutex poisoned'', s)
          else case body s of
                 (Panicked msg, s') \<Rightarrow> (Panicked msg, s'\<lparr>mutex_poisoned := True\<rparr>)
               | (out, s') \<Rightarrow> (out, s'))"

definition register :: "bool \<Rightarrow> usize \<Rightarrow> usize \<Rightarrow> (registry, unit) comp" where
  "register chk start len = lock_region_mutex (
     and_then rotate_retired (\<lambda>_.
     and_then (gets snapshot) (\<lambda>old_ptr.
     and_then (case old_ptr of None \<Rightarrow> ret [] | Some p \<Rightarrow> deref_snapshot p) (\<lambda>regions.
     and_then (usize_add chk start len) (\<lambda>end_addr.
     publish (regions @ [\<lparr>r_start = start, r_end = end_addr\<rparr>]))))))"

definition unregister :: "usize \<Rightarrow> (registry, unit) comp" where
  "unregister start = lock_region_mutex (
     and_then rotate_retired (\<lambda>_.
     and_then (gets snapshot) (\<lambda>old_ptr.
     case old_ptr of
       None \<Rightarrow> ret ()
     | Some p \<Rightarrow>
         and_then (deref_snapshot p) (\<lambda>regions.
         publish (filter (\<lambda>r. r_start r \<noteq> start) regions)))))"

definition in_region :: "usize \<Rightarrow> region \<Rightarrow> bool" where
  "in_region addr r \<longleftrightarrow> r_start r \<le> addr \<and> addr < r_end r"

definition contains :: "usize \<Rightarrow> (registry, bool) comp" where
  "contains addr =
     and_then (gets snapshot) (\<lambda>snapshot_ptr.
     case snapshot_ptr of
       None \<Rightarrow> ret False
     | Some p \<Rightarrow> and_then (deref_snapshot p) (\<lambda>regions. ret (list_ex (in_region addr) regions)))"

section \<open>Invariant\<close>

text \<open>
  Every live snapshot is exactly one of: the published one, retired in the last mutation
  (\<open>current\<close>), retired in the one before (\<open>previous\<close>); each generation holds at most one.
\<close>

definition retired :: "registry \<Rightarrow> nat list" where
  "retired s = previous s @ current s"

definition reg_inv :: "registry \<Rightarrow> bool" where
  "reg_inv s \<longleftrightarrow>
     distinct (retired s)
     \<and> dom (snaps s) = set (retired s) \<union> set_option (snapshot s)
     \<and> set (retired s) \<inter> set_option (snapshot s) = {}
     \<and> length (previous s) \<le> 1 \<and> length (current s) \<le> 1
     \<and> (\<forall>p \<in> dom (snaps s). p < next_snap s)
     \<and> (snapshot s = None \<longrightarrow> retired s = [])"

text \<open>The abstract value: the registered regions, oldest first.\<close>

definition regions_of :: "registry \<Rightarrow> region list" where
  "regions_of s =
     (case snapshot s of
        None \<Rightarrow> []
      | Some p \<Rightarrow> (case snaps s p of None \<Rightarrow> [] | Some rs \<Rightarrow> rs))"

lemma reg_inv_init: "reg_inv registry_init \<and> regions_of registry_init = []"
  by (simp add: reg_inv_def registry_init_def retired_def regions_of_def)

lemma drop_all_ok:
  "distinct ps \<Longrightarrow> set ps \<subseteq> dom (snaps s) \<Longrightarrow>
   drop_all ps s = (Ret (), s\<lparr>snaps := (snaps s) |` (- set ps)\<rparr>)"
proof (induction ps arbitrary: s)
  case Nil
  show ?case by (simp add: restrict_map_def)
next
  case (Cons p ps)
  then obtain rs where rs: "snaps s p = Some rs" by auto
  let ?s = "s\<lparr>snaps := (snaps s)(p := None)\<rparr>"
  have "drop_all ps ?s = (Ret (), ?s\<lparr>snaps := (snaps ?s) |` (- set ps)\<rparr>)"
    by (rule Cons.IH) (use Cons.prems in auto)
  moreover have "((snaps s)(p := None)) |` (- set ps) = (snaps s) |` (- set (p # ps))"
    by (auto simp: restrict_map_def)
  ultimately show ?case by (simp add: and_then_def drop_snapshot_def rs)
qed

text \<open>The state after a rotation.\<close>

definition rotated :: "registry \<Rightarrow> registry" where
  "rotated s = s\<lparr>snaps := (snaps s) |` (- set (previous s)), previous := current s, current := []\<rparr>"

lemma rotate_retired_ok:
  assumes "reg_inv s"
  shows "rotate_retired s = (Ret (), rotated s)"
proof -
  have "drop_all (previous s) s = (Ret (), s\<lparr>snaps := (snaps s) |` (- set (previous s))\<rparr>)"
    by (rule drop_all_ok) (use assms in \<open>auto simp: reg_inv_def retired_def\<close>)
  then show ?thesis by (simp add: rotate_retired_def and_then_def rotated_def)
qed

lemma rotated_inv: "reg_inv s \<Longrightarrow> reg_inv (rotated s)"
  by (auto simp: reg_inv_def rotated_def retired_def)

lemma rotated_simps [simp]:
  "snapshot (rotated s) = snapshot s" "current (rotated s) = []"
  "previous (rotated s) = current s" "mutex_poisoned (rotated s) = mutex_poisoned s"
  "next_snap (rotated s) = next_snap s"
  by (simp_all add: rotated_def)

lemma regions_of_rotated: "reg_inv s \<Longrightarrow> regions_of (rotated s) = regions_of s"
  by (auto simp: regions_of_def rotated_def reg_inv_def retired_def split: option.splits)

lemma deref_published:
  "reg_inv s \<Longrightarrow> snapshot s = Some p \<Longrightarrow> deref_snapshot p s = (Ret (regions_of s), s)"
  by (auto simp: deref_snapshot_def regions_of_def reg_inv_def split: option.splits)

text \<open>The state after publishing a list of regions.\<close>

definition published :: "region list \<Rightarrow> registry \<Rightarrow> registry" where
  "published regions s = snd (publish regions s)"

lemma publish_apply: "publish regions s = (Ret (), published regions s)"
  by (simp add: publish_def published_def)

lemma regions_of_published: "regions_of (published regions s) = regions"
  by (simp add: regions_of_def published_def publish_def Let_def)

lemma published_inv:
  assumes "reg_inv s" and "current s = []"
  shows "reg_inv (published regions s)"
proof -
  have "next_snap s \<notin> dom (snaps s)" using assms(1) by (auto simp: reg_inv_def)
  with assms show ?thesis
    by (auto simp: reg_inv_def published_def publish_def Let_def retired_def less_Suc_eq
        split: option.splits)
qed

lemma published_mutex [simp]: "mutex_poisoned (published regions s) = mutex_poisoned s"
  by (simp add: published_def publish_def Let_def)

section \<open>Functional behaviour of the operations\<close>

definition usable :: "registry \<Rightarrow> bool" where
  "usable s \<longleftrightarrow> reg_inv s \<and> \<not> mutex_poisoned s"

lemma usable_init: "usable registry_init"
  by (simp add: usable_def registry_init_def reg_inv_def retired_def)

lemma load_regions:
  assumes "reg_inv s"
  shows "(case snapshot s of None \<Rightarrow> ret [] | Some p \<Rightarrow> deref_snapshot p) (rotated s)
         = (Ret (regions_of s), rotated s)"
proof (cases "snapshot s")
  case None
  then show ?thesis by (simp add: regions_of_def)
next
  case (Some p)
  then show ?thesis
    using deref_published [OF rotated_inv [OF assms]] regions_of_rotated [OF assms] by simp
qed

lemma register_ok:
  assumes "usable s" and "chk \<Longrightarrow> unat start + unat len < 2 ^ 64"
  shows "register chk start len s
     = (Ret (), published (regions_of s @ [\<lparr>r_start = start, r_end = start + len\<rparr>]) (rotated s))"
proof -
  have "usize_add chk start len = (ret (start + len) :: (registry, usize) comp)"
    using assms(2) by (auto simp: usize_add_def)
  moreover have inv: "reg_inv s" and np: "\<not> mutex_poisoned s"
    using assms(1) by (simp_all add: usable_def)
  moreover note rot = rotate_retired_ok [OF inv]
  ultimately show ?thesis
    using load_regions [OF inv]
    by (simp add: register_def lock_region_mutex_def and_then_def rot publish_apply)
qed

lemma unregister_ok:
  assumes "usable s"
  shows "unregister start s
     = (Ret (), if snapshot s = None then rotated s
                else published (filter (\<lambda>r. r_start r \<noteq> start) (regions_of s)) (rotated s))"
proof -
  have inv: "reg_inv s" and np: "\<not> mutex_poisoned s"
    using assms by (simp_all add: usable_def)
  note rot = rotate_retired_ok [OF inv]
  show ?thesis
  proof (cases "snapshot s")
    case None
    with np show ?thesis
      by (simp add: unregister_def lock_region_mutex_def and_then_def rot)
  next
    case (Some p)
    then have "deref_snapshot p (rotated s) = (Ret (regions_of s), rotated s)"
      using deref_published [OF rotated_inv [OF inv]] regions_of_rotated [OF inv] by simp
    with np Some show ?thesis
      by (simp add: unregister_def lock_region_mutex_def and_then_def rot publish_apply)
  qed
qed

lemma contains_ok:
  assumes "reg_inv s"
  shows "contains addr s = (Ret (\<exists>r \<in> set (regions_of s). in_region addr r), s)"
proof (cases "snapshot s")
  case None
  then show ?thesis by (simp add: contains_def regions_of_def)
next
  case (Some p)
  then show ?thesis
    using deref_published [OF assms]
    by (simp add: contains_def list_ex_iff)
qed

lemma register_overflow:
  assumes "usable s" and "2 ^ 64 \<le> unat start + unat len"
  shows "register True start len s
     = (Panicked ''attempt to add with overflow'', (rotated s)\<lparr>mutex_poisoned := True\<rparr>)"
proof -
  have inv: "reg_inv s" and np: "\<not> mutex_poisoned s"
    using assms(1) by (simp_all add: usable_def)
  note rot = rotate_retired_ok [OF inv]
  show ?thesis
    using np assms(2) load_regions [OF inv]
    by (simp add: register_def lock_region_mutex_def and_then_def rot usize_add_def)
qed

lemma published_rotated_usable: "usable s \<Longrightarrow> usable (published regions (rotated s))"
  by (simp add: usable_def published_inv rotated_inv)

lemma rotated_usable: "usable s \<Longrightarrow> usable (rotated s)"
  by (simp add: usable_def rotated_inv)

section \<open>The interface the signal handler relies on\<close>

locale region_registry =
  fixes reg :: "usize \<Rightarrow> usize \<Rightarrow> ('s, unit) comp"
    and unreg :: "usize \<Rightarrow> ('s, unit) comp"
    and query :: "usize \<Rightarrow> ('s, bool) comp"
    and regions :: "'s \<Rightarrow> region list"
    and inv :: "'s \<Rightarrow> bool"
  assumes reg_spec: "inv s \<Longrightarrow> unat a + unat n < 2 ^ 64 \<Longrightarrow>
      \<exists>s'. reg a n s = (Ret (), s') \<and> inv s'
           \<and> regions s' = regions s @ [\<lparr>r_start = a, r_end = a + n\<rparr>]"
    and unreg_spec: "inv s \<Longrightarrow>
      \<exists>s'. unreg a s = (Ret (), s') \<and> inv s'
           \<and> regions s' = filter (\<lambda>r. r_start r \<noteq> a) (regions s)"
    and query_spec: "inv s \<Longrightarrow> query addr s = (Ret (\<exists>r \<in> set (regions s). in_region addr r), s)"
begin

lemma found_after_register:
  assumes "inv s" and "unat a + unat n < 2 ^ 64" and "unat a \<le> unat x" and "unat x < unat a + unat n"
  shows "\<exists>s'. reg a n s = (Ret (), s') \<and> query x s' = (Ret True, s')"
proof -
  obtain s' where "reg a n s = (Ret (), s')" "inv s'"
    "regions s' = regions s @ [\<lparr>r_start = a, r_end = a + n\<rparr>]"
    using reg_spec [OF assms(1,2)] by blast
  then show ?thesis
    using assms by (simp add: query_spec in_region_def word_le_nat_alt word_less_nat_alt
        unat_add_no_wrap)
qed

lemma found_after_unregister:
  assumes "inv s"
  shows "\<exists>s'. unreg a s = (Ret (), s')
     \<and> query x s' = (Ret (\<exists>r \<in> set (regions s). r_start r \<noteq> a \<and> in_region x r), s')"
proof -
  obtain s' where "unreg a s = (Ret (), s')" "inv s'"
    "regions s' = filter (\<lambda>r. r_start r \<noteq> a) (regions s)"
    using unreg_spec [OF assms] by blast
  then show ?thesis by (auto simp: query_spec)
qed

lemma register_unregister:
  assumes "inv s" and "unat a + unat n < 2 ^ 64" and fresh: "\<forall>r \<in> set (regions s). r_start r \<noteq> a"
  shows "\<exists>s'. and_then (reg a n) (\<lambda>_. unreg a) s = (Ret (), s') \<and> inv s' \<and> regions s' = regions s"
proof -
  obtain s1 where s1: "reg a n s = (Ret (), s1)" "inv s1"
    "regions s1 = regions s @ [\<lparr>r_start = a, r_end = a + n\<rparr>]"
    using reg_spec [OF assms(1,2)] by blast
  obtain s2 where s2: "unreg a s1 = (Ret (), s2)" "inv s2"
    "regions s2 = filter (\<lambda>r. r_start r \<noteq> a) (regions s1)"
    using unreg_spec [OF s1(2)] by blast
  have "filter (\<lambda>r. r_start r \<noteq> a) (regions s) = regions s"
    using fresh by (simp add: filter_id_conv)
  with s1 s2 show ?thesis by (simp add: and_then_def)
qed

end

interpretation regions: region_registry "register chk" unregister contains regions_of usable for chk
proof unfold_locales
  fix s and a n :: usize
  assume "usable s" "unat a + unat n < 2 ^ 64"
  then show "\<exists>s'. register chk a n s = (Ret (), s') \<and> usable s'
      \<and> regions_of s' = regions_of s @ [\<lparr>r_start = a, r_end = a + n\<rparr>]"
    by (simp add: register_ok published_rotated_usable regions_of_published)
next
  fix s a
  assume u: "usable s"
  then have "reg_inv s" by (simp add: usable_def)
  with u show "\<exists>s'. unregister a s = (Ret (), s') \<and> usable s'
      \<and> regions_of s' = filter (\<lambda>r. r_start r \<noteq> a) (regions_of s)"
    by (auto simp: unregister_ok published_rotated_usable regions_of_published rotated_usable
        regions_of_rotated) (simp add: regions_of_def)
next
  fix s addr
  assume "usable s"
  then show "contains addr s = (Ret (\<exists>r \<in> set (regions_of s). in_region addr r), s)"
    by (simp add: usable_def contains_ok)
qed

section \<open>Sequences of mutations\<close>

datatype reg_op = Register usize usize | Unregister usize

fun reg_step :: "bool \<Rightarrow> reg_op \<Rightarrow> (registry, unit) comp" where
  "reg_step chk (Register start len) = register chk start len"
| "reg_step chk (Unregister start) = unregister start"

fun reg_run :: "bool \<Rightarrow> reg_op list \<Rightarrow> (registry, unit) comp" where
  "reg_run chk [] = ret ()"
| "reg_run chk (x # xs) = and_then (reg_step chk x) (\<lambda>_. reg_run chk xs)"

text \<open>The abstract specification: a list of regions.\<close>

fun spec_step :: "reg_op \<Rightarrow> region list \<Rightarrow> region list" where
  "spec_step (Register start len) rs = rs @ [\<lparr>r_start = start, r_end = start + len\<rparr>]"
| "spec_step (Unregister start) rs = filter (\<lambda>r. r_start r \<noteq> start) rs"

fun op_fits :: "reg_op \<Rightarrow> bool" where
  "op_fits (Register start len) \<longleftrightarrow> unat start + unat len < 2 ^ 64"
| "op_fits (Unregister start) \<longleftrightarrow> True"

lemma reg_step_refines:
  assumes "usable s" and "op_fits x"
  shows "\<exists>s'. reg_step chk x s = (Ret (), s') \<and> usable s' \<and> regions_of s' = spec_step x (regions_of s)"
  using assms regions.reg_spec [of s] regions.unreg_spec [of s] by (cases x) auto

lemma reg_run_ok:
  "usable s \<Longrightarrow> list_all op_fits xs \<Longrightarrow>
   \<exists>s'. reg_run chk xs s = (Ret (), s') \<and> usable s' \<and> regions_of s' = fold spec_step xs (regions_of s)"
proof (induction xs arbitrary: s)
  case Nil
  then show ?case by simp
next
  case (Cons x xs)
  then obtain s1 where s1: "reg_step chk x s = (Ret (), s1)" "usable s1"
    "regions_of s1 = spec_step x (regions_of s)"
    using reg_step_refines by fastforce
  from Cons.prems(2) have "list_all op_fits xs" by simp
  with Cons.IH [OF s1(2)] s1 show ?case by (auto simp: and_then_def)
qed

lemma usable_live_snapshots:
  assumes "usable s"
  shows "finite (dom (snaps s)) \<and> card (dom (snaps s)) \<le> 3"
proof -
  have d: "dom (snaps s) = set (retired s) \<union> set_option (snapshot s)"
    and l: "length (retired s) \<le> 2"
    using assms by (auto simp: usable_def reg_inv_def retired_def)
  have "card (set (retired s)) \<le> 2" using l card_length [of "retired s"] by linarith
  moreover have "card (set_option (snapshot s)) \<le> 1" by (cases "snapshot s") auto
  ultimately have "card (dom (snaps s)) \<le> 3"
    unfolding d using card_Un_le [of "set (retired s)" "set_option (snapshot s)"] by linarith
  then show ?thesis using d by (simp add: d)
qed

text \<open>
  C7: every sequence of \<open>register\<close> and \<open>unregister\<close> calls with regions that do not wrap around the
  address space, with all the snapshot copying, swapping and delayed freeing, behaves as the same operations on a plain list of regions; no
  call touches freed memory.
\<close>

theorem reg_run_refines:
  assumes "usable s" and "list_all op_fits xs"
  shows "\<exists>s'. reg_run chk xs s = (Ret (), s') \<and> usable s' \<and> regions_of s' = fold spec_step xs (regions_of s)"
  using assms by (rule reg_run_ok)

text \<open>
  However many regions are registered and unregistered since the program started, at most
  three snapshots are allocated at any time.
\<close>

theorem live_snapshots_bounded:
  assumes "list_all op_fits xs"
  shows "\<exists>s'. reg_run chk xs registry_init = (Ret (), s')
     \<and> finite (dom (snaps s')) \<and> card (dom (snaps s')) \<le> 3"
  using reg_run_ok [OF usable_init assms, of chk] usable_live_snapshots by blast

section \<open>Readers between mutations\<close>

text \<open>
  \<open>contains\<close> runs in a signal handler without the mutex: it loads the snapshot pointer and
  dereferences it later. Mutations by other threads can fall in between, and handlers can start and
  end in the middle of a mutation. A mutation is cut where it matters to a handler: it holds the
  mutex and rotates the generations, which frees snapshots; then it publishes a new one.
\<close>

fun reg_rest :: "bool \<Rightarrow> reg_op \<Rightarrow> (registry, unit) comp" where
  "reg_rest chk (Register start len) =
     and_then (gets snapshot) (\<lambda>old_ptr.
     and_then (case old_ptr of None \<Rightarrow> ret [] | Some p \<Rightarrow> deref_snapshot p) (\<lambda>regions.
     and_then (usize_add chk start len) (\<lambda>end_addr.
     publish (regions @ [\<lparr>r_start = start, r_end = end_addr\<rparr>]))))"
| "reg_rest chk (Unregister start) =
     and_then (gets snapshot) (\<lambda>old_ptr.
     case old_ptr of
       None \<Rightarrow> ret ()
     | Some p \<Rightarrow>
         and_then (deref_snapshot p) (\<lambda>regions.
         publish (filter (\<lambda>r. r_start r \<noteq> start) regions)))"

lemma reg_step_split:
  "reg_step chk x = lock_region_mutex (and_then rotate_retired (\<lambda>_. reg_rest chk x))"
  by (cases x) (simp_all add: register_def unregister_def)

lemma reg_rest_ok:
  assumes u: "usable r" and c: "current r = []" and x: "op_fits x"
  shows "\<exists>r'. reg_rest chk x r = (Ret (), r') \<and> usable r' \<and> regions_of r' = spec_step x (regions_of r)
     \<and> ((\<exists>rs. r' = published rs r) \<or> snapshot r = None \<and> r' = r)"
proof -
  have inv: "reg_inv r" using u by (simp add: usable_def)
  have p: "usable (published rs r)" for rs using u published_inv [OF inv c] by (simp add: usable_def)
  show ?thesis
  proof (cases x)
    case (Register start len)
    have "(case snapshot r of None \<Rightarrow> ret [] | Some p \<Rightarrow> deref_snapshot p) r = (Ret (regions_of r), r)"
      using deref_published [OF inv] by (cases "snapshot r") (simp_all add: regions_of_def)
    moreover have "usize_add chk start len = (ret (start + len) :: (registry, usize) comp)"
      using x Register by (simp add: usize_add_def)
    ultimately have "reg_rest chk x r
        = (Ret (), published (regions_of r @ [\<lparr>r_start = start, r_end = start + len\<rparr>]) r)"
      by (simp add: Register and_then_def publish_apply)
    then show ?thesis using p Register by (auto simp: regions_of_published)
  next
    case (Unregister start)
    show ?thesis
    proof (cases "snapshot r")
      case None
      then show ?thesis using u Unregister by (simp add: regions_of_def)
    next
      case (Some q)
      then have "reg_rest chk x r = (Ret (), published (filter (\<lambda>r. r_start r \<noteq> start) (regions_of r)) r)"
        using deref_published [OF inv] by (simp add: Unregister and_then_def publish_apply)
      then show ?thesis using p Unregister by (auto simp: regions_of_published)
    qed
  qed
qed

text \<open>
  \<open>rc_held\<close> is the pointer a handler has loaded, \<open>rc_change\<close> the mutation that holds the mutex. \<open>rc_age\<close>
  counts the half mutations a handler has seen: it starts at 0, or at 1 in the middle of one.
\<close>

record rcu =
  rc_reg :: registry
  rc_change :: "reg_op option"
  rc_held :: "tid \<Rightarrow> nat option"
  rc_age :: "tid \<Rightarrow> nat"

definition age_at_load :: "reg_op option \<Rightarrow> nat" where
  "age_at_load change = (if change = None then 0 else 1)"

inductive rcu_step :: "bool \<Rightarrow> rcu \<Rightarrow> rcu \<Rightarrow> bool" for chk where
  load: "rc_held s t = None \<Longrightarrow> snapshot (rc_reg s) = Some p \<Longrightarrow>
    rcu_step chk s (s\<lparr>rc_held := (rc_held s)(t := Some p),
      rc_age := (rc_age s)(t := age_at_load (rc_change s))\<rparr>)"
| finish: "rc_held s t = Some p \<Longrightarrow> rcu_step chk s (s\<lparr>rc_held := (rc_held s)(t := None)\<rparr>)"
| rotate: "rc_change s = None \<Longrightarrow> op_fits x \<Longrightarrow> \<not> mutex_poisoned (rc_reg s) \<Longrightarrow>
    rotate_retired (rc_reg s) = (Ret (), r) \<Longrightarrow>
    rcu_step chk s (s\<lparr>rc_reg := r, rc_change := Some x, rc_age := (\<lambda>t. Suc (rc_age s t))\<rparr>)"
| publish: "rc_change s = Some x \<Longrightarrow> reg_rest chk x (rc_reg s) = (Ret (), r) \<Longrightarrow>
    rcu_step chk s (s\<lparr>rc_reg := r, rc_change := None, rc_age := (\<lambda>t. Suc (rc_age s t))\<rparr>)"

inductive rcu_reach :: "bool \<Rightarrow> rcu \<Rightarrow> bool" for chk where
  start: "rcu_reach chk
    \<lparr>rc_reg = registry_init, rc_change = None, rc_held = (\<lambda>_. None), rc_age = (\<lambda>_. 0)\<rparr>"
| step: "rcu_reach chk s \<Longrightarrow> rcu_step chk s s' \<Longrightarrow> rcu_reach chk s'"

text \<open>Where the snapshot held by a reader of a given age is.\<close>

definition held_at :: "registry \<Rightarrow> nat \<Rightarrow> nat \<Rightarrow> bool" where
  "held_at r n p \<longleftrightarrow>
     (if n \<le> 1 then snapshot r = Some p
      else if n = 2 then p \<in> set (current r)
      else if n \<le> 4 then p \<in> set (previous r)
      else snaps r p = None \<and> p < next_snap r)"

lemma rotation_ages:
  assumes inv: "reg_inv r" and n: "even n" and h: "held_at r n p"
  shows "held_at (rotated r) (Suc n) p"
proof -
  have "n = 0 \<or> n = 2 \<or> n = 4 \<or> 6 \<le> n" using n by presburger
  then show ?thesis
    by (elim disjE) (use h inv in \<open>auto simp: held_at_def rotated_def restrict_map_def reg_inv_def retired_def\<close>)
qed

lemma publication_ages:
  assumes inv: "reg_inv r" and n: "odd n" and h: "held_at r n p"
    and r': "(\<exists>rs. r' = published rs r) \<or> snapshot r = None \<and> r' = r"
  shows "held_at r' (Suc n) p"
proof -
  have "n = 1 \<or> n = 3 \<or> 5 \<le> n" using n by presburger
  then show ?thesis
    by (elim disjE) (use h inv r' in \<open>auto simp: held_at_def published_def publish_def Let_def reg_inv_def\<close>)
qed

lemma held_live_iff:
  assumes "reg_inv r" and "held_at r n p"
  shows "snaps r p \<noteq> None \<longleftrightarrow> n \<le> 4"
  using assms by (auto simp: held_at_def reg_inv_def retired_def split: if_splits)

text \<open>The two halves of a mutation change no snapshot that stays allocated.\<close>

lemma rotated_snaps: "snaps (rotated r) p \<noteq> None \<Longrightarrow> snaps (rotated r) p = snaps r p"
  by (auto simp: rotated_def restrict_map_def)

lemma published_snaps: "reg_inv r \<Longrightarrow> snaps r p \<noteq> None \<Longrightarrow> snaps (published rs r) p = snaps r p"
  by (auto simp: published_def publish_def Let_def reg_inv_def)

lemma rcu_invariant:
  "rcu_reach chk s \<Longrightarrow>
   usable (rc_reg s) \<and> (\<forall>x. rc_change s = Some x \<longrightarrow> op_fits x \<and> current (rc_reg s) = [])
   \<and> (\<forall>t p. rc_held s t = Some p \<longrightarrow>
        held_at (rc_reg s) (rc_age s t) p \<and> (even (rc_age s t) \<longleftrightarrow> rc_change s = None))"
proof (induction rule: rcu_reach.induct)
  case start
  show ?case using reg_inv_init by (simp add: usable_def registry_init_def)
next
  case (step s s')
  from step.hyps(2) step.IH show ?case
  proof (induction rule: rcu_step.induct)
    case (load s t p)
    then show ?case by (auto simp: held_at_def age_at_load_def)
  next
    case (rotate s x r)
    then have "r = rotated (rc_reg s)" using rotate_retired_ok by (simp add: usable_def)
    with rotate show ?case by (auto simp: rotated_usable usable_def intro: rotation_ages rotated_inv)
  next
    case (publish s x r)
    then have "usable r \<and> ((\<exists>rs. r = published rs (rc_reg s)) \<or> snapshot (rc_reg s) = None \<and> r = rc_reg s)"
      using reg_rest_ok [of "rc_reg s" x chk] by auto
    with publish show ?case by (auto simp: usable_def intro: publication_ages)
  qed auto
qed

text \<open>
  C8: in every interleaving of handlers with mutations, also when they start in the middle of one,
  the snapshot a handler has loaded is still allocated exactly when it has seen at most four halves
  of mutations: two whole mutations when the mutex was free, but only one and the rest of another
  when the handler started in the middle of a mutation.
\<close>

theorem reader_snapshot_live_iff:
  assumes "rcu_reach chk s" and "rc_held s t = Some p"
  shows "snaps (rc_reg s) p \<noteq> None \<longleftrightarrow> rc_age s t \<le> 4"
  using rcu_invariant [OF assms(1)] assms(2) held_live_iff [of "rc_reg s" "rc_age s t" p]
  by (simp add: usable_def)

text \<open>
  After a successful \<open>register\<close> the handler's lookup finds every address of the region;
  unregistering a region whose start was not registered before restores the registered set.
\<close>

theorem register_lookup_roundtrip:
  assumes "usable s" and "unat a + unat n < 2 ^ 64"
  shows "(\<exists>s'. register chk a n s = (Ret (), s')
       \<and> (\<forall>x. unat a \<le> unat x \<and> unat x < unat a + unat n \<longrightarrow> contains x s' = (Ret True, s')))
     \<and> ((\<forall>r \<in> set (regions_of s). r_start r \<noteq> a) \<longrightarrow>
          (\<exists>s'. and_then (register chk a n) (\<lambda>_. unregister a) s = (Ret (), s')
             \<and> usable s' \<and> regions_of s' = regions_of s))"
proof -
  obtain s' where s': "register chk a n s = (Ret (), s')"
    using register_ok [OF assms(1), of chk a n] assms(2) by blast
  have "contains x s' = (Ret True, s')" if "unat a \<le> unat x" "unat x < unat a + unat n" for x
    using regions.found_after_register [OF assms that, of chk] s' by simp
  moreover have "(\<forall>r \<in> set (regions_of s). r_start r \<noteq> a) \<Longrightarrow>
      \<exists>s'. and_then (register chk a n) (\<lambda>_. unregister a) s = (Ret (), s')
             \<and> usable s' \<and> regions_of s' = regions_of s"
    using regions.register_unregister [OF assms] .
  ultimately show ?thesis using s' by blast
qed

text \<open>
  C36: with overflow checks, registering a region that wraps around the address space panics
  inside the critical section; from then on every mutation of the registry panics, while
  lookups still answer from the regions registered before.
\<close>

theorem register_overflow_poisons:
  assumes "usable s" and "2 ^ 64 \<le> unat start + unat len"
  shows "\<exists>s'. register True start len s = (Panicked ''attempt to add with overflow'', s')
     \<and> register chk a n s' = (Panicked ''region mutex poisoned'', s')
     \<and> unregister a s' = (Panicked ''region mutex poisoned'', s')
     \<and> contains x s' = (Ret (\<exists>r \<in> set (regions_of s). in_region x r), s')"
proof -
  let ?s = "(rotated s)\<lparr>mutex_poisoned := True\<rparr>"
  have inv: "reg_inv s" using assms(1) by (simp add: usable_def)
  have "regions_of ?s = regions_of s"
  proof -
    have "regions_of ?s = regions_of (rotated s)"
      by (simp add: regions_of_def split: option.split)
    then show ?thesis using regions_of_rotated [OF inv] by simp
  qed
  moreover have "reg_inv ?s" using rotated_inv [OF inv] by (simp add: reg_inv_def retired_def)
  ultimately show ?thesis
    using register_overflow [OF assms] contains_ok [of ?s x]
    by (simp add: register_def unregister_def lock_region_mutex_def)
qed

end
