(* ===== verification/Signal_Thread.thy ===== *)
theory Signal_Thread
  imports Sys_Libc Signal_Registry
begin

text \<open>
  The process state of the signal layer and \<^verbatim>\<open>src/signal/thread_state.rs\<close>: the
  per-thread recovery state behind a pthread key. A thread's slot for a key is null, holds a
  pointer to one of the crate's own \<open>ThreadState\<close> allocations, or holds a foreign non-null
  pointer that some other library stored under its own key.
\<close>

section \<open>Process state\<close>

text \<open>
  \<open>jmp_buf\<close> identifies the \<open>sigsetjmp\<close> checkpoint saved last, \<open>None\<close> for the zeroed
  buffer of a new state.
\<close>

record thread_state =
  jmp_buf :: "nat option"
  in_protected :: bool
  fault_addr :: usize

datatype slot = Null | Ours nat | Foreign

datatype disposition = SIG_DFL | SIGBUS_HANDLER

datatype once = Incomplete | Complete | Once_poisoned

record 'os world =
  os :: 'os
  handler_once :: once
  sigbus_action :: disposition
  key_once :: once
  thread_state_key :: u32
  slots :: "tid \<Rightarrow> u32 \<Rightarrow> slot"
  tstates :: "nat \<Rightarrow> thread_state option"
  next_tstate :: nat
  next_frame :: nat
  regs :: registry

text \<open>A process that has not used the crate yet; other libraries may hold keys of their own.\<close>

definition world_init :: "(tid \<Rightarrow> u32 \<Rightarrow> bool) \<Rightarrow> 'os \<Rightarrow> 'os world" where
  "world_init foreign s =
     \<lparr>os = s, handler_once = Incomplete, sigbus_action = SIG_DFL, key_once = Incomplete,
      thread_state_key = 0, slots = (\<lambda>t k. if foreign t k then Foreign else Null),
      tstates = Map.empty, next_tstate = 0, next_frame = 0, regs = registry_init\<rparr>"

definition on_os :: "('os, 'a) comp \<Rightarrow> ('os world, 'a) comp" where
  "on_os = zoom os (\<lambda>s w. w\<lparr>os := s\<rparr>)"

definition on_regs :: "(registry, 'a) comp \<Rightarrow> ('os world, 'a) comp" where
  "on_regs = zoom regs (\<lambda>r w. w\<lparr>regs := r\<rparr>)"

text \<open>
  \<open>std::sync::Once\<close>: the closure runs on the first call only; if it panics the \<open>Once\<close> is
  poisoned and every later call panics.
\<close>

definition call_once ::
    "('w \<Rightarrow> once) \<Rightarrow> (once \<Rightarrow> 'w \<Rightarrow> 'w) \<Rightarrow> ('w, unit) comp \<Rightarrow> ('w, unit) comp" where
  "call_once get put body =
     (\<lambda>w. case get w of
            Complete \<Rightarrow> (Ret (), w)
          | Once_poisoned \<Rightarrow> (Panicked ''Once instance has previously been poisoned'', w)
          | Incomplete \<Rightarrow>
              (case body w of
                 (Ret _, w') \<Rightarrow> (Ret (), put Complete w')
               | (Panicked msg, w') \<Rightarrow> (Panicked msg, put Once_poisoned w')
               | (out, w') \<Rightarrow> (out, w')))"

section \<open>Thread state\<close>

definition thread_state_new :: thread_state where
  "thread_state_new = \<lparr>jmp_buf = None, in_protected = False, fault_addr = 0\<rparr>"

text \<open>Access through a \<open>*mut ThreadState\<close>; a dangling pointer is undefined behaviour.\<close>

definition read_state :: "nat \<Rightarrow> ('os world, thread_state) comp" where
  "read_state p = (\<lambda>w. case tstates w p of None \<Rightarrow> (Undefined, w) | Some ts \<Rightarrow> (Ret ts, w))"

definition update_state :: "nat \<Rightarrow> (thread_state \<Rightarrow> thread_state) \<Rightarrow> ('os world, unit) comp" where
  "update_state p f =
     (\<lambda>w. case tstates w p of
            None \<Rightarrow> (Undefined, w)
          | Some ts \<Rightarrow> (Ret (), w\<lparr>tstates := (tstates w)(p \<mapsto> f ts)\<rparr>))"

definition key :: "('os world, u32) comp" where
  "key = gets thread_state_key"

text \<open>\<open>pthread_key_create\<close> gives a key whose slot is null in every thread.\<close>

definition init_key :: "'os libc \<Rightarrow> ('os world, unit) comp" where
  "init_key L = call_once key_once (\<lambda>c w. w\<lparr>key_once := c\<rparr>)
     (\<lambda>w. case sys_key_create L (os w) of
            (code, raw_key) \<Rightarrow>
              if code \<noteq> 0 then (Panicked ''pthread_key_create failed'', w)
              else (Ret (), w\<lparr>slots := (\<lambda>t. (slots w t)(raw_key := Null)),
                              thread_state_key := raw_key\<rparr>))"

definition get_or_init :: "'os libc \<Rightarrow> tid \<Rightarrow> ('os world, nat) comp" where
  "get_or_init L t =
     and_then (init_key L) (\<lambda>_.
     and_then key (\<lambda>k.
     and_then (gets (\<lambda>w. slots w t k)) (\<lambda>sl.
     case sl of
       Ours p \<Rightarrow> ret p
     | Foreign \<Rightarrow> halt Undefined
     | Null \<Rightarrow>
         (\<lambda>w. let p = next_tstate w;
                  w1 = w\<lparr>tstates := (tstates w)(p \<mapsto> thread_state_new), next_tstate := Suc p\<rparr>
              in (Ret p, if sys_setspecific L (os w) = 0
                         then w1\<lparr>slots := (slots w1)(t := (slots w1 t)(k := Ours p))\<rparr>
                         else w1)))))"

text \<open>The destructor, and the exit of a thread, on which pthreads calls it for a non-null slot.\<close>

definition destroy_thread_state :: "slot \<Rightarrow> ('os world, unit) comp" where
  "destroy_thread_state sl =
     (case sl of
        Null \<Rightarrow> ret ()
      | Foreign \<Rightarrow> halt Undefined
      | Ours p \<Rightarrow>
          (\<lambda>w. case tstates w p of
                 None \<Rightarrow> (Undefined, w)
               | Some _ \<Rightarrow> (Ret (), w\<lparr>tstates := (tstates w)(p := None)\<rparr>)))"

definition thread_exit :: "tid \<Rightarrow> ('os world, unit) comp" where
  "thread_exit t =
     (\<lambda>w. if key_once w = Complete then
            (let k = thread_state_key w; sl = slots w t k;
                 w1 = w\<lparr>slots := (slots w)(t := (slots w t)(k := Null))\<rparr>
             in destroy_thread_state sl w1)
          else (Ret (), w))"

section \<open>Invariant\<close>

text \<open>
  The pthread calls succeed (they fail only for lack of resources).
\<close>

definition pthread_ok :: "'os libc \<Rightarrow> bool" where
  "pthread_ok L \<longleftrightarrow> (\<forall>s. fst (sys_key_create L s) = 0 \<and> sys_setspecific L s = 0)"

definition thread_inv :: "'os world \<Rightarrow> bool" where
  "thread_inv w \<longleftrightarrow>
     key_once w \<noteq> Once_poisoned
     \<and> (key_once w = Incomplete \<longrightarrow> (\<forall>t k p. slots w t k \<noteq> Ours p) \<and> tstates w = Map.empty)
     \<and> (key_once w = Complete \<longrightarrow> (\<forall>t. slots w t (thread_state_key w) \<noteq> Foreign))
     \<and> (\<forall>t k p. slots w t k = Ours p \<longrightarrow> k = thread_state_key w \<and> tstates w p \<noteq> None)
     \<and> (\<forall>t t' k k' p. slots w t k = Ours p \<longrightarrow> slots w t' k' = Ours p \<longrightarrow> t = t')
     \<and> (\<forall>p. tstates w p \<noteq> None \<longrightarrow> p < next_tstate w)
     \<and> (\<forall>p. tstates w p \<noteq> None \<longrightarrow> (\<exists>t. slots w t (thread_state_key w) = Ours p))"

lemma thread_inv_init: "thread_inv (world_init foreign s)"
  by (simp add: thread_inv_def world_init_def)

text \<open>Everything but the thread states: what the recovery path must not disturb.\<close>

definition same_but_threads :: "'os world \<Rightarrow> 'os world \<Rightarrow> bool" where
  "same_but_threads w w' \<longleftrightarrow>
     os w' = os w \<and> regs w' = regs w \<and> handler_once w' = handler_once w
     \<and> sigbus_action w' = sigbus_action w \<and> next_frame w' = next_frame w"

lemma thread_inv_ours:
  "thread_inv w \<Longrightarrow> slots w t k = Ours p \<Longrightarrow> k = thread_state_key w \<and> (\<exists>ts. tstates w p = Some ts)"
  by (auto simp: thread_inv_def)

lemma thread_inv_inj: "thread_inv w \<Longrightarrow> slots w t k = Ours p \<Longrightarrow> slots w t' k' = Ours p \<Longrightarrow> t = t'"
  unfolding thread_inv_def by blast

lemma thread_inv_bound: "thread_inv w \<Longrightarrow> tstates w p = Some ts \<Longrightarrow> p < next_tstate w"
  by (simp add: thread_inv_def)

lemma thread_inv_onto:
  "thread_inv w \<Longrightarrow> tstates w p = Some ts \<Longrightarrow> \<exists>t. slots w t (thread_state_key w) = Ours p"
  by (simp add: thread_inv_def)

lemma thread_inv_foreign:
  "thread_inv w \<Longrightarrow> key_once w = Complete \<Longrightarrow> slots w t (thread_state_key w) \<noteq> Foreign"
  by (simp add: thread_inv_def)

lemma thread_invI:
  assumes "key_once w = Complete"
    and "\<And>t. slots w t (thread_state_key w) \<noteq> Foreign"
    and "\<And>t k p. slots w t k = Ours p \<Longrightarrow> k = thread_state_key w \<and> tstates w p \<noteq> None"
    and "\<And>t t' k k' p. slots w t k = Ours p \<Longrightarrow> slots w t' k' = Ours p \<Longrightarrow> t = t'"
    and "\<And>p. tstates w p \<noteq> None \<Longrightarrow> p < next_tstate w"
    and "\<And>p. tstates w p \<noteq> None \<Longrightarrow> \<exists>t. slots w t (thread_state_key w) = Ours p"
  shows "thread_inv w"
  unfolding thread_inv_def using assms by (intro conjI allI impI) simp_all

lemma thread_inv_alloc:
  assumes inv: "thread_inv w" and c: "key_once w = Complete"
    and sl: "slots w t (thread_state_key w) = Null"
  shows "thread_inv (w\<lparr>tstates := (tstates w)(next_tstate w \<mapsto> ts), next_tstate := Suc (next_tstate w),
           slots := (slots w)(t := (slots w t)(thread_state_key w := Ours (next_tstate w)))\<rparr>)"
    (is "thread_inv ?w")
proof -
  let ?p = "next_tstate w" and ?k = "thread_state_key w"
  have fresh: "tstates w ?p = None" using thread_inv_bound [OF inv, of ?p] by fastforce
  have unused: "slots w t' k \<noteq> Ours ?p" for t' k
    using thread_inv_ours [OF inv, of t' k ?p] fresh by auto
  have slots: "slots ?w t' k = (if t' = t \<and> k = ?k then Ours ?p else slots w t' k)" for t' k
    by simp
  show ?thesis
  proof (rule thread_invI)
    show "key_once ?w = Complete" using c by simp
  next
    fix t' show "slots ?w t' (thread_state_key ?w) \<noteq> Foreign"
      using thread_inv_foreign [OF inv c] by simp
  next
    fix t' k q assume "slots ?w t' k = Ours q"
    then show "k = thread_state_key ?w \<and> tstates ?w q \<noteq> None"
      using thread_inv_ours [OF inv, of t' k q] unfolding slots by (auto split: if_splits)
  next
    fix t1 t2 k1 k2 q assume "slots ?w t1 k1 = Ours q" "slots ?w t2 k2 = Ours q"
    then show "t1 = t2"
      using thread_inv_inj [OF inv, of t1 k1 q t2 k2] unused
      unfolding slots by (auto split: if_splits)
  next
    fix q assume "tstates ?w q \<noteq> None"
    then show "q < next_tstate ?w"
      using thread_inv_bound [OF inv, of q] by (auto split: if_splits simp: less_Suc_eq)
  next
    fix q assume q: "tstates ?w q \<noteq> None"
    show "\<exists>t'. slots ?w t' (thread_state_key ?w) = Ours q"
    proof (cases "q = ?p")
      case True
      then show ?thesis by (intro exI [of _ t]) simp
    next
      case False
      with q have "\<exists>x. tstates w q = Some x" by simp
      then obtain t' where "slots w t' ?k = Ours q"
        using thread_inv_onto [OF inv, of q] by blast
      with sl show ?thesis by (intro exI [of _ t']) auto
    qed
  qed
qed

lemma init_key_ok:
  assumes env: "pthread_ok L" and inv: "thread_inv w"
  obtains w1 where "init_key L w = (Ret (), w1)" "thread_inv w1" "key_once w1 = Complete"
    "same_but_threads w w1"
proof (cases "key_once w")
  case Incomplete
  define raw_key where "raw_key = snd (sys_key_create L (os w))"
  define w1 where "w1 = w\<lparr>slots := (\<lambda>t. (slots w t)(raw_key := Null)),
                            thread_state_key := raw_key, key_once := Complete\<rparr>"
  have "sys_key_create L (os w) = (0, raw_key)"
    using env by (simp add: pthread_ok_def raw_key_def prod_eq_iff)
  then have "init_key L w = (Ret (), w1)"
    by (simp add: init_key_def call_once_def Incomplete w1_def)
  moreover have "thread_inv w1"
    using inv Incomplete by (auto simp: thread_inv_def w1_def)
  ultimately show ?thesis
    by (intro that [of w1]) (simp_all add: w1_def same_but_threads_def)
next
  case Complete
  with inv show ?thesis
    by (intro that [of w]) (simp_all add: init_key_def call_once_def same_but_threads_def)
next
  case Once_poisoned
  with inv show ?thesis by (simp add: thread_inv_def)
qed

lemma get_or_init_ok:
  assumes env: "pthread_ok L" and inv: "thread_inv w"
  shows "\<exists>p w'. get_or_init L t w = (Ret p, w') \<and> thread_inv w' \<and> key_once w' = Complete
     \<and> slots w' t (thread_state_key w') = Ours p \<and> tstates w' p \<noteq> None \<and> same_but_threads w w'"
proof -
  obtain w1 where w1: "init_key L w = (Ret (), w1)" "thread_inv w1" "key_once w1 = Complete"
      "same_but_threads w w1"
    using init_key_ok [OF env inv] .
  let ?k = "thread_state_key w1"
  have eq: "get_or_init L t w = (case slots w1 t ?k of
       Ours p \<Rightarrow> (Ret p, w1) | Foreign \<Rightarrow> (Undefined, w1)
     | Null \<Rightarrow> (let p = next_tstate w1 in (Ret p, w1\<lparr>tstates := (tstates w1)(p \<mapsto> thread_state_new),
          next_tstate := Suc p, slots := (slots w1)(t := (slots w1 t)(?k := Ours p))\<rparr>)))"
    using env w1(1)
    by (simp add: get_or_init_def key_def Let_def pthread_ok_def and_then_def split: slot.splits)
  show ?thesis
  proof (cases "slots w1 t ?k")
    case Null
    define p where "p = next_tstate w1"
    define w' where "w' = w1\<lparr>tstates := (tstates w1)(p \<mapsto> thread_state_new),
          next_tstate := Suc p, slots := (slots w1)(t := (slots w1 t)(?k := Ours p))\<rparr>"
    have "get_or_init L t w = (Ret p, w')"
      unfolding eq Null w'_def p_def by (simp add: Let_def)
    moreover have "thread_inv w'"
      unfolding w'_def p_def by (rule thread_inv_alloc [OF w1(2,3) Null])
    ultimately show ?thesis
      using w1(3,4) by (auto simp: w'_def same_but_threads_def)
  next
    case (Ours p)
    then have "get_or_init L t w = (Ret p, w1)" using eq by simp
    with w1 Ours thread_inv_ours [OF w1(2) Ours] show ?thesis
      by (intro exI [of _ p] exI [of _ w1]) simp
  next
    case Foreign
    with thread_inv_foreign [OF w1(2,3)] show ?thesis by simp
  qed
qed

text \<open>Obtaining a state leaves the slots and states of the other threads alone.\<close>

lemma get_or_init_others:
  assumes env: "pthread_ok L" and inv: "thread_inv w" and g: "get_or_init L t w = (Ret p, w')"
    and t': "t' \<noteq> t" and sl: "slots w t' (thread_state_key w) = Ours q"
  shows "slots w' t' (thread_state_key w') = Ours q \<and> tstates w' q = tstates w q"
proof -
  have c: "key_once w = Complete"
    using inv sl by (cases "key_once w") (auto simp: thread_inv_def)
  then have i: "init_key L w = (Ret (), w)" by (simp add: init_key_def call_once_def)
  obtain ts where "tstates w q = Some ts" using thread_inv_ours [OF inv sl] by blast
  then have "q \<noteq> next_tstate w" using thread_inv_bound [OF inv] by blast
  then show ?thesis
    using g i sl t' env
    by (auto simp: get_or_init_def key_def Let_def pthread_ok_def split: slot.splits)
qed

lemma thread_inv_update:
  assumes "thread_inv w" and "tstates w p = Some ts"
  shows "thread_inv (w\<lparr>tstates := (tstates w)(p \<mapsto> ts')\<rparr>)"
  using assms unfolding thread_inv_def by auto

lemma thread_inv_cong:
  assumes "thread_inv w" and "slots w' = slots w" and "tstates w' = tstates w"
    and "next_tstate w' = next_tstate w" and "key_once w' = key_once w"
    and "thread_state_key w' = thread_state_key w"
  shows "thread_inv w'"
  using assms unfolding thread_inv_def by simp

lemma thread_inv_free:
  assumes inv: "thread_inv w" and c: "key_once w = Complete" and sl: "slots w t (thread_state_key w) = Ours p"
  shows "thread_inv (w\<lparr>slots := (slots w)(t := (slots w t)(thread_state_key w := Null)),
           tstates := (tstates w)(p := None)\<rparr>)"
    (is "thread_inv ?w")
proof -
  let ?k = "thread_state_key w"
  have slots: "slots ?w t' k = (if t' = t \<and> k = ?k then Null else slots w t' k)" for t' k
    by simp
  have other: "slots ?w t' k = Ours q \<Longrightarrow> slots w t' k = Ours q \<and> q \<noteq> p" for t' k q
    using thread_inv_inj [OF inv sl, of t' k] thread_inv_ours [OF inv, of t' k q]
    unfolding slots by (auto split: if_splits)
  show ?thesis
  proof (rule thread_invI)
    show "key_once ?w = Complete" using c by simp
  next
    fix t' show "slots ?w t' (thread_state_key ?w) \<noteq> Foreign"
      using thread_inv_foreign [OF inv c] by simp
  next
    fix t' k q assume "slots ?w t' k = Ours q"
    then have "slots w t' k = Ours q" "q \<noteq> p" using other by blast+
    with thread_inv_ours [OF inv, of t' k q] show "k = thread_state_key ?w \<and> tstates ?w q \<noteq> None"
      by simp
  next
    fix t1 t2 k1 k2 q assume "slots ?w t1 k1 = Ours q" "slots ?w t2 k2 = Ours q"
    then show "t1 = t2"
      using thread_inv_inj [OF inv, of t1 k1 q t2 k2] other by blast
  next
    fix q assume "tstates ?w q \<noteq> None"
    then show "q < next_tstate ?w" using thread_inv_bound [OF inv, of q] by (auto split: if_splits)
  next
    fix q assume q: "tstates ?w q \<noteq> None"
    then have "q \<noteq> p" and "\<exists>x. tstates w q = Some x" by (auto split: if_splits)
    then obtain t' where "slots w t' ?k = Ours q" using thread_inv_onto [OF inv, of q] by blast
    with sl \<open>q \<noteq> p\<close> show "\<exists>t'. slots ?w t' (thread_state_key ?w) = Ours q"
      by (intro exI [of _ t']) auto
  qed
qed

text \<open>
  A thread that exits gives back exactly its own state: nothing leaks, nothing is freed twice,
  and no other thread's slot or state changes.
\<close>

lemma thread_exit_ok:
  assumes inv: "thread_inv w" and c: "key_once w = Complete"
  shows "\<exists>w'. thread_exit t w = (Ret (), w') \<and> thread_inv w'
     \<and> slots w' t (thread_state_key w) = Null
     \<and> (\<forall>t' p. t' \<noteq> t \<longrightarrow> slots w t' (thread_state_key w) = Ours p \<longrightarrow>
           slots w' t' (thread_state_key w) = Ours p \<and> tstates w' p = tstates w p)"
proof (cases "slots w t (thread_state_key w)")
  case Null
  define w' where "w' = w\<lparr>slots := (slots w)(t := (slots w t)(thread_state_key w := Null))\<rparr>"
  have sl: "slots w' = slots w" using Null by (auto simp: w'_def fun_eq_iff)
  have "thread_inv w'" by (rule thread_inv_cong [OF inv sl]) (simp_all add: w'_def)
  moreover have "thread_exit t w = (Ret (), w')"
    using Null c by (simp add: thread_exit_def destroy_thread_state_def Let_def w'_def)
  ultimately show ?thesis using Null sl by (simp add: w'_def)
next
  case Foreign
  with thread_inv_foreign [OF inv c] show ?thesis by simp
next
  case (Ours p)
  let ?k = "thread_state_key w"
  let ?w = "w\<lparr>slots := (slots w)(t := (slots w t)(?k := Null)), tstates := (tstates w)(p := None)\<rparr>"
  obtain ts where ts: "tstates w p = Some ts" using thread_inv_ours [OF inv Ours] by blast
  have "thread_exit t w = (Ret (), ?w)"
    using Ours c ts by (simp add: thread_exit_def destroy_thread_state_def Let_def)
  moreover have "slots ?w t' ?k = Ours q \<and> tstates ?w q = tstates w q"
    if "t' \<noteq> t" "slots w t' ?k = Ours q" for t' q
    using that thread_inv_inj [OF inv Ours, of t' ?k] by auto
  ultimately show ?thesis
    using thread_inv_free [OF inv c Ours] by (intro exI [of _ ?w]) simp
qed

text \<open>
  C22: \<open>get_or_init\<close> gives every thread a live recovery state of its own: a second call by the
  same thread returns the same pointer, another thread gets a different one.
\<close>

theorem thread_states_private:
  assumes env: "pthread_ok L" and inv: "thread_inv w"
  shows "\<exists>p w1. get_or_init L t w = (Ret p, w1) \<and> thread_inv w1 \<and> tstates w1 p \<noteq> None
     \<and> get_or_init L t w1 = (Ret p, w1)
     \<and> (\<forall>t'. t' \<noteq> t \<longrightarrow> (\<exists>p' w2. get_or_init L t' w1 = (Ret p', w2) \<and> thread_inv w2 \<and> p' \<noteq> p))"
proof -
  obtain p w1 where 1: "get_or_init L t w = (Ret p, w1)" "thread_inv w1"
      "slots w1 t (thread_state_key w1) = Ours p" "tstates w1 p \<noteq> None" "key_once w1 = Complete"
    using get_or_init_ok [OF env inv] by blast
  have again: "get_or_init L t w1 = (Ret p, w1)"
    using 1(3,5) by (simp add: get_or_init_def init_key_def call_once_def key_def)
  have "\<exists>p' w2. get_or_init L t' w1 = (Ret p', w2) \<and> thread_inv w2 \<and> p' \<noteq> p" if "t' \<noteq> t" for t'
  proof -
    obtain p' w2 where 2: "get_or_init L t' w1 = (Ret p', w2)" "thread_inv w2"
        "slots w2 t' (thread_state_key w2) = Ours p'"
      using get_or_init_ok [OF env 1(2)] by blast
    have "slots w2 t (thread_state_key w2) = Ours p"
      using 2(1) 1(3,5) that
      by (cases "slots w1 t' (thread_state_key w1)")
        (auto simp: get_or_init_def init_key_def call_once_def key_def Let_def split: if_splits)
    with 2 that thread_inv_inj [OF 2(2)] show ?thesis by blast
  qed
  with 1 again show ?thesis by blast
qed

text \<open>
  C23: when a thread exits its recovery state is freed once, its slot is cleared, and the states of
  all other threads stay as they are.
\<close>

theorem thread_exit_frees:
  assumes "thread_inv w" and "key_once w = Complete" and "slots w t (thread_state_key w) = Ours p"
  shows "\<exists>w'. thread_exit t w = (Ret (), w') \<and> thread_inv w' \<and> tstates w' p = None
     \<and> slots w' t (thread_state_key w) = Null
     \<and> (\<forall>t' q. t' \<noteq> t \<longrightarrow> slots w t' (thread_state_key w) = Ours q \<longrightarrow>
           slots w' t' (thread_state_key w) = Ours q \<and> tstates w' q = tstates w q)"
proof -
  obtain w' where w': "thread_exit t w = (Ret (), w')" "thread_inv w'"
      "slots w' t (thread_state_key w) = Null"
      "\<forall>t' q. t' \<noteq> t \<longrightarrow> slots w t' (thread_state_key w) = Ours q \<longrightarrow>
           slots w' t' (thread_state_key w) = Ours q \<and> tstates w' q = tstates w q"
    using thread_exit_ok [OF assms(1,2)] by blast
  moreover have "tstates w' p = None"
    using w'(1) assms(2,3)
    by (auto simp: thread_exit_def destroy_thread_state_def Let_def split: option.splits)
  ultimately show ?thesis by blast
qed

end
