(* ===== verification/Signal_Handler.thy ===== *)
theory Signal_Handler
  imports Signal_Thread
begin

text \<open>
  \<^verbatim>\<open>src/signal/handler.rs\<close>: installing the process-wide SIGBUS handler, and the handler
  itself. The kernel's side of a fault (\<open>deliver_sigbus\<close>) acts on the installed disposition: the
  default action ends the process, otherwise the handler runs on the faulting thread.
\<close>

definition mmap_guard_siglongjmp :: "nat option \<Rightarrow> ('os world, 'a) comp" where
  "mmap_guard_siglongjmp env =
     (case env of None \<Rightarrow> halt Undefined | Some fr \<Rightarrow> halt (LongJmp fr))"

text \<open>
  \<open>sigaction(SIGBUS, SIG_DFL)\<close> followed by \<open>raise(SIGBUS)\<close>: the signal is not blocked
  (\<open>SA_NODEFER\<close>), so the default action ends the process here.
\<close>

definition restore_default_and_reraise :: "('os world, 'a) comp" where
  "restore_default_and_reraise =
     and_then (modify (\<lambda>w. w\<lparr>sigbus_action := SIG_DFL\<rparr>)) (\<lambda>_. halt (Killed SIGBUS))"

definition sigbus_handler :: "tid \<Rightarrow> usize \<Rightarrow> ('os world, 'a) comp" where
  "sigbus_handler t si_addr =
     and_then key (\<lambda>k.
     and_then (gets (\<lambda>w. slots w t k)) (\<lambda>state_ptr.
     case state_ptr of
       Null \<Rightarrow> restore_default_and_reraise
     | Foreign \<Rightarrow> halt Undefined
     | Ours p \<Rightarrow>
         and_then (read_state p) (\<lambda>state.
         if \<not> in_protected state then restore_default_and_reraise
         else and_then (on_regs (contains si_addr)) (\<lambda>found.
           if \<not> found then restore_default_and_reraise
           else and_then
                  (update_state p (\<lambda>ts. ts\<lparr>fault_addr := si_addr, in_protected := False\<rparr>))
                  (\<lambda>_. mmap_guard_siglongjmp (jmp_buf state))))))"

definition deliver_sigbus :: "tid \<Rightarrow> usize \<Rightarrow> ('os world, 'a) comp" where
  "deliver_sigbus t addr =
     and_then (gets sigbus_action) (\<lambda>act.
     case act of SIG_DFL \<Rightarrow> halt (Killed SIGBUS) | SIGBUS_HANDLER \<Rightarrow> sigbus_handler t addr)"

definition install :: "'os libc \<Rightarrow> ('os world, unit) comp" where
  "install L = call_once handler_once (\<lambda>c w. w\<lparr>handler_once := c\<rparr>)
     (\<lambda>w. if sys_sigaction L (os w) = 0 then (Ret (), w\<lparr>sigbus_action := SIGBUS_HANDLER\<rparr>)
          else (Panicked ''failed to install SIGBUS handler'', w))"

section \<open>What the handler decides\<close>

definition handler_inv :: "'os world \<Rightarrow> bool" where
  "handler_inv w \<longleftrightarrow>
     handler_once w \<noteq> Once_poisoned
     \<and> (handler_once w = Complete \<longrightarrow> sigbus_action w = SIGBUS_HANDLER)"

lemma install_ok:
  assumes "handler_inv w" and "sys_sigaction L (os w) = 0"
  shows "install L w = (Ret (), w\<lparr>handler_once := Complete, sigbus_action := SIGBUS_HANDLER\<rparr>)"
  using assms by (cases "handler_once w") (auto simp: install_def call_once_def handler_inv_def)

lemma install_idempotent:
  "install L w = (Ret (), w') \<Longrightarrow> install L w' = (Ret (), w')"
  by (cases "handler_once w") (auto simp: install_def call_once_def split: if_splits)

lemma on_regs_contains:
  "reg_inv (regs w) \<Longrightarrow>
   on_regs (contains addr) w = (Ret (\<exists>r \<in> set (regions_of (regs w)). in_region addr r), w)"
  by (simp add: on_regs_def zoom_def contains_ok)

text \<open>The fault addresses the registry covers.\<close>

definition registered :: "'os world \<Rightarrow> usize \<Rightarrow> bool" where
  "registered w addr \<longleftrightarrow> (\<exists>r \<in> set (regions_of (regs w)). in_region addr r)"

lemma sigbus_handler_protected:
  assumes "reg_inv (regs w)" and "slots w t (thread_state_key w) = Ours p"
    and "tstates w p = Some ts"
  shows "sigbus_handler t addr w =
     (if in_protected ts \<and> registered w addr then
        mmap_guard_siglongjmp (jmp_buf ts)
          (w\<lparr>tstates := (tstates w)(p \<mapsto> ts\<lparr>fault_addr := addr, in_protected := False\<rparr>)\<rparr>)
      else (Killed SIGBUS, w\<lparr>sigbus_action := SIG_DFL\<rparr>))"
  using assms
  by (simp add: sigbus_handler_def key_def read_state_def update_state_def registered_def
      on_regs_contains restore_default_and_reraise_def and_then_def)

text \<open>
  C6: the handler jumps back to a checkpoint exactly when the faulting thread stands inside a
  protected call and the fault address lies in a registered region; the checkpoint is then the
  one that thread saved.
\<close>

theorem handler_recovers_iff:
  assumes "reg_inv (regs w)"
  shows "fst (sigbus_handler t addr w) = LongJmp fr \<longleftrightarrow>
     registered w addr \<and>
     (\<exists>p ts. slots w t (thread_state_key w) = Ours p \<and> tstates w p = Some ts
            \<and> in_protected ts \<and> jmp_buf ts = Some fr)"
proof (cases "slots w t (thread_state_key w)")
  case (Ours p)
  show ?thesis
  proof (cases "tstates w p")
    case None
    with Ours show ?thesis by (simp add: sigbus_handler_def key_def and_then_def read_state_def)
  next
    case (Some ts)
    with Ours show ?thesis
      by (auto simp: sigbus_handler_protected [OF assms Ours Some] mmap_guard_siglongjmp_def
          split: option.splits)
  qed
qed (simp_all add: sigbus_handler_def key_def restore_default_and_reraise_def)

text \<open>
  C38: before the crate has created its pthread key the handler looks under key 0. If another
  library keeps a value there for the faulting thread, the handler dereferences that foreign
  pointer.
\<close>

theorem handler_before_key_reads_foreign_slot:
  assumes "sys_sigaction L s = 0" and "foreign t 0"
  shows "fst (deliver_sigbus t addr (snd (install L (world_init foreign s)))) = Undefined"
  using assms
  by (simp add: install_def call_once_def world_init_def deliver_sigbus_def sigbus_handler_def key_def)

text \<open>
  The handler is installed once: \<open>install\<close> succeeds whenever \<open>sigaction\<close> does, later calls
  change nothing, and a failed installation makes every later call panic.
\<close>

theorem install_once:
  assumes "handler_inv w" and "handler_once w = Incomplete"
  shows "if sys_sigaction L (os w) = 0
     then \<exists>w'. install L w = (Ret (), w') \<and> sigbus_action w' = SIGBUS_HANDLER
            \<and> install L w' = (Ret (), w')
     else \<exists>w'. install L w = (Panicked ''failed to install SIGBUS handler'', w')
            \<and> sigbus_action w' = sigbus_action w
            \<and> install L w' = (Panicked ''Once instance has previously been poisoned'', w')"
proof (cases "sys_sigaction L (os w) = 0")
  case True
  with install_ok [OF assms(1) True] install_idempotent [of L w] show ?thesis by simp
next
  case False
  with assms(2) show ?thesis by (simp add: install_def call_once_def)
qed

end
