(* ===== verification/Signal_Protect.thy ===== *)
theory Signal_Protect
  imports Signal_Handler
begin

text \<open>
  \<^verbatim>\<open>src/signal/mod.rs\<close> and the C shim \<^verbatim>\<open>csrc/sigsetjmp_shim.c\<close>: running a closure
  under a \<open>sigsetjmp\<close> checkpoint. Closures are programs over memory: they load and store single
  bytes, may panic, and may themselves call \<open>with_sigbus_protection\<close> (as a closure does that
  reads from another mapping).
\<close>

section \<open>Closures as memory programs\<close>

datatype 'r access =
    Return 'r
  | Load usize "u8 \<Rightarrow> 'r access"
  | Store usize u8 "'r access"
  | Panic string
  | Protected "'r access" "usize + 'r \<Rightarrow> 'r access"

section \<open>The protected call\<close>

text \<open>
  The trampoline is an \<open>extern "C"\<close> function: a panic that reaches it cannot unwind further
  and aborts the process.
\<close>

definition trampoline :: "('os world, 'r) comp \<Rightarrow> ('os world, 'r) comp" where
  "trampoline f = (\<lambda>w. case f w of (Panicked msg, w') \<Rightarrow> (Aborted, w') | (out, w') \<Rightarrow> (out, w'))"

text \<open>
  The C function: \<open>sigsetjmp\<close> saves a fresh checkpoint into the thread's buffer and returns 0;
  a \<open>siglongjmp\<close> to this very checkpoint makes it return 1. A jump to another checkpoint
  passes through. The result is the \<open>int\<close> returned and the value the callback left in its
  context, if it finished.
\<close>

definition mmap_guard_protected_call ::
    "nat \<Rightarrow> ('os world, 'r) comp \<Rightarrow> ('os world, c_int \<times> 'r option) comp" where
  "mmap_guard_protected_call state callback =
     (\<lambda>w. let fr = next_frame w in
        and_then (update_state state (\<lambda>ts. ts\<lparr>jmp_buf := Some fr\<rparr>)) (\<lambda>_ w1.
          case callback w1 of
            (Ret x, w2) \<Rightarrow> (Ret (0, Some x), w2)
          | (LongJmp fr', w2) \<Rightarrow> (if fr' = fr then (Ret (1, None), w2) else (LongJmp fr', w2))
          | (out, w2) \<Rightarrow> on_ret out (\<lambda>_. halt Undefined) w2)
        (w\<lparr>next_frame := Suc fr\<rparr>))"

definition with_sigbus_protection ::
    "'os libc \<Rightarrow> tid \<Rightarrow> ('os world, 'r) comp \<Rightarrow> ('os world, usize + 'r) comp" where
  "with_sigbus_protection L t f =
     and_then (install L) (\<lambda>_.
     and_then (get_or_init L t) (\<lambda>state.
     and_then (update_state state (\<lambda>ts. ts\<lparr>in_protected := True\<rparr>)) (\<lambda>_.
     and_then (mmap_guard_protected_call state (trampoline f)) (\<lambda>(jump_result, result).
     and_then (update_state state (\<lambda>ts. ts\<lparr>in_protected := False\<rparr>)) (\<lambda>_.
     if jump_result \<noteq> 0 then and_then (read_state state) (\<lambda>ts. ret (Inl (fault_addr ts)))
     else (case result of
             None \<Rightarrow> halt (Panicked ''trampoline completed but result missing'')
           | Some r \<Rightarrow> ret (Inr r)))))))"

primrec run :: "'os libc \<Rightarrow> tid \<Rightarrow> 'r access \<Rightarrow> ('os world, 'r) comp" where
  "run L t (Return r) = ret r"
| "run L t (Load a k) =
     (\<lambda>w. case mem_load L a (os w) of
            (Value b, s) \<Rightarrow> run L t (k b) (w\<lparr>os := s\<rparr>)
          | (BusError, s) \<Rightarrow> deliver_sigbus t a (w\<lparr>os := s\<rparr>)
          | (SegFault, s) \<Rightarrow> (Killed SIGSEGV, w\<lparr>os := s\<rparr>))"
| "run L t (Store a b k) =
     (\<lambda>w. case mem_store L a b (os w) of
            (Value _, s) \<Rightarrow> run L t k (w\<lparr>os := s\<rparr>)
          | (BusError, s) \<Rightarrow> deliver_sigbus t a (w\<lparr>os := s\<rparr>)
          | (SegFault, s) \<Rightarrow> (Killed SIGSEGV, w\<lparr>os := s\<rparr>))"
| "run L t (Panic msg) = halt (Panicked msg)"
| "run L t (Protected p k) =
     and_then (with_sigbus_protection L t (run L t p)) (\<lambda>r. run L t (k r))"

definition protected :: "'os libc \<Rightarrow> tid \<Rightarrow> 'r access \<Rightarrow> ('os world, usize + 'r) comp" where
  "protected L t p = with_sigbus_protection L t (run L t p)"

section \<open>The promise: faults become values\<close>

text \<open>
  What a protected access should do, independent of signals: run the program on the kernel
  state, stop at the first access that raises SIGBUS and report its address.
\<close>

datatype 'r ending = Finished 'r | Faulted usize | Died

primrec exec :: "'os libc \<Rightarrow> 'r access \<Rightarrow> 'os \<Rightarrow> 'r ending \<times> 'os" where
  "exec L (Return r) = (\<lambda>s. (Finished r, s))"
| "exec L (Load a k) =
     (\<lambda>s. case mem_load L a s of
            (Value b, s') \<Rightarrow> exec L (k b) s'
          | (BusError, s') \<Rightarrow> (Faulted a, s')
          | (SegFault, s') \<Rightarrow> (Died, s'))"
| "exec L (Store a b k) =
     (\<lambda>s. case mem_store L a b s of
            (Value _, s') \<Rightarrow> exec L k s'
          | (BusError, s') \<Rightarrow> (Faulted a, s')
          | (SegFault, s') \<Rightarrow> (Died, s'))"
| "exec L (Panic msg) = (\<lambda>s. (Died, s))"
| "exec L (Protected p k) =
     (\<lambda>s. case exec L p s of
            (Finished r, s') \<Rightarrow> exec L (k (Inr r)) s'
          | (Faulted a, s') \<Rightarrow> exec L (k (Inl a)) s'
          | (Died, s') \<Rightarrow> (Died, s'))"

text \<open>Programs that neither panic nor nest protected calls, and the addresses they may access.\<close>

primrec flat :: "'r access \<Rightarrow> bool" where
  "flat (Return r) \<longleftrightarrow> True"
| "flat (Load a k) \<longleftrightarrow> (\<forall>b. flat (k b))"
| "flat (Store a b k) \<longleftrightarrow> flat k"
| "flat (Panic msg) \<longleftrightarrow> False"
| "flat (Protected p k) \<longleftrightarrow> False"

primrec within :: "(usize \<Rightarrow> bool) \<Rightarrow> 'r access \<Rightarrow> bool" where
  "within P (Return r) \<longleftrightarrow> True"
| "within P (Load a k) \<longleftrightarrow> P a \<and> (\<forall>b. within P (k b))"
| "within P (Store a b k) \<longleftrightarrow> P a \<and> within P k"
| "within P (Panic msg) \<longleftrightarrow> True"
| "within P (Protected p k) \<longleftrightarrow> within P p \<and> (\<forall>r. within P (k r))"

lemma within_mono: "within P p \<Longrightarrow> (\<And>a. P a \<Longrightarrow> Q a) \<Longrightarrow> within Q p"
  by (induction p) auto

section \<open>The protected call keeps the promise\<close>

definition signal_ok :: "'os libc \<Rightarrow> bool" where
  "signal_ok L \<longleftrightarrow> pthread_ok L \<and> (\<forall>s. sys_sigaction L s = 0)"

definition sig_inv :: "'os world \<Rightarrow> bool" where
  "sig_inv w \<longleftrightarrow> handler_inv w \<and> thread_inv w \<and> usable (regs w)"

text \<open>The thread stands inside a protected call whose checkpoint is \<open>fr\<close>.\<close>

definition armed :: "'os world \<Rightarrow> tid \<Rightarrow> nat \<Rightarrow> thread_state \<Rightarrow> nat \<Rightarrow> bool" where
  "armed w t p ts fr \<longleftrightarrow>
     sigbus_action w = SIGBUS_HANDLER \<and> slots w t (thread_state_key w) = Ours p
     \<and> tstates w p = Some ts \<and> in_protected ts \<and> jmp_buf ts = Some fr \<and> reg_inv (regs w)"

text \<open>
  Addresses a protected access may use: those of registered regions, and ordinary memory
  (stack, heap), where no access raises SIGBUS.
\<close>

definition steady :: "'os libc \<Rightarrow> usize \<Rightarrow> bool" where
  "steady L a \<longleftrightarrow>
     (\<forall>s. fst (mem_load L a s) \<noteq> BusError \<and> (\<forall>b. fst (mem_store L a b s) \<noteq> BusError))"

definition recoverable :: "'os libc \<Rightarrow> 'os world \<Rightarrow> usize \<Rightarrow> bool" where
  "recoverable L w a \<longleftrightarrow> registered w a \<or> steady L a"

lemma registered_cong: "regs w' = regs w \<Longrightarrow> registered w' = registered w"
  by (simp add: registered_def fun_eq_iff)

lemma armed_os [simp]: "armed (w\<lparr>os := s\<rparr>) t p ts fr = armed w t p ts fr"
  by (simp add: armed_def)

lemma registered_os [simp]: "registered (w\<lparr>os := s\<rparr>) = registered w"
  by (rule registered_cong) simp

lemma recoverable_cong: "regs w' = regs w \<Longrightarrow> recoverable L w' = recoverable L w"
  unfolding recoverable_def fun_eq_iff using registered_cong [of w' w] by simp

lemma recoverable_os [simp]: "recoverable L (w\<lparr>os := s\<rparr>) = recoverable L w"
  by (rule recoverable_cong) simp

lemma recoverable_registered: "registered w a \<Longrightarrow> recoverable L w a"
  by (simp add: recoverable_def)

lemma recoverable_load:
  "recoverable L w a \<Longrightarrow> mem_load L a s = (BusError, s') \<Longrightarrow> registered w a"
  unfolding recoverable_def steady_def by (metis fst_conv)

lemma recoverable_store:
  "recoverable L w a \<Longrightarrow> mem_store L a b s = (BusError, s') \<Longrightarrow> registered w a"
  unfolding recoverable_def steady_def by (metis fst_conv)

lemma deliver_armed:
  assumes "armed w t p ts fr" and "registered w a"
  shows "deliver_sigbus t a w =
     (LongJmp fr, w\<lparr>tstates := (tstates w)(p \<mapsto> ts\<lparr>fault_addr := a, in_protected := False\<rparr>)\<rparr>)"
  using assms
  by (simp add: armed_def deliver_sigbus_def sigbus_handler_protected mmap_guard_siglongjmp_def)

lemma run_flat:
  "flat q \<Longrightarrow> within (recoverable L w) q \<Longrightarrow> armed w t p ts fr \<Longrightarrow>
   run L t q w =
     (case exec L q (os w) of
        (Finished r, s) \<Rightarrow> (Ret r, w\<lparr>os := s\<rparr>)
      | (Faulted a, s) \<Rightarrow>
          (LongJmp fr, w\<lparr>os := s,
             tstates := (tstates w)(p \<mapsto> ts\<lparr>fault_addr := a, in_protected := False\<rparr>)\<rparr>)
      | (Died, s) \<Rightarrow> (Killed SIGSEGV, w\<lparr>os := s\<rparr>))"
proof (induction q arbitrary: w)
  case (Return r)
  then show ?case by simp
next
  case (Load a k)
  obtain res s where m: "mem_load L a (os w) = (res, s)" by fastforce
  show ?case
  proof (cases res)
    case (Value b)
    with Load m show ?thesis by (simp add: fun_upd_def split: prod.split ending.split)
  next
    case BusError
    with Load.prems m have "registered w a" by (auto intro: recoverable_load)
    with BusError Load.prems m show ?thesis by (simp add: deliver_armed)
  next
    case SegFault
    with m show ?thesis by simp
  qed
next
  case (Store a b k)
  obtain res s where m: "mem_store L a b (os w) = (res, s)" by fastforce
  show ?case
  proof (cases res)
    case (Value v)
    with Store m show ?thesis by (simp add: fun_upd_def split: prod.split ending.split)
  next
    case BusError
    with Store.prems m have "registered w a" by (auto intro: recoverable_store)
    with BusError Store.prems m show ?thesis by (simp add: deliver_armed)
  next
    case SegFault
    with m show ?thesis by simp
  qed
qed simp_all

lemma exec_faulted_registered:
  "flat q \<Longrightarrow> within (recoverable L w) q \<Longrightarrow> exec L q s = (Faulted a, s') \<Longrightarrow> registered w a"
proof (induction q arbitrary: s)
  case (Load x k)
  obtain res s1 where m: "mem_load L x s = (res, s1)" by fastforce
  show ?case
  proof (cases res)
    case (Value b)
    with Load.prems m show ?thesis by (auto intro: Load.IH [OF rangeI])
  qed (use Load.prems m in \<open>auto intro: recoverable_load\<close>)
next
  case (Store x b k)
  obtain res s1 where m: "mem_store L x b s = (res, s1)" by fastforce
  show ?case
  proof (cases res)
    case (Value v)
    with Store.prems m show ?thesis by (auto intro: Store.IH)
  qed (use Store.prems m in \<open>auto intro: recoverable_store\<close>)
qed simp_all

text \<open>How a protected call ends, read off the reference semantics.\<close>

fun ending_outcome :: "'r ending \<Rightarrow> (usize + 'r) outcome" where
  "ending_outcome (Finished r) = Ret (Inr r)"
| "ending_outcome (Faulted a) = Ret (Inl a)"
| "ending_outcome Died = Killed SIGSEGV"

text \<open>The thread is outside every protected call.\<close>

definition unprotected :: "'os world \<Rightarrow> tid \<Rightarrow> bool" where
  "unprotected w t \<longleftrightarrow>
     (\<exists>p ts. slots w t (thread_state_key w) = Ours p \<and> tstates w p = Some ts \<and> \<not> in_protected ts)"

text \<open>The part of \<open>with_sigbus_protection\<close> before the checkpoint, and the part from it on.\<close>

definition enter :: "'os libc \<Rightarrow> tid \<Rightarrow> ('os world, nat) comp" where
  "enter L t =
     and_then (install L) (\<lambda>_.
     and_then (get_or_init L t) (\<lambda>state.
     and_then (update_state state (\<lambda>ts. ts\<lparr>in_protected := True\<rparr>)) (\<lambda>_. ret state)))"

definition checkpoint :: "nat \<Rightarrow> ('os world, 'r) comp \<Rightarrow> ('os world, usize + 'r) comp" where
  "checkpoint state f =
     and_then (mmap_guard_protected_call state (trampoline f)) (\<lambda>(jump_result, result).
     and_then (update_state state (\<lambda>ts. ts\<lparr>in_protected := False\<rparr>)) (\<lambda>_.
     if jump_result \<noteq> 0 then and_then (read_state state) (\<lambda>ts. ret (Inl (fault_addr ts)))
     else (case result of
             None \<Rightarrow> halt (Panicked ''trampoline completed but result missing'')
           | Some r \<Rightarrow> ret (Inr r))))"

lemma with_sigbus_protection_split:
  "with_sigbus_protection L t f = and_then (enter L t) (\<lambda>state. checkpoint state f)"
  by (simp add: with_sigbus_protection_def enter_def checkpoint_def and_then_assoc)

lemma enter_ok:
  assumes env: "signal_ok L" and inv: "sig_inv w"
  shows "\<exists>p ts w1. enter L t w = (Ret p, w1) \<and> sig_inv w1 \<and> sigbus_action w1 = SIGBUS_HANDLER
     \<and> slots w1 t (thread_state_key w1) = Ours p \<and> tstates w1 p = Some ts \<and> in_protected ts
     \<and> os w1 = os w \<and> regs w1 = regs w"
proof -
  let ?w = "w\<lparr>handler_once := Complete, sigbus_action := SIGBUS_HANDLER\<rparr>"
  have hi: "handler_inv w" and ti: "thread_inv w" and u: "usable (regs w)"
    using inv by (simp_all add: sig_inv_def)
  have inst: "install L w = (Ret (), ?w)"
    using env hi by (simp add: install_ok signal_ok_def)
  have ti': "thread_inv ?w" by (rule thread_inv_cong [OF ti]) simp_all
  have pt: "pthread_ok L" using env by (simp add: signal_ok_def)
  obtain p w0 where g: "get_or_init L t ?w = (Ret p, w0)" "thread_inv w0"
    "slots w0 t (thread_state_key w0) = Ours p" "tstates w0 p \<noteq> None" "same_but_threads ?w w0"
    using get_or_init_ok [OF pt ti', of t] by blast
  then obtain ts where ts: "tstates w0 p = Some ts" by blast
  let ?w1 = "w0\<lparr>tstates := (tstates w0)(p \<mapsto> ts\<lparr>in_protected := True\<rparr>)\<rparr>"
  have ti1: "thread_inv ?w1" by (rule thread_inv_update [OF g(2) ts])
  have "enter L t w = (Ret p, ?w1)"
    using inst g(1) ts by (simp add: enter_def and_then_def update_state_def)
  moreover have "sig_inv ?w1"
    using ti1 u g(5) by (simp add: sig_inv_def handler_inv_def same_but_threads_def)
  ultimately show ?thesis
    using g by (intro exI [of _ p] exI [of _ "ts\<lparr>in_protected := True\<rparr>"] exI [of _ ?w1])
      (simp add: same_but_threads_def)
qed

lemma sig_inv_update:
  assumes "sig_inv w" and "tstates w p = Some ts"
  shows "sig_inv (w\<lparr>os := s, next_frame := n, tstates := (tstates w)(p \<mapsto> ts')\<rparr>)"
proof -
  have "thread_inv (w\<lparr>tstates := (tstates w)(p \<mapsto> ts')\<rparr>)"
    using assms by (simp add: sig_inv_def thread_inv_update)
  then have "thread_inv (w\<lparr>os := s, next_frame := n, tstates := (tstates w)(p \<mapsto> ts')\<rparr>)"
    by (rule thread_inv_cong) simp_all
  with assms(1) show ?thesis by (simp add: sig_inv_def handler_inv_def)
qed

lemma sig_inv_os [simp]: "sig_inv (w\<lparr>os := s\<rparr>) = sig_inv w"
proof -
  have "thread_inv (w\<lparr>os := s\<rparr>) \<longleftrightarrow> thread_inv w"
    by (rule iffI; erule thread_inv_cong) simp_all
  then show ?thesis by (simp add: sig_inv_def handler_inv_def)
qed

lemma sig_inv_regs: "sig_inv w \<Longrightarrow> usable r \<Longrightarrow> sig_inv (w\<lparr>regs := r\<rparr>)"
  using thread_inv_cong [of w "w\<lparr>regs := r\<rparr>"] by (simp add: sig_inv_def handler_inv_def)

lemma protected_exact:
  fixes L :: "'os libc" and q :: "'r access"
  assumes env: "signal_ok L" and inv: "sig_inv w" and fl: "flat q" and reg: "within (recoverable L w) q"
  shows "\<exists>w'. protected L t q w = (ending_outcome (fst (exec L q (os w))), w')
     \<and> os w' = snd (exec L q (os w)) \<and> regs w' = regs w
     \<and> (fst (exec L q (os w)) \<noteq> Died \<longrightarrow> sig_inv w' \<and> unprotected w' t)"
proof -
  obtain p ts w1 where enter: "enter L t w = (Ret p, w1)"
    and inv1: "sig_inv w1" and act: "sigbus_action w1 = SIGBUS_HANDLER"
    and sl: "slots w1 t (thread_state_key w1) = Ours p" and ts: "tstates w1 p = Some ts"
    and ip: "in_protected ts" and os1: "os w1 = os w" and regs1: "regs w1 = regs w"
    using enter_ok [OF env inv, of t] by blast
  let ?fr = "next_frame w1"
  let ?ts = "ts\<lparr>jmp_buf := Some ?fr\<rparr>"
  let ?w2 = "w1\<lparr>next_frame := Suc ?fr, tstates := (tstates w1)(p \<mapsto> ?ts)\<rparr>"
  have "armed ?w2 t p ?ts ?fr"
    using act sl ip inv1 by (simp add: armed_def sig_inv_def usable_def)
  moreover have "within (recoverable L ?w2) q"
    using reg recoverable_cong [of ?w2 w L] regs1 by simp
  ultimately have r: "run L t q ?w2 = (case exec L q (os w) of
        (Finished r, s) \<Rightarrow> (Ret r, ?w2\<lparr>os := s\<rparr>)
      | (Faulted a, s) \<Rightarrow> (LongJmp ?fr, ?w2\<lparr>os := s,
             tstates := (tstates ?w2)(p \<mapsto> ?ts\<lparr>fault_addr := a, in_protected := False\<rparr>)\<rparr>)
      | (Died, s) \<Rightarrow> (Killed SIGSEGV, ?w2\<lparr>os := s\<rparr>))"
    using run_flat [OF fl, of L ?w2 t p ?ts ?fr] os1 by simp
  define w' where "w' s a = w1\<lparr>os := s, next_frame := Suc ?fr,
      tstates := (tstates w1)(p \<mapsto> ?ts\<lparr>fault_addr := a, in_protected := False\<rparr>)\<rparr>" for s a
  have post: "sig_inv (w' s a)" "unprotected (w' s a) t" "os (w' s a) = s" "regs (w' s a) = regs w"
    for s a
    using sig_inv_update [OF inv1 ts] sl regs1 by (simp_all add: w'_def unprotected_def)
  obtain e s where ex: "exec L q (os w) = (e, s)" by fastforce
  note sim = protected_def with_sigbus_protection_split enter checkpoint_def mmap_guard_protected_call_def Let_def
    update_state_def read_state_def and_then_def trampoline_def ts r ex
  show ?thesis
  proof (cases e)
    case (Finished r)
    then have "protected L t q w = (Ret (Inr r), w' s (fault_addr ts))"
      by (simp add: sim w'_def)
    with ex Finished post show ?thesis by auto
  next
    case (Faulted a)
    then have "protected L t q w = (Ret (Inl a), w' s a)"
      by (simp add: sim w'_def)
    with ex Faulted post show ?thesis by auto
  next
    case Died
    then have "protected L t q w = (Killed SIGSEGV, ?w2\<lparr>os := s\<rparr>)"
      by (simp add: sim)
    with ex Died regs1 show ?thesis by auto
  qed
qed

section \<open>The interface of a protected access\<close>

text \<open>
  What the mapping layer relies on: a flat program whose accesses are allowed ends as the
  reference semantics says, with the fault address as a value, and the layer's invariant and the
  set of allowed addresses survive.
\<close>

locale protected_access =
  fixes protect :: "'r access \<Rightarrow> ('w, usize + 'r) comp"
    and sem :: "'r access \<Rightarrow> 'k \<Rightarrow> 'r ending \<times> 'k"
    and kernel :: "'w \<Rightarrow> 'k"
    and allowed :: "'w \<Rightarrow> usize \<Rightarrow> bool"
    and inv :: "'w \<Rightarrow> bool"
  assumes protect_spec: "inv w \<Longrightarrow> flat q \<Longrightarrow> within (allowed w) q \<Longrightarrow>
      \<exists>w'. protect q w = (ending_outcome (fst (sem q (kernel w))), w')
           \<and> kernel w' = snd (sem q (kernel w)) \<and> allowed w' = allowed w
           \<and> (fst (sem q (kernel w)) \<noteq> Died \<longrightarrow> inv w')"
begin

lemma protect_returns:
  assumes "inv w" and "flat q" and "within (allowed w) q" and "fst (sem q (kernel w)) \<noteq> Died"
  shows "\<exists>r w'. protect q w = (Ret r, w') \<and> inv w' \<and> allowed w' = allowed w"
proof -
  obtain w' where "protect q w = (ending_outcome (fst (sem q (kernel w))), w')"
    "allowed w' = allowed w" "inv w'"
    using protect_spec [OF assms(1-3)] assms(4) by blast
  then show ?thesis using assms(4) by (cases "fst (sem q (kernel w))") auto
qed

lemma protect_finished:
  assumes "inv w" and "flat q" and "within (allowed w) q" and "sem q (kernel w) = (Finished r, s)"
  shows "\<exists>w'. protect q w = (Ret (Inr r), w') \<and> kernel w' = s \<and> inv w' \<and> allowed w' = allowed w"
  using protect_spec [OF assms(1-3)] assms(4) by auto

lemma protect_faulted:
  assumes "inv w" and "flat q" and "within (allowed w) q" and "sem q (kernel w) = (Faulted a, s)"
  shows "\<exists>w'. protect q w = (Ret (Inl a), w') \<and> kernel w' = s \<and> inv w' \<and> allowed w' = allowed w"
  using protect_spec [OF assms(1-3)] assms(4) by auto

end

interpretation sig: protected_access "protected L t" "exec L" os "recoverable L"
    "\<lambda>w. signal_ok L \<and> sig_inv w" for L :: "'os libc" and t
proof
  fix w :: "'os world" and q :: "'r access"
  assume a: "signal_ok L \<and> sig_inv w" and q: "flat q" "within (recoverable L w) q"
  then obtain w' where "protected L t q w = (ending_outcome (fst (exec L q (os w))), w')"
      "os w' = snd (exec L q (os w))" "regs w' = regs w"
      "fst (exec L q (os w)) \<noteq> Died \<longrightarrow> sig_inv w'"
    using protected_exact [of L w q t] by blast
  with a recoverable_cong [of w' w L]
  show "\<exists>w'. protected L t q w = (ending_outcome (fst (exec L q (os w))), w')
      \<and> os w' = snd (exec L q (os w)) \<and> recoverable L w' = recoverable L w
      \<and> (fst (exec L q (os w)) \<noteq> Died \<longrightarrow> signal_ok L \<and> sig_inv w')"
    by blast
qed

section \<open>Outside the promise\<close>

lemma deliver_unprotected:
  assumes "unprotected w t" and "reg_inv (regs w)"
  shows "fst (deliver_sigbus t a w) = Killed SIGBUS"
proof -
  obtain p ts where "slots w t (thread_state_key w) = Ours p" "tstates w p = Some ts"
    "\<not> in_protected ts"
    using assms(1) by (auto simp: unprotected_def)
  with assms(2) show ?thesis
    by (cases "sigbus_action w") (simp_all add: deliver_sigbus_def sigbus_handler_protected)
qed

lemma checkpoint_killed:
  assumes "tstates w p = Some ts"
    and "fst (f (w\<lparr>next_frame := Suc (next_frame w),
             tstates := (tstates w)(p \<mapsto> ts\<lparr>jmp_buf := Some (next_frame w)\<rparr>)\<rparr>)) = Killed sig"
  shows "fst (checkpoint p f w) = Killed sig"
proof -
  obtain w' where "f (w\<lparr>next_frame := Suc (next_frame w),
             tstates := (tstates w)(p \<mapsto> ts\<lparr>jmp_buf := Some (next_frame w)\<rparr>)\<rparr>) = (Killed sig, w')"
    using assms(2) by (metis prod.collapse)
  then show ?thesis
    using assms(1)
    by (simp add: checkpoint_def mmap_guard_protected_call_def Let_def and_then_def
        update_state_def trampoline_def)
qed

text \<open>
  C30: a closure that makes a protected call of its own is no longer protected afterwards: the
  inner call clears \<open>in_protected\<close> on its way out, so a fault in the rest of the outer closure
  kills the process, even in a registered region.
\<close>

theorem nested_call_disarms:
  assumes env: "signal_ok L" and inv: "sig_inv w" and fl: "flat q" and reg: "within (recoverable L w) q"
    and inner: "exec L q (os w) = (e, s)" and alive: "e \<noteq> Died"
    and bus: "fst (mem_load L a s) = BusError"
  shows "fst (protected L t (Protected q (\<lambda>_. Load a k)) w) = Killed SIGBUS"
proof -
  obtain p ts w1 where enter: "enter L t w = (Ret p, w1)" and inv1: "sig_inv w1"
    and ts: "tstates w1 p = Some ts" and os1: "os w1 = os w" and regs1: "regs w1 = regs w"
    using enter_ok [OF env inv, of t] by blast
  let ?w2 = "w1\<lparr>next_frame := Suc (next_frame w1),
               tstates := (tstates w1)(p \<mapsto> ts\<lparr>jmp_buf := Some (next_frame w1)\<rparr>)\<rparr>"
  have inv2: "sig_inv ?w2"
    using sig_inv_update [OF inv1 ts, where s = "os w1"] by simp
  have "within (recoverable L ?w2) q"
    using reg recoverable_cong [of ?w2 w L] regs1 by simp
  then obtain w3 where w3: "protected L t q ?w2 = (ending_outcome e, w3)" "os w3 = s"
      "sig_inv w3" "unprotected w3 t"
    using protected_exact [OF env inv2 fl, of t] inner alive os1 by auto
  have "fst (run L t (Load a k) w3) = Killed SIGBUS"
  proof -
    obtain s' where "mem_load L a (os w3) = (BusError, s')"
      using bus w3(2) by (metis prod.collapse)
    moreover have "unprotected (w3\<lparr>os := s'\<rparr>) t" "reg_inv (regs (w3\<lparr>os := s'\<rparr>))"
      using w3(3,4) by (simp_all add: unprotected_def sig_inv_def usable_def)
    ultimately show ?thesis by (simp add: deliver_unprotected)
  qed
  moreover obtain r where "ending_outcome e = Ret r"
    using alive by (cases e) auto
  ultimately have "fst (run L t (Protected q (\<lambda>_. Load a k)) ?w2) = Killed SIGBUS"
    using w3(1) by (simp add: protected_def and_then_def)
  then have "fst (checkpoint p (run L t (Protected q (\<lambda>_. Load a k))) w1) = Killed SIGBUS"
    by (rule checkpoint_killed [OF ts])
  then show ?thesis
    by (simp add: protected_def with_sigbus_protection_split and_then_def enter)
qed

text \<open>
  C1: a protected call of a program without nested calls and panics, whose accesses lie in
  registered regions or ordinary memory and raise no segmentation fault, ends as the reference
  semantics of the program says: it returns the
  program's value, or the address of the first access that raised SIGBUS; the kernel state is
  that of the reference, the registry is unchanged, and the thread is left unprotected with the
  signal layer's invariant intact.
\<close>

theorem protected_faults_become_values:
  assumes "signal_ok L" and "sig_inv w" and "flat q" and "within (recoverable L w) q"
    and "fst (exec L q (os w)) \<noteq> Died"
  shows "\<exists>w'. protected L t q w = (ending_outcome (fst (exec L q (os w))), w')
     \<and> os w' = snd (exec L q (os w)) \<and> regs w' = regs w \<and> sig_inv w' \<and> unprotected w' t
     \<and> (\<forall>a. fst (exec L q (os w)) = Faulted a \<longrightarrow> registered w a)"
proof -
  obtain w' where w': "protected L t q w = (ending_outcome (fst (exec L q (os w))), w')"
      "os w' = snd (exec L q (os w))" "regs w' = regs w" "sig_inv w'" "unprotected w' t"
    using protected_exact [OF assms(1-4)] assms(5) by blast
  moreover have "registered w a" if "fst (exec L q (os w)) = Faulted a" for a
    using exec_faulted_registered [OF assms(3,4)] that by (metis prod.collapse)
  ultimately show ?thesis by blast
qed

text \<open>
  A thread whose pthread slot does not hold another library's pointer is killed by a fault outside
  every registered region, whatever its recovery state, and so is a program that runs into one.
\<close>

definition slot_ok :: "'os world \<Rightarrow> tid \<Rightarrow> bool" where
  "slot_ok w t \<longleftrightarrow>
     reg_inv (regs w)
     \<and> (case slots w t (thread_state_key w) of
          Null \<Rightarrow> True | Foreign \<Rightarrow> False | Ours p \<Rightarrow> tstates w p \<noteq> None)"

lemma slot_ok_os [simp]: "slot_ok (w\<lparr>os := s\<rparr>) t = slot_ok w t"
  by (simp add: slot_ok_def split: slot.split)

lemma deliver_foreign:
  assumes ok: "slot_ok w t" and foreign: "\<not> registered w a"
  shows "fst (deliver_sigbus t a w) = Killed SIGBUS"
proof (cases "sigbus_action w")
  case SIG_DFL
  then show ?thesis by (simp add: deliver_sigbus_def)
next
  case SIGBUS_HANDLER
  then show ?thesis
    using ok foreign
    by (auto simp: slot_ok_def deliver_sigbus_def sigbus_handler_protected split: slot.splits)
      (simp add: sigbus_handler_def key_def restore_default_and_reraise_def)
qed

lemma run_foreign:
  "flat q \<Longrightarrow> exec L q (os w) = (Faulted a, s) \<Longrightarrow> \<not> registered w a \<Longrightarrow> slot_ok w t \<Longrightarrow>
   fst (run L t q w) = Killed SIGBUS"
proof (induction q arbitrary: w)
  case (Load x k)
  then show ?case
    by (auto simp: deliver_foreign split: prod.splits mem_result.splits)
next
  case (Store x b k)
  then show ?case
    by (auto simp: deliver_foreign split: prod.splits mem_result.splits)
qed simp_all

text \<open>
  C29: a fault outside every registered region is never swallowed. Whatever loads and stores a
  program without nested calls makes before, if the first access that raises SIGBUS lies outside
  every registered region, the process ends with SIGBUS: inside a protected call, and outside of one
  as well, as long as no other library's pointer is taken for the thread's recovery state.
\<close>

theorem foreign_fault_kills:
  assumes env: "signal_ok L" and inv: "sig_inv w" and fl: "flat q"
    and bus: "exec L q (os w) = (Faulted a, s)" and foreign: "\<not> registered w a"
  shows "fst (protected L t q w) = Killed SIGBUS
     \<and> (slots w t (thread_state_key w) \<noteq> Foreign \<longrightarrow> fst (run L t q w) = Killed SIGBUS)"
proof
  obtain p ts w1 where enter: "enter L t w = (Ret p, w1)" and inv1: "sig_inv w1"
    and sl: "slots w1 t (thread_state_key w1) = Ours p" and ts: "tstates w1 p = Some ts"
    and os1: "os w1 = os w" and regs1: "regs w1 = regs w"
    using enter_ok [OF env inv, of t] by blast
  let ?w2 = "w1\<lparr>next_frame := Suc (next_frame w1),
               tstates := (tstates w1)(p \<mapsto> ts\<lparr>jmp_buf := Some (next_frame w1)\<rparr>)\<rparr>"
  have "\<not> registered ?w2 a" using foreign registered_cong [of ?w2 w] regs1 by simp
  moreover have "slot_ok ?w2 t" using sl inv1 by (simp add: slot_ok_def sig_inv_def usable_def)
  ultimately have "fst (run L t q ?w2) = Killed SIGBUS"
    using run_foreign [OF fl, of L ?w2 a s t] bus os1 by simp
  then have "fst (checkpoint p (run L t q) w1) = Killed SIGBUS"
    by (rule checkpoint_killed [OF ts])
  then show "fst (protected L t q w) = Killed SIGBUS"
    by (simp add: protected_def with_sigbus_protection_split and_then_def enter)
next
  have "thread_inv w" and "reg_inv (regs w)" using inv by (simp_all add: sig_inv_def usable_def)
  then show "slots w t (thread_state_key w) \<noteq> Foreign \<longrightarrow> fst (run L t q w) = Killed SIGBUS"
    using run_foreign [OF fl bus foreign, of t] thread_inv_ours [of w t "thread_state_key w"]
    by (auto simp: slot_ok_def split: slot.splits)
qed

text \<open>
  A panic in the closure does not unwind to the caller: it reaches the \<open>extern "C"\<close>
  trampoline and aborts the process.
\<close>

theorem closure_panic_aborts:
  assumes "signal_ok L" and "sig_inv w"
  shows "fst (protected L t (Panic msg) w) = Aborted"
proof -
  obtain p ts w1 where "enter L t w = (Ret p, w1)" and "tstates w1 p = Some ts"
    using enter_ok [OF assms, of t] by blast
  then show ?thesis
    by (simp add: protected_def with_sigbus_protection_split and_then_def checkpoint_def
        mmap_guard_protected_call_def Let_def update_state_def trampoline_def)
qed

end
