(* ===== verification/Sys_Mmap.thy ===== *)
theory Sys_Mmap
  imports Sys_Libc
begin

text \<open>
  \<^verbatim>\<open>src/sys/mmap.rs\<close> and \<^verbatim>\<open>src/sys/advice.rs\<close>: protection, visibility and
  advice values, the builder \<open>MmapOptions\<close> with its \<open>map\<close>, and the owning handle
  \<open>RawMmap\<close> with every operation on it. The state of these operations is the kernel state
  only.
\<close>

section \<open>Flags\<close>

datatype protection = Read | ReadWrite | NoAccess

datatype visibility = Private | Shared

datatype advice = Normal | Sequential | Random | WillNeed | DontNeed

fun protection_as_libc :: "'os libc \<Rightarrow> protection \<Rightarrow> c_int" where
  "protection_as_libc L Read = PROT_READ L"
| "protection_as_libc L ReadWrite = PROT_READ L OR PROT_WRITE L"
| "protection_as_libc L NoAccess = PROT_NONE L"

fun protection_is_writable :: "protection \<Rightarrow> bool" where
  "protection_is_writable ReadWrite = True"
| "protection_is_writable _ = False"

fun visibility_as_libc :: "'os libc \<Rightarrow> visibility \<Rightarrow> c_int" where
  "visibility_as_libc L Private = MAP_PRIVATE L"
| "visibility_as_libc L Shared = MAP_SHARED L"

fun advice_as_libc :: "'os libc \<Rightarrow> advice \<Rightarrow> c_int" where
  "advice_as_libc L Normal = MADV_NORMAL L"
| "advice_as_libc L Sequential = MADV_SEQUENTIAL L"
| "advice_as_libc L Random = MADV_RANDOM L"
| "advice_as_libc L WillNeed = MADV_WILLNEED L"
| "advice_as_libc L DontNeed = MADV_DONTNEED L"

section \<open>MmapOptions\<close>

record mmap_options =
  mo_len :: usize
  mo_fd :: "c_int option"
  mo_offset :: u64
  mo_protection :: protection
  mo_visibility :: visibility
  mo_populate :: bool

record raw_mmap =
  rm_ptr :: usize
  rm_len :: usize
  rm_writable :: bool

definition mmap_options_new :: "usize \<Rightarrow> mmap_options" where
  "mmap_options_new len =
     \<lparr>mo_len = len, mo_fd = None, mo_offset = 0, mo_protection = Read,
      mo_visibility = Private, mo_populate = False\<rparr>"

definition mmap_options_fd :: "c_int \<Rightarrow> mmap_options \<Rightarrow> mmap_options" where
  "mmap_options_fd fd opts = opts\<lparr>mo_fd := Some fd\<rparr>"

definition mmap_options_offset :: "u64 \<Rightarrow> mmap_options \<Rightarrow> mmap_options" where
  "mmap_options_offset off opts = opts\<lparr>mo_offset := off\<rparr>"

definition mmap_options_protection :: "protection \<Rightarrow> mmap_options \<Rightarrow> mmap_options" where
  "mmap_options_protection prot opts = opts\<lparr>mo_protection := prot\<rparr>"

definition mmap_options_visibility :: "visibility \<Rightarrow> mmap_options \<Rightarrow> mmap_options" where
  "mmap_options_visibility vis opts = opts\<lparr>mo_visibility := vis\<rparr>"

definition mmap_options_populate :: "mmap_options \<Rightarrow> mmap_options" where
  "mmap_options_populate opts = opts\<lparr>mo_populate := True\<rparr>"

lemmas mmap_options_defs =
  mmap_options_new_def mmap_options_fd_def mmap_options_offset_def
  mmap_options_protection_def mmap_options_visibility_def mmap_options_populate_def

text \<open>The flags argument and the file descriptor handed to \<open>mmap(2)\<close>.\<close>

definition map_flags :: "'os libc \<Rightarrow> mmap_options \<Rightarrow> c_int \<times> c_int" where
  "map_flags L opts =
     (let flags = visibility_as_libc L (mo_visibility opts);
          (flags, fd) = (case mo_fd opts of Some fd \<Rightarrow> (flags, fd)
                                          | None \<Rightarrow> (flags OR MAP_ANON L, - 1))
      in (if target_linux L \<and> mo_populate opts then flags OR MAP_POPULATE L else flags, fd))"

definition mmap_options_map :: "'os libc \<Rightarrow> mmap_options \<Rightarrow> ('os, io_error + raw_mmap) comp" where
  "mmap_options_map L opts =
     (if mo_len opts = 0 then ret (Inl (Custom InvalidInput ''length must be non-zero''))
      else and_then (page_size L) (\<lambda>page.
        if unat (mo_offset opts) mod unat page \<noteq> 0 then
          ret (Inl (Custom InvalidInput
            (''offset '' @ decimal (unat (mo_offset opts)) @ '' is not page-aligned (page size: ''
             @ decimal (unat page) @ '')'')))
        else
          (let (flags, fd) = map_flags L opts;
               prot = protection_as_libc L (mo_protection opts)
           in and_then (syscall (sys_mmap L 0 (mo_len opts) prot flags fd (mo_offset opts)))
                (\<lambda>raw_ptr.
                  if raw_ptr = MAP_FAILED L
                  then and_then (last_os_error L) (\<lambda>e. ret (Inl e))
                  else ret (Inr \<lparr>rm_ptr = raw_ptr, rm_len = mo_len opts,
                                 rm_writable = protection_is_writable (mo_protection opts)\<rparr>)))))"

section \<open>RawMmap\<close>

definition raw_mmap_map :: "'os libc \<Rightarrow> c_int \<Rightarrow> u64 \<Rightarrow> usize \<Rightarrow> ('os, io_error + raw_mmap) comp" where
  "raw_mmap_map L fd off len =
     mmap_options_map L (mmap_options_offset off (mmap_options_fd fd (mmap_options_new len)))"

definition raw_mmap_anonymous ::
    "'os libc \<Rightarrow> usize \<Rightarrow> protection \<Rightarrow> ('os, io_error + raw_mmap) comp" where
  "raw_mmap_anonymous L len prot =
     mmap_options_map L (mmap_options_protection prot (mmap_options_new len))"

definition as_mut_ptr :: "raw_mmap \<Rightarrow> usize option" where
  "as_mut_ptr m = (if rm_writable m then Some (rm_ptr m) else None)"

definition raw_is_empty :: "raw_mmap \<Rightarrow> bool" where
  "raw_is_empty m = (rm_len m = 0)"

definition contains_addr :: "'os libc \<Rightarrow> raw_mmap \<Rightarrow> usize \<Rightarrow> ('s, bool) comp" where
  "contains_addr L m addr =
     and_then (usize_add (overflow_checks L) (rm_ptr m) (rm_len m)) (\<lambda>end_addr.
       ret (rm_ptr m \<le> addr \<and> addr < end_addr))"

text \<open>
  The page-aligned offset and length that \<open>advise_range\<close> and \<open>flush\<close> compute from a byte
  range.
\<close>

definition aligned_range :: "'os libc \<Rightarrow> usize \<Rightarrow> usize \<Rightarrow> ('s, usize \<times> usize) comp" where
  "aligned_range L off len =
     and_then (page_size L) (\<lambda>page.
     let aligned_offset = align_down page off; chk = overflow_checks L in
     and_then (usize_sub chk off aligned_offset) (\<lambda>d.
     and_then (usize_add chk len d) (\<lambda>x.
     and_then (usize_add chk x page) (\<lambda>y.
     and_then (usize_sub chk y 1) (\<lambda>z.
     ret (aligned_offset, align_down page z))))))"

definition advise_range ::
    "'os libc \<Rightarrow> advice \<Rightarrow> raw_mmap \<Rightarrow> usize \<Rightarrow> usize \<Rightarrow> ('os, io_error + unit) comp" where
  "advise_range L adv m off len =
     (if is_none_or (checked_add off len) (\<lambda>e. rm_len m < e) then
        ret (Inl (Custom InvalidInput ''advise range exceeds mapping length''))
      else and_then (aligned_range L off len) (\<lambda>(aligned_offset, aligned_len).
        and_then (syscall (sys_madvise L (rm_ptr m + aligned_offset) aligned_len
                             (advice_as_libc L adv)))
          (\<lambda>code. os_result L code ())))"

definition raw_advise :: "'os libc \<Rightarrow> advice \<Rightarrow> raw_mmap \<Rightarrow> ('os, io_error + unit) comp" where
  "raw_advise L adv m = advise_range L adv m 0 (rm_len m)"

definition raw_flush ::
    "'os libc \<Rightarrow> bool \<Rightarrow> raw_mmap \<Rightarrow> usize \<Rightarrow> usize \<Rightarrow> ('os, io_error + unit) comp" where
  "raw_flush L async_flush m off len =
     (if is_none_or (checked_add off len) (\<lambda>e. rm_len m < e) then
        ret (Inl (Custom InvalidInput ''flush range exceeds mapping length''))
      else and_then (aligned_range L off len) (\<lambda>(aligned_offset, aligned_len).
        let flags = if async_flush then MS_ASYNC L else MS_SYNC L in
        and_then (syscall (sys_msync L (rm_ptr m + aligned_offset) aligned_len flags))
          (\<lambda>code. os_result L code ())))"

text \<open>The kernel writes residency bytes over the zeroed vector; it cannot change its length.\<close>

definition overwrite :: "'a list \<Rightarrow> 'a list \<Rightarrow> 'a list" where
  "overwrite buf bytes = take (length buf) (bytes @ drop (length bytes) buf)"

definition raw_mincore ::
    "'os libc \<Rightarrow> raw_mmap \<Rightarrow> usize \<Rightarrow> usize \<Rightarrow> ('os, io_error + bool list) comp" where
  "raw_mincore L m off len =
     (if is_none_or (checked_add off len) (\<lambda>e. rm_len m < e) then
        ret (Inl (Custom InvalidInput ''mincore range exceeds mapping length''))
      else and_then (page_size L) (\<lambda>page.
        let aligned_offset = align_down page off; chk = overflow_checks L in
        and_then (usize_add chk off len) (\<lambda>x.
        and_then (usize_add chk x page) (\<lambda>y.
        and_then (usize_sub chk y 1) (\<lambda>z.
        and_then (usize_sub chk (align_down page z) aligned_offset) (\<lambda>aligned_len.
        let num_pages = unat (aligned_len div page);
            vec = replicate num_pages (0 :: u8) in
        and_then (syscall (sys_mincore L (rm_ptr m + aligned_offset) aligned_len))
          (\<lambda>(code, bytes).
            os_result L code (map (\<lambda>b. b AND 1 \<noteq> 0) (overwrite vec bytes)))))))))"

definition raw_lock :: "'os libc \<Rightarrow> raw_mmap \<Rightarrow> ('os, io_error + unit) comp" where
  "raw_lock L m =
     and_then (syscall (sys_mlock L (rm_ptr m) (rm_len m))) (\<lambda>code. os_result L code ())"

definition raw_unlock :: "'os libc \<Rightarrow> raw_mmap \<Rightarrow> ('os, io_error + unit) comp" where
  "raw_unlock L m =
     and_then (syscall (sys_munlock L (rm_ptr m) (rm_len m))) (\<lambda>code. os_result L code ())"

definition raw_drop :: "'os libc \<Rightarrow> raw_mmap \<Rightarrow> ('os, unit) comp" where
  "raw_drop L m = modify (sys_munmap L (rm_ptr m) (rm_len m))"

section \<open>Pages touched by a byte range\<close>

definition page_floor :: "nat \<Rightarrow> nat \<Rightarrow> nat" where
  "page_floor p x = x div p * p"

definition page_ceil :: "nat \<Rightarrow> nat \<Rightarrow> nat" where
  "page_ceil p x = (x + p - 1) div p * p"

text \<open>The pages that hold a byte of the range, and the bytes of those pages.\<close>

definition touched_pages :: "nat \<Rightarrow> nat \<Rightarrow> nat \<Rightarrow> nat set" where
  "touched_pages p off len = (\<lambda>x. x div p) ` {off..<off + len}"

lemma page_floor_le: "page_floor p x \<le> x"
  by (simp add: page_floor_def)

lemma page_ceil_ge:
  assumes "0 < p" shows "x \<le> page_ceil p x"
proof -
  have "x + p - 1 < Suc ((x + p - 1) div p) * p"
    using assms by (metis dividend_less_div_times mult.commute mult_Suc)
  then show ?thesis using assms by (simp add: page_ceil_def)
qed

lemma page_ceil_less:
  assumes "0 < p" shows "page_ceil p x < x + p"
proof -
  have "page_ceil p x \<le> x + p - 1" by (simp add: page_ceil_def)
  with assms show ?thesis by linarith
qed

lemma rounded_range_touched:
  assumes p: "0 < p" and len: "0 < len"
  shows "page_floor p off \<le> x \<and> x < page_ceil p (off + len) \<longleftrightarrow> x div p \<in> touched_pages p off len"
proof -
  have e1: "page_floor p off \<le> x \<longleftrightarrow> off div p \<le> x div p"
    unfolding page_floor_def by (rule less_eq_div_iff_mult_less_eq [OF p, symmetric])
  have "off + len + p - 1 = (off + len - 1) + p" using len by simp
  then have "page_ceil p (off + len) = (((off + len - 1) + p) div p) * p"
    unfolding page_ceil_def by (rule arg_cong)
  also have "((off + len - 1) + p) div p = (off + len - 1) div p + 1"
    by (rule div_add_self2) (use p in simp)
  finally have "page_ceil p (off + len) = ((off + len - 1) div p + 1) * p" .
  then have e2: "x < page_ceil p (off + len) \<longleftrightarrow> x div p \<le> (off + len - 1) div p"
    using div_less_iff_less_mult [OF p, of x "(off + len - 1) div p + 1"] by linarith
  have "off div p \<le> x div p \<and> x div p \<le> (off + len - 1) div p \<longleftrightarrow> x div p \<in> touched_pages p off len"
  proof
    assume a: "off div p \<le> x div p \<and> x div p \<le> (off + len - 1) div p"
    have "\<exists>y. off \<le> y \<and> y < off + len \<and> y div p = x div p"
    proof (cases "x < off")
      case True
      then have "x div p \<le> off div p" by (simp add: div_le_mono)
      with a len show ?thesis by (intro exI [of _ off]) simp
    next
      case False
      show ?thesis
      proof (cases "x < off + len")
        case True
        with False show ?thesis by (intro exI [of _ x]) simp
      next
        case beyond: False
        then have "(off + len - 1) div p \<le> x div p" by (simp add: div_le_mono)
        with a len show ?thesis by (intro exI [of _ "off + len - 1"]) simp
      qed
    qed
    then show "x div p \<in> touched_pages p off len"
      unfolding touched_pages_def image_iff by (metis atLeastLessThan_iff)
  next
    assume "x div p \<in> touched_pages p off len"
    then obtain y where "off \<le> y" "y < off + len" "x div p = y div p"
      by (auto simp: touched_pages_def)
    then show "off div p \<le> x div p \<and> x div p \<le> (off + len - 1) div p"
      by (simp add: div_le_mono)
  qed
  with e1 e2 show ?thesis by simp
qed

lemma rounding_agrees:
  assumes "0 < p"
  shows "page_ceil p (l + a mod p) = page_ceil p (a + l) - page_floor p a"
  using page_rounding_nat [OF assms, of l a] by (simp add: page_ceil_def page_floor_def)

section \<open>Exact behaviour of the range operations\<close>

text \<open>A mapping the kernel can have returned: page-aligned, and inside the address space with its last page.\<close>

definition raw_ok :: "'os libc \<Rightarrow> raw_mmap \<Rightarrow> bool" where
  "raw_ok L m \<longleftrightarrow>
     rm_len m \<noteq> 0 \<and> unat (rm_ptr m) mod unat (SC_PAGESIZE L) = 0
     \<and> unat (rm_ptr m) + unat (rm_len m) + unat (SC_PAGESIZE L) < 2 ^ 64"

lemma align_down_page_floor: "unat (align_down (2 ^ k) x) = page_floor (2 ^ k) (unat x)"
  by (simp add: unat_align_down page_floor_def minus_mod_eq_div_mult)

lemma align_up_page_ceil:
  "k < 64 \<Longrightarrow> unat x + 2 ^ k \<le> 2 ^ 64 \<Longrightarrow>
   unat (align_down (2 ^ k) (x + 2 ^ k - 1)) = page_ceil (2 ^ k) (unat x)"
  by (simp add: unat_round_up page_ceil_def)

lemma round_up_comp:
  assumes k: "k < 64" and fits: "unat x + 2 ^ k < 2 ^ 64"
  shows "and_then (usize_add chk x (2 ^ k)) (\<lambda>y. and_then (usize_sub chk y 1) h)
         = (h (x + 2 ^ k - 1) :: ('s, 'a) comp)"
proof -
  have sum: "unat (x + 2 ^ k) = unat x + 2 ^ k"
    using fits k unat_add_no_wrap [of x "2 ^ k"] by (simp only: unat_pow2)
  have "(1 :: usize) \<le> x + 2 ^ k"
    using sum by (simp add: word_le_nat_alt Suc_le_eq)
  moreover have "unat x + unat (2 ^ k :: usize) < 2 ^ 64"
    using fits k by (simp only: unat_pow2)
  ultimately show ?thesis by simp
qed

lemma aligned_range_exact:
  assumes pg: "page_pow2 L k" and fits: "unat off + unat len + 2 ^ k < 2 ^ 64"
  obtains a n where "aligned_range L off len = (ret (a, n) :: ('s, usize \<times> usize) comp)"
    and "unat a = page_floor (2 ^ k) (unat off)"
    and "unat a + unat n = page_ceil (2 ^ k) (unat off + unat len)"
proof -
  let ?p = "2 ^ k :: nat"
  let ?a = "align_down (2 ^ k) off"
  let ?d = "off - ?a"
  have k: "k < 64" using pg by (simp add: page_pow2_def)
  have le: "?a \<le> off" by (simp add: word_le_nat_alt align_down_le)
  have d: "unat ?d = unat off mod ?p"
    using le by (simp add: unat_sub unat_align_down)
  then have dl: "unat ?d \<le> unat off" by simp
  have x: "unat (len + ?d) = unat len + unat off mod ?p"
    using dl fits d by (subst unat_add_no_wrap) linarith+
  have xs: "unat (len + ?d) + 2 ^ k < 2 ^ 64"
    using x dl d fits by linarith
  let ?n = "align_down (2 ^ k) (len + ?d + 2 ^ k - 1)"
  have n: "unat ?n = page_ceil ?p (unat off + unat len) - page_floor ?p (unat off)"
    using xs k by (simp add: align_up_page_ceil x rounding_agrees)
  have "page_floor ?p (unat off) \<le> page_ceil ?p (unat off + unat len)"
    using page_floor_le [of ?p "unat off"] page_ceil_ge [of ?p "unat off + unat len"] by simp
  with n have "unat ?a + unat ?n = page_ceil ?p (unat off + unat len)"
    by (simp add: align_down_page_floor)
  moreover have "aligned_range L off len = (ret (?a, ?n) :: ('s, usize \<times> usize) comp)"
  proof -
    have "unat len + unat ?d < 2 ^ 64" using fits dl by linarith
    then show ?thesis
      using pg le by (simp add: aligned_range_def Let_def round_up_comp [OF k xs] fun_eq_iff)
  qed
  ultimately show ?thesis
    using that align_down_page_floor by blast
qed

text \<open>A system call followed by the usual treatment of its return code.\<close>

definition checked_syscall ::
    "'os libc \<Rightarrow> ('os \<Rightarrow> c_int \<times> 'os) \<Rightarrow> ('os, io_error + unit) comp" where
  "checked_syscall L f = and_then (syscall f) (\<lambda>code. os_result L code ())"

lemma checked_syscall_apply:
  "checked_syscall L f s =
     (Ret (if fst (f s) = 0 then Inr () else Inl (OsError (errno L (snd (f s))))), snd (f s))"
  by (simp add: checked_syscall_def os_result_apply)

definition covers_pages :: "nat \<Rightarrow> usize \<Rightarrow> usize \<Rightarrow> usize \<Rightarrow> usize \<Rightarrow> bool" where
  "covers_pages p off len a n \<longleftrightarrow>
     unat a mod p = 0 \<and> unat n mod p = 0 \<and>
     (\<forall>x. unat a \<le> x \<and> x < unat a + unat n \<longleftrightarrow> x div p \<in> touched_pages p (unat off) (unat len))"

lemma covers_pagesI:
  assumes p: "0 < p" and len: "len \<noteq> 0"
    and a: "unat a = page_floor p (unat off)"
    and n: "unat a + unat n = page_ceil p (unat off + unat len)"
  shows "covers_pages p off len a n"
proof -
  have am: "unat a mod p = 0" by (simp add: a page_floor_def)
  have "(unat a + unat n) mod p = 0" by (simp add: n page_ceil_def)
  with am have "unat n mod p = 0" by (metis add_0 mod_add_left_eq)
  moreover have "0 < unat len" using len by (simp add: unat_gt_0)
  ultimately show ?thesis
    unfolding covers_pages_def n using am p rounded_range_touched [of p "unat len" "unat off"]
    by (simp add: a)
qed

lemma aligned_range_covers:
  assumes "page_pow2 L k" and "unat off + unat len + 2 ^ k < 2 ^ 64" and "len \<noteq> 0"
  obtains a n where "aligned_range L off len = (ret (a, n) :: ('s, usize \<times> usize) comp)"
    and "covers_pages (2 ^ k) off len a n"
proof -
  obtain a n where r: "aligned_range L off len = (ret (a, n) :: ('s, usize \<times> usize) comp)"
    and a: "unat a = page_floor (2 ^ k) (unat off)"
    and n: "unat a + unat n = page_ceil (2 ^ k) (unat off + unat len)"
    using aligned_range_exact [OF assms(1,2)] by blast
  have "covers_pages (2 ^ k) off len a n"
    by (rule covers_pagesI) (use assms(3) a n in simp_all)
  with r show ?thesis by (rule that)
qed

lemma raw_ok_in_range:
  "page_pow2 L k \<Longrightarrow> raw_ok L m \<Longrightarrow> unat off + unat len \<le> unat (rm_len m) \<Longrightarrow>
   unat off + unat len + 2 ^ k < 2 ^ 64"
  by (simp add: raw_ok_def page_pow2_def unat_pow2)

text \<open>
  C25: \<open>advise_range\<close> and \<open>flush\<close> on a non-empty range inside the mapping hand \<open>madvise\<close> and
  \<open>msync\<close> exactly the whole pages that hold a byte of the range, with the chosen advice or mode,
  and report the call's result.
\<close>

theorem advise_flush_exact:
  fixes L :: "'os libc"
  assumes "page_pow2 L k" and "raw_ok L m" and "unat off + unat len \<le> unat (rm_len m)" and "len \<noteq> 0"
  shows "\<exists>a n. covers_pages (2 ^ k) off len a n
     \<and> advise_range L adv m off len
       = checked_syscall L (sys_madvise L (rm_ptr m + a) n (advice_as_libc L adv))
     \<and> raw_flush L async_flush m off len
       = checked_syscall L (sys_msync L (rm_ptr m + a) n (if async_flush then MS_ASYNC L else MS_SYNC L))"
proof -
  obtain a n where r: "aligned_range L off len = (ret (a, n) :: ('os, usize \<times> usize) comp)"
    and c: "covers_pages (2 ^ k) off len a n"
    using aligned_range_covers [OF assms(1) raw_ok_in_range [OF assms(1-3)] assms(4)] by blast
  have "advise_range L adv m off len
      = checked_syscall L (sys_madvise L (rm_ptr m + a) n (advice_as_libc L adv))"
    using assms(3)
    by (simp add: advise_range_def range_rejected_iff checked_syscall_def r fun_eq_iff)
  moreover have "raw_flush L async_flush m off len
     = checked_syscall L (sys_msync L (rm_ptr m + a) n (if async_flush then MS_ASYNC L else MS_SYNC L))"
    using assms(3)
    by (simp add: raw_flush_def range_rejected_iff checked_syscall_def r fun_eq_iff)
  ultimately show ?thesis using c by blast
qed

lemma covers_pages_card:
  assumes c: "covers_pages p off len a n" and p: "0 < p"
  shows "card (touched_pages p (unat off) (unat len)) = unat n div p"
proof -
  obtain A N where a: "unat a = p * A" and n: "unat n = p * N"
    using c unfolding covers_pages_def by (metis mod_0_imp_dvd dvdE)
  have "q \<in> touched_pages p (unat off) (unat len) \<longleftrightarrow> q \<in> {A..<A + N}" for q
  proof -
    have "q \<in> touched_pages p (unat off) (unat len)
        \<longleftrightarrow> unat a \<le> p * q \<and> p * q < unat a + unat n"
      using c p unfolding covers_pages_def by (metis nonzero_mult_div_cancel_left neq0_conv)
    also have "\<dots> \<longleftrightarrow> p * A \<le> p * q \<and> p * q < p * (A + N)"
      by (simp add: a n distrib_left)
    also have "\<dots> \<longleftrightarrow> A \<le> q \<and> q < A + N"
      using p by (simp only: nat_mult_le_cancel1 nat_mult_less_cancel1)
    finally show ?thesis by simp
  qed
  then have "touched_pages p (unat off) (unat len) = {A..<A + N}" by blast
  then show ?thesis using p by (simp add: n)
qed

text \<open>
  C26: \<open>mincore\<close> on a non-empty range inside the mapping queries exactly the pages that hold a
  byte of the range and returns one boolean for each of them, the low bit of the kernel's byte.
\<close>

theorem mincore_exact:
  fixes L :: "'os libc"
  assumes pg: "page_pow2 L k" and ok: "raw_ok L m"
    and inr: "unat off + unat len \<le> unat (rm_len m)" and len: "len \<noteq> 0"
  shows "\<exists>a n. covers_pages (2 ^ k) off len a n \<and>
     raw_mincore L m off len
     = and_then (syscall (sys_mincore L (rm_ptr m + a) n)) (\<lambda>(code, bytes).
         os_result L code
           (map (\<lambda>b. b AND 1 \<noteq> 0)
             (overwrite (replicate (card (touched_pages (2 ^ k) (unat off) (unat len))) 0) bytes)))"
proof -
  let ?a = "align_down (2 ^ k) off"
  let ?e = "align_down (2 ^ k) (off + len + 2 ^ k - 1)"
  note fits = raw_ok_in_range [OF pg ok inr]
  have k: "k < 64" using pg by (simp add: page_pow2_def)
  have fit2: "unat off + unat len < 2 ^ 64" using fits by linarith
  have sum: "unat (off + len) = unat off + unat len"
    using fit2 by (rule unat_add_no_wrap)
  have sk: "unat (off + len) + 2 ^ k < 2 ^ 64" using fits sum by simp
  have a: "unat ?a = page_floor (2 ^ k) (unat off)" by (rule align_down_page_floor)
  have e: "unat ?e = page_ceil (2 ^ k) (unat off + unat len)"
    using sk k sum by (simp add: align_up_page_ceil)
  have ae: "?a \<le> ?e"
    using page_floor_le [of "2 ^ k" "unat off"] page_ceil_ge [of "2 ^ k" "unat off + unat len"]
    by (simp add: word_le_nat_alt a e)
  then have n: "unat ?a + unat (?e - ?a) = page_ceil (2 ^ k) (unat off + unat len)"
    using e by (simp add: unat_sub word_le_nat_alt)
  have c: "covers_pages (2 ^ k) off len ?a (?e - ?a)"
    by (rule covers_pagesI) (use len a n in simp_all)
  have "unat ((?e - ?a) div 2 ^ k) = card (touched_pages (2 ^ k) (unat off) (unat len))"
    using covers_pages_card [OF c] k by (simp add: unat_div unat_pow2)
  then have "raw_mincore L m off len
     = and_then (syscall (sys_mincore L (rm_ptr m + ?a) (?e - ?a))) (\<lambda>(code, bytes).
         os_result L code
           (map (\<lambda>b. b AND 1 \<noteq> 0)
             (overwrite (replicate (card (touched_pages (2 ^ k) (unat off) (unat len))) 0) bytes)))"
    using inr pg ae fit2
    by (simp add: raw_mincore_def range_rejected_iff Let_def round_up_comp [OF k sk] fun_eq_iff)
  with c show ?thesis by blast
qed


section \<open>The contract of the range operations\<close>

text \<open>
  Every range operation of the crate checks its byte range against the length of the mapping
  before it does anything else. The contract: a range that does not fit, over the natural
  numbers, is rejected with the operation's own error and without any effect.
\<close>

locale range_guarded =
  fixes op :: "raw_mmap \<Rightarrow> usize \<Rightarrow> usize \<Rightarrow> ('s, 'e + 'a) comp"
    and err :: "raw_mmap \<Rightarrow> usize \<Rightarrow> usize \<Rightarrow> 'e"
  assumes rejects:
    "unat (rm_len m) < unat off + unat len \<Longrightarrow> op m off len s = (Ret (Inl (err m off len)), s)"
begin

lemma overflow_rejected:
  "2 ^ 64 \<le> unat off + unat len \<Longrightarrow> op m off len s = (Ret (Inl (err m off len)), s)"
  by (rule rejects) (use unat_lt_64 [of "rm_len m"] in auto)

lemma offset_beyond_rejected:
  "rm_len m < off \<Longrightarrow> op m off len s = (Ret (Inl (err m off len)), s)"
  by (rule rejects) (simp add: word_less_nat_alt)

lemma effect_in_range:
  "op m off len s \<noteq> (Ret (Inl (err m off len)), s) \<Longrightarrow> unat off + unat len \<le> unat (rm_len m)"
  by (rule ccontr) (use rejects [of m off len s] in simp)

end

interpretation advise: range_guarded "advise_range L adv"
    "\<lambda>m off len. Custom InvalidInput ''advise range exceeds mapping length''" for L adv
  by unfold_locales (simp add: advise_range_def range_rejected_iff)

interpretation flush: range_guarded "raw_flush L async_flush"
    "\<lambda>m off len. Custom InvalidInput ''flush range exceeds mapping length''" for L async_flush
  by unfold_locales (simp add: raw_flush_def range_rejected_iff)

interpretation mincore: range_guarded "raw_mincore L"
    "\<lambda>m off len. Custom InvalidInput ''mincore range exceeds mapping length''" for L
  by unfold_locales (simp add: raw_mincore_def range_rejected_iff)

section \<open>Creating mappings\<close>

lemma map_raw_ok:
  assumes "mmap_law L" and "0 < sint (SC_PAGESIZE L)"
    and "mmap_options_map L opts s = (Ret (Inr m), s')"
  shows "raw_ok L m \<and> rm_len m = mo_len opts
         \<and> rm_writable m = protection_is_writable (mo_protection opts)"
proof -
  from assms(2,3) have len: "mo_len opts \<noteq> 0"
    and align: "unat (mo_offset opts) mod unat (SC_PAGESIZE L) = 0"
    by (auto simp: mmap_options_map_def page_size_def Let_def split: if_splits)
  obtain flags fd where fl: "map_flags L opts = (flags, fd)" by fastforce
  let ?call = "sys_mmap L 0 (mo_len opts) (protection_as_libc L (mo_protection opts)) flags fd
                 (mo_offset opts) s"
  from assms(2,3) len align fl have nf: "fst ?call \<noteq> MAP_FAILED L"
    and m: "m = \<lparr>rm_ptr = fst ?call, rm_len = mo_len opts,
               rm_writable = protection_is_writable (mo_protection opts)\<rparr>"
    by (auto simp: mmap_options_map_def page_size_def Let_def last_os_error_def split: if_splits)
  from assms(1) nf have "unat (fst ?call) mod unat (SC_PAGESIZE L) = 0
      \<and> unat (fst ?call) + unat (mo_len opts) + unat (SC_PAGESIZE L) < 2 ^ 64"
    unfolding mmap_law_def Let_def by blast
  with m len show ?thesis by (simp add: raw_ok_def)
qed

lemma contains_addr_iff:
  assumes "raw_ok L m"
  shows "contains_addr L m addr s
     = (Ret (unat (rm_ptr m) \<le> unat addr \<and> unat addr < unat (rm_ptr m) + unat (rm_len m)), s)"
proof -
  have "unat (rm_ptr m) + unat (rm_len m) < 2 ^ 64" using assms by (simp add: raw_ok_def)
  then show ?thesis
    by (simp add: contains_addr_def word_le_nat_alt word_less_nat_alt unat_add_no_wrap)
qed

text \<open>
  \<open>MmapOptions::map\<close> rejects a zero length and a misaligned offset without calling the
  kernel; otherwise it makes exactly one \<open>mmap\<close> call with the requested length and offset, and
  it yields a mapping just when that call does not fail.
\<close>

theorem map_validates:
  assumes page: "0 < sint (SC_PAGESIZE L)"
  defines "good opts \<equiv> mo_len opts \<noteq> 0 \<and> unat (mo_offset opts) mod unat (SC_PAGESIZE L) = 0"
  shows "(\<not> good opts \<longrightarrow> (\<exists>msg. mmap_options_map L opts s = (Ret (Inl (Custom InvalidInput msg)), s)))
     \<and> (good opts \<longrightarrow> (\<exists>flags fd. map_flags L opts = (flags, fd) \<and>
          (let call = sys_mmap L 0 (mo_len opts) (protection_as_libc L (mo_protection opts)) flags fd
                        (mo_offset opts) s
           in mmap_options_map L opts s =
                (Ret (if fst call = MAP_FAILED L then Inl (OsError (errno L (snd call)))
                      else Inr \<lparr>rm_ptr = fst call, rm_len = mo_len opts,
                                rm_writable = protection_is_writable (mo_protection opts)\<rparr>), snd call))))"
proof -
  obtain flags fd where "map_flags L opts = (flags, fd)" by fastforce
  then show ?thesis
    using page
    by (auto simp: good_def mmap_options_map_def page_size_def Let_def last_os_error_def)
qed

end
