(* ===== verification/Mmap_Guard.thy ===== *)
theory Mmap_Guard
  imports Signal_Protect Sys_Mmap
begin

text \<open>
  \<^verbatim>\<open>src/mmap/guard.rs\<close>: the read guard, which borrows a raw mapping, checks a byte range
  against its length and runs the caller's closure on that slice under SIGBUS protection. A
  closure over \<open>&[u8]\<close> is a function from the slice's pointer and length to a memory program.
\<close>

section \<open>The read guard\<close>

record read_guard =
  rg_raw :: raw_mmap

type_synonym 'r slice_fn = "usize \<Rightarrow> usize \<Rightarrow> 'r access"

definition read_guard_new :: "'os libc \<Rightarrow> raw_mmap \<Rightarrow> ('os world, read_guard) comp" where
  "read_guard_new L raw = and_then (install L) (\<lambda>_. ret \<lparr>rg_raw = raw\<rparr>)"

definition read_guard_read ::
    "'os libc \<Rightarrow> tid \<Rightarrow> read_guard \<Rightarrow> usize \<Rightarrow> usize \<Rightarrow> 'r slice_fn
     \<Rightarrow> ('os world, access_error + 'r) comp" where
  "read_guard_read L t g off len f =
     (if is_none_or (checked_add off len) (\<lambda>e. rm_len (rg_raw g) < e) then
        ret (Inl (OutOfBounds off len (rm_len (rg_raw g))))
      else
        (let slice_ptr = rm_ptr (rg_raw g) + off in
         and_then (protected L t (f slice_ptr len)) (\<lambda>result.
         case result of
           Inr value \<Rightarrow> ret (Inr value)
         | Inl fault_address \<Rightarrow> ret (Inl (Sigbus fault_address)))))"

section \<open>Slices and mapped regions\<close>

definition in_slice :: "usize \<Rightarrow> usize \<Rightarrow> usize \<Rightarrow> bool" where
  "in_slice p n a \<longleftrightarrow> unat p \<le> unat a \<and> unat a < unat p + unat n"

text \<open>
  What Rust's type system gives for a closure over a slice: it accesses only bytes of the slice.
  The crate's documentation asks for the rest: no panic and no nested protected access.
\<close>

definition slice_safe :: "'r slice_fn \<Rightarrow> usize \<Rightarrow> usize \<Rightarrow> bool" where
  "slice_safe f p n \<longleftrightarrow> flat (f p n) \<and> within (in_slice p n) (f p n)"

text \<open>The registry holds the region of the mapping.\<close>

definition region_of :: "raw_mmap \<Rightarrow> region" where
  "region_of m = \<lparr>r_start = rm_ptr m, r_end = rm_ptr m + rm_len m\<rparr>"

definition mapped :: "'os libc \<Rightarrow> 'os world \<Rightarrow> raw_mmap \<Rightarrow> bool" where
  "mapped L w m \<longleftrightarrow> raw_ok L m \<and> region_of m \<in> set (regions_of (regs w))"

lemma mapped_cong: "mapped L w m \<Longrightarrow> regs w' = regs w \<Longrightarrow> mapped L w' m"
  by (simp add: mapped_def)

lemma slice_in_mapping:
  assumes "raw_ok L m" and "unat off + unat len \<le> unat (rm_len m)"
  shows "unat (rm_ptr m + off) = unat (rm_ptr m) + unat off"
    and "unat (rm_ptr m + off) + unat len < 2 ^ 64"
proof -
  have b: "unat (rm_ptr m) + unat (rm_len m) < 2 ^ 64" using assms(1) by (simp add: raw_ok_def)
  with assms(2) show s: "unat (rm_ptr m + off) = unat (rm_ptr m) + unat off"
    by (intro unat_add_no_wrap) linarith
  from b assms(2) show "unat (rm_ptr m + off) + unat len < 2 ^ 64"
    unfolding s by linarith
qed

lemma slice_registered:
  assumes m: "mapped L w m" and fits: "unat off + unat len \<le> unat (rm_len m)"
    and a: "in_slice (rm_ptr m + off) len a"
  shows "registered w a"
proof -
  have ok: "raw_ok L m" using m by (simp add: mapped_def)
  have e: "unat (rm_ptr m + rm_len m) = unat (rm_ptr m) + unat (rm_len m)"
    using ok by (intro unat_add_no_wrap) (simp add: raw_ok_def)
  have "in_region a (region_of m)"
    using a fits slice_in_mapping(1) [OF ok fits]
    by (simp add: in_region_def region_of_def in_slice_def word_le_nat_alt word_less_nat_alt e)
  with m show ?thesis by (auto simp: registered_def mapped_def)
qed

lemma exec_faulted_within:
  "exec L q s = (Faulted a, s') \<Longrightarrow> flat q \<Longrightarrow> within P q \<Longrightarrow> P a"
proof (induction q arbitrary: s)
  case (Load x k)
  then show ?case
    by (cases "mem_load L x s"; cases "fst (mem_load L x s)") (auto intro: Load.IH [OF rangeI])
next
  case (Store x b k)
  then show ?case by (cases "mem_store L x b s"; cases "fst (mem_store L x b s)") auto
qed simp_all

section \<open>The guarded read keeps the promise\<close>

fun guard_outcome :: "'r ending \<Rightarrow> (access_error + 'r) outcome" where
  "guard_outcome (Finished r) = Ret (Inr r)"
| "guard_outcome (Faulted a) = Ret (Inl (Sigbus a))"
| "guard_outcome Died = Killed SIGSEGV"

lemma read_guard_read_exact:
  assumes env: "signal_ok L" and inv: "sig_inv w" and m: "mapped L w (rg_raw g)"
    and fits: "unat off + unat len \<le> unat (rm_len (rg_raw g))" and f: "slice_safe f (rm_ptr (rg_raw g) + off) len"
  defines "q \<equiv> f (rm_ptr (rg_raw g) + off) len"
  shows "\<exists>w'. read_guard_read L t g off len f w = (guard_outcome (fst (exec L q (os w))), w')
     \<and> os w' = snd (exec L q (os w)) \<and> regs w' = regs w
     \<and> (fst (exec L q (os w)) \<noteq> Died \<longrightarrow> sig_inv w' \<and> unprotected w' t)"
proof -
  have q: "flat q" "within (in_slice (rm_ptr (rg_raw g) + off) len) q"
    using f by (simp_all add: slice_safe_def q_def)
  have "within (recoverable L w) q"
    using q(2) by (rule within_mono) (rule recoverable_registered [OF slice_registered [OF m fits]])
  with q(1) obtain w' where w': "protected L t q w = (ending_outcome (fst (exec L q (os w))), w')"
    and post: "os w' = snd (exec L q (os w))" "regs w' = regs w"
      "fst (exec L q (os w)) \<noteq> Died \<longrightarrow> sig_inv w' \<and> unprotected w' t"
    using protected_exact [OF env inv] by blast
  have "read_guard_read L t g off len f w = (guard_outcome (fst (exec L q (os w))), w')"
    using fits w' by (cases "fst (exec L q (os w))")
      (simp_all add: read_guard_read_def range_rejected_iff Let_def and_then_def flip: q_def)
  with post show ?thesis by blast
qed

lemma guard_fault_in_slice:
  assumes "slice_safe f p n" and "exec L (f p n) s = (Faulted a, s')"
  shows "in_slice p n a"
  using exec_faulted_within [OF assms(2)] assms(1) unfolding slice_safe_def by blast

interpretation guard: range_guarded "\<lambda>m off len. read_guard_read L t \<lparr>rg_raw = m\<rparr> off len f"
    "\<lambda>m off len. OutOfBounds off len (rm_len m)" for L t f
  by unfold_locales (simp add: read_guard_read_def range_rejected_iff)

text \<open>
  C28: a guarded read of a range inside a registered mapping returns the closure's value, or the
  fault address, which lies inside the requested slice; a range that does not fit is rejected
  without running the closure.
\<close>

theorem guard_read_recovers:
  assumes env: "signal_ok L" and inv: "sig_inv w" and m: "mapped L w (rg_raw g)"
    and f: "slice_safe f (rm_ptr (rg_raw g) + off) len"
    and alive: "fst (exec L (f (rm_ptr (rg_raw g) + off) len) (os w)) \<noteq> Died"
  shows "if unat (rm_len (rg_raw g)) < unat off + unat len
     then read_guard_read L t g off len f w = (Ret (Inl (OutOfBounds off len (rm_len (rg_raw g)))), w)
     else \<exists>w'. sig_inv w' \<and> regs w' = regs w \<and>
       (case exec L (f (rm_ptr (rg_raw g) + off) len) (os w) of
          (Finished r, s) \<Rightarrow> read_guard_read L t g off len f w = (Ret (Inr r), w') \<and> os w' = s
        | (Faulted a, s) \<Rightarrow> read_guard_read L t g off len f w = (Ret (Inl (Sigbus a)), w') \<and> os w' = s
            \<and> in_slice (rm_ptr (rg_raw g) + off) len a
        | (Died, s) \<Rightarrow> False)"
proof (cases "unat (rm_len (rg_raw g)) < unat off + unat len")
  case True
  then show ?thesis by (simp add: read_guard_read_def range_rejected_iff)
next
  case False
  let ?q = "f (rm_ptr (rg_raw g) + off) len"
  obtain w' where w': "read_guard_read L t g off len f w = (guard_outcome (fst (exec L ?q (os w))), w')"
      "os w' = snd (exec L ?q (os w))" "regs w' = regs w" "sig_inv w'"
    using read_guard_read_exact [OF env inv m _ f, of t] False alive by (auto simp: not_less)
  obtain e s where ex: "exec L ?q (os w) = (e, s)" by fastforce
  show ?thesis
  proof (cases e)
    case (Faulted a)
    with ex guard_fault_in_slice [OF f, of L "os w" a s] w' False show ?thesis by auto
  qed (use ex alive w' False in auto)
qed

end
