(* ===== verification/Mmap_Safe.thy ===== *)
theory Mmap_Safe
  imports Mmap_Guard
begin

text \<open>
  \<^verbatim>\<open>src/mmap/mod.rs\<close>: the safe mapping, its builder, its accessors and its poisoning
  policy. A method on \<open>&self\<close> is a computation on the pair of the mapping object (whose atomic
  fields it may change) and the process state.
\<close>

section \<open>Data\<close>

datatype mmap_event =
    SigbusEvent usize
  | PoisonedEvent u32
  | PrefetchTimeoutEvent usize usize

text \<open>The event callback is user code: an arbitrary computation on the process state.\<close>

type_synonym 'os event_callback = "mmap_event \<Rightarrow> ('os world, unit) comp"

record 'os safe_mmap =
  sm_raw :: raw_mmap
  sm_path :: string
  sm_file :: c_int
  sigbus_count :: u32
  poisoned :: bool
  max_sigbus :: u32
  on_event :: "'os event_callback option"

record 'os safe_mmap_options =
  so_writable :: bool
  so_shared :: bool
  so_offset :: u64
  so_len :: "usize option"
  so_max_sigbus :: u32
  so_populate :: bool
  so_on_event :: "'os event_callback option"
  so_flock :: bool

type_synonym 'os mm = "'os safe_mmap \<times> 'os world"

definition DEFAULT_MAX_SIGBUS :: u32 where
  "DEFAULT_MAX_SIGBUS = 3"

section \<open>SafeMmapOptions\<close>

definition safe_mmap_options_new :: "'os safe_mmap_options" where
  "safe_mmap_options_new =
     \<lparr>so_writable = False, so_shared = False, so_offset = 0, so_len = None,
      so_max_sigbus = DEFAULT_MAX_SIGBUS, so_populate = False, so_on_event = None,
      so_flock = False\<rparr>"

definition so_set_writable :: "bool \<Rightarrow> 'os safe_mmap_options \<Rightarrow> 'os safe_mmap_options" where
  "so_set_writable b so = so\<lparr>so_writable := b\<rparr>"

definition so_set_shared :: "bool \<Rightarrow> 'os safe_mmap_options \<Rightarrow> 'os safe_mmap_options" where
  "so_set_shared b so = so\<lparr>so_shared := b\<rparr>"

definition so_set_offset :: "u64 \<Rightarrow> 'os safe_mmap_options \<Rightarrow> 'os safe_mmap_options" where
  "so_set_offset off so = so\<lparr>so_offset := off\<rparr>"

definition so_set_len :: "usize \<Rightarrow> 'os safe_mmap_options \<Rightarrow> 'os safe_mmap_options" where
  "so_set_len len so = so\<lparr>so_len := Some len\<rparr>"

definition so_set_max_sigbus :: "u32 \<Rightarrow> 'os safe_mmap_options \<Rightarrow> 'os safe_mmap_options" where
  "so_set_max_sigbus n so = so\<lparr>so_max_sigbus := n\<rparr>"

definition so_set_populate :: "bool \<Rightarrow> 'os safe_mmap_options \<Rightarrow> 'os safe_mmap_options" where
  "so_set_populate b so = so\<lparr>so_populate := b\<rparr>"

definition so_set_on_event ::
    "'os event_callback \<Rightarrow> 'os safe_mmap_options \<Rightarrow> 'os safe_mmap_options" where
  "so_set_on_event cb so = so\<lparr>so_on_event := Some cb\<rparr>"

definition so_set_flock :: "bool \<Rightarrow> 'os safe_mmap_options \<Rightarrow> 'os safe_mmap_options" where
  "so_set_flock b so = so\<lparr>so_flock := b\<rparr>"

subsection \<open>Opening\<close>

text \<open>
  Locals dropped when the function leaves early: \<open>on_unwind\<close> runs the destructor on a panic only,
  \<open>unless_ok\<close> also when the function returns an error.
\<close>

definition on_unwind :: "('s \<Rightarrow> 's) \<Rightarrow> ('s, 'a) comp \<Rightarrow> ('s, 'a) comp" where
  "on_unwind clean body =
     (\<lambda>s. case body s of (Panicked msg, s') \<Rightarrow> (Panicked msg, clean s') | r \<Rightarrow> r)"

definition unless_ok :: "('s \<Rightarrow> 's) \<Rightarrow> ('s, 'e + 'a) comp \<Rightarrow> ('s, 'e + 'a) comp" where
  "unless_ok clean body =
     (\<lambda>s. case body s of
            (Panicked msg, s') \<Rightarrow> (Panicked msg, clean s')
          | (Ret (Inl e), s') \<Rightarrow> (Ret (Inl e), clean s')
          | r \<Rightarrow> r)"

text \<open>\<open>?\<close> on an \<open>io::Result\<close>, through \<open>From<io::Error> for MmapError\<close>.\<close>

definition try_io ::
    "('s, io_error + 'a) comp \<Rightarrow> ('a \<Rightarrow> ('s, mmap_error + 'b) comp) \<Rightarrow> ('s, mmap_error + 'b) comp" where
  "try_io m k = and_then m (\<lambda>r. case r of Inl e \<Rightarrow> ret (Inl (MmapIo e)) | Inr x \<Rightarrow> k x)"

definition close_file :: "'os libc \<Rightarrow> c_int \<Rightarrow> 'os world \<Rightarrow> 'os world" where
  "close_file L fd w = w\<lparr>os := fs_close L fd (os w)\<rparr>"

definition unmap_raw :: "'os libc \<Rightarrow> raw_mmap \<Rightarrow> 'os world \<Rightarrow> 'os world" where
  "unmap_raw L m w = snd (on_os (raw_drop L m) w)"

definition lock_file ::
    "'os libc \<Rightarrow> 'os safe_mmap_options \<Rightarrow> c_int \<Rightarrow> ('os world, io_error + unit) comp" where
  "lock_file L so fd =
     (if so_flock so then
        (let op = if so_writable so then LOCK_EX L OR LOCK_NB L else LOCK_SH L OR LOCK_NB L
         in on_os (and_then (syscall (sys_flock L fd op)) (\<lambda>code. os_result L code ())))
      else ret (Inr ()))"

definition map_length :: "'os safe_mmap_options \<Rightarrow> u64 \<Rightarrow> mmap_error + usize" where
  "map_length so file_len =
     (if file_len = 0 \<and> so_len so = None then Inl EmptyFile
      else case so_len so of
             Some len \<Rightarrow> if len = 0 then Inl EmptyFile else Inr len
           | None \<Rightarrow>
               if file_len \<le> so_offset so then Inl (OffsetBeyondFile (so_offset so) file_len)
               else (let map_len = file_len - so_offset so
                     in if map_len = 0 then Inl EmptyFile else Inr map_len))"

definition mapping_options :: "'os safe_mmap_options \<Rightarrow> c_int \<Rightarrow> usize \<Rightarrow> mmap_options" where
  "mapping_options so fd map_len =
     (let prot = if so_writable so then ReadWrite else Read;
          vis = if so_shared so then Shared else Private;
          opts = mmap_options_visibility vis (mmap_options_protection prot
                   (mmap_options_offset (so_offset so)
                     (mmap_options_fd fd (mmap_options_new map_len))))
      in if so_populate so then mmap_options_populate opts else opts)"

text \<open>\<open>open\<close> from the point where the file is open, and the whole of it.\<close>

definition map_file ::
    "'os libc \<Rightarrow> 'os safe_mmap_options \<Rightarrow> string \<Rightarrow> c_int
     \<Rightarrow> ('os world, mmap_error + 'os safe_mmap) comp" where
  "map_file L so path fd =
     try_io (lock_file L so fd) (\<lambda>_.
     try_io (on_os (syscall (fs_len L fd))) (\<lambda>file_len.
     case map_length so file_len of
       Inl e \<Rightarrow> ret (Inl e)
     | Inr map_len \<Rightarrow>
         try_io (on_os (mmap_options_map L (mapping_options so fd map_len))) (\<lambda>raw.
         on_unwind (unmap_raw L raw) (
           and_then (install L) (\<lambda>_.
           and_then (on_regs (register (overflow_checks L) (rm_ptr raw) (rm_len raw))) (\<lambda>_.
           ret (Inr \<lparr>sm_raw = raw, sm_path = path, sm_file = fd, sigbus_count = 0,
                     poisoned = False, max_sigbus = so_max_sigbus so,
                     on_event = so_on_event so\<rparr>)))))))"

definition safe_mmap_options_open ::
    "'os libc \<Rightarrow> 'os safe_mmap_options \<Rightarrow> string \<Rightarrow> ('os world, mmap_error + 'os safe_mmap) comp" where
  "safe_mmap_options_open L so path =
     try_io (on_os (syscall (fs_open L (so_writable so) path))) (\<lambda>fd.
     unless_ok (close_file L fd) (map_file L so path fd))"

definition safe_mmap_builder :: "'os safe_mmap_options" where
  "safe_mmap_builder = safe_mmap_options_new"

definition safe_mmap_open ::
    "'os libc \<Rightarrow> string \<Rightarrow> ('os world, mmap_error + 'os safe_mmap) comp" where
  "safe_mmap_open L path = safe_mmap_options_open L safe_mmap_builder path"

definition with_max_sigbus :: "u32 \<Rightarrow> 'os safe_mmap \<Rightarrow> 'os safe_mmap" where
  "with_max_sigbus n m = m\<lparr>max_sigbus := n\<rparr>"

section \<open>Poisoning\<close>

definition on_world :: "('os world, 'a) comp \<Rightarrow> ('os mm, 'a) comp" where
  "on_world = zoom snd (\<lambda>w (m, _). (m, w))"

definition self :: "('os mm, 'os safe_mmap) comp" where
  "self = gets fst"

definition update_self :: "('os safe_mmap \<Rightarrow> 'os safe_mmap) \<Rightarrow> ('os mm, unit) comp" where
  "update_self f = modify (\<lambda>(m, w). (f m, w))"

definition check_poisoned :: "('os mm, access_error + unit) comp" where
  "check_poisoned =
     and_then self (\<lambda>m.
     if poisoned m then ret (Inl (Poisoned (sigbus_count m))) else ret (Inr ()))"

definition check_bounds :: "usize \<Rightarrow> usize \<Rightarrow> ('os mm, access_error + unit) comp" where
  "check_bounds off len =
     and_then self (\<lambda>m.
     case checked_add off len of
       None \<Rightarrow> ret (Inl (OutOfBounds off len (rm_len (sm_raw m))))
     | Some e \<Rightarrow>
         if rm_len (sm_raw m) < e then ret (Inl (OutOfBounds off len (rm_len (sm_raw m))))
         else ret (Inr ()))"

definition emit_event :: "mmap_event \<Rightarrow> ('os mm, unit) comp" where
  "emit_event ev =
     and_then self (\<lambda>m. case on_event m of None \<Rightarrow> ret () | Some cb \<Rightarrow> on_world (cb ev))"

text \<open>\<open>AtomicU32::fetch_add\<close> wraps; the \<open>+ 1\<close> on its result is checked in debug builds.\<close>

definition record_sigbus_from :: "'os libc \<Rightarrow> access_error \<Rightarrow> ('os mm, unit) comp" where
  "record_sigbus_from L err =
     (let fault_address = (case err of Sigbus a \<Rightarrow> a | _ \<Rightarrow> 0) in
      and_then self (\<lambda>m.
      and_then (update_self (\<lambda>m. m\<lparr>sigbus_count := sigbus_count m + 1\<rparr>)) (\<lambda>_.
      and_then (u32_add (overflow_checks L) (sigbus_count m) 1) (\<lambda>count.
      and_then (emit_event (SigbusEvent fault_address)) (\<lambda>_.
      if max_sigbus m \<le> count then
        and_then (update_self (\<lambda>m. m\<lparr>poisoned := True\<rparr>)) (\<lambda>_.
        emit_event (PoisonedEvent count))
      else ret ())))))"

definition reset_poison :: "('os mm, unit) comp" where
  "reset_poison =
     and_then (update_self (\<lambda>m. m\<lparr>poisoned := False\<rparr>)) (\<lambda>_.
     update_self (\<lambda>m. m\<lparr>sigbus_count := 0\<rparr>))"

section \<open>Protected accesses\<close>

definition safe_mmap_guard :: "'os libc \<Rightarrow> ('os mm, read_guard) comp" where
  "safe_mmap_guard L = and_then self (\<lambda>m. on_world (read_guard_new L (sm_raw m)))"

definition safe_mmap_read ::
    "'os libc \<Rightarrow> tid \<Rightarrow> usize \<Rightarrow> usize \<Rightarrow> 'r slice_fn \<Rightarrow> ('os mm, access_error + 'r) comp" where
  "safe_mmap_read L t range_start range_end f =
     try_then check_poisoned (\<lambda>_.
     and_then (safe_mmap_guard L) (\<lambda>g.
     and_then (usize_sub (overflow_checks L) range_end range_start) (\<lambda>len.
     and_then (on_world (read_guard_read L t g range_start len f)) (\<lambda>result.
     case result of
       Inl (Sigbus a) \<Rightarrow> and_then (record_sigbus_from L (Sigbus a)) (\<lambda>_. ret result)
     | _ \<Rightarrow> ret result))))"

text \<open>\<open>copy_nonoverlapping(src, dst, n)\<close> as a memory program.\<close>

primrec copy_bytes :: "usize \<Rightarrow> usize \<Rightarrow> nat list \<Rightarrow> unit access" where
  "copy_bytes src dst [] = Return ()"
| "copy_bytes src dst (i # is) =
     Load (src + of_nat i) (\<lambda>b. Store (dst + of_nat i) b (copy_bytes src dst is))"

definition copy_nonoverlapping :: "'os libc \<Rightarrow> usize \<Rightarrow> usize \<Rightarrow> usize \<Rightarrow> unit access" where
  "copy_nonoverlapping L src dst n = copy_bytes src dst (copy_order L (unat n))"

text \<open>The common tail of \<open>write\<close> and \<open>read_into\<close>: a fault is recorded and returned.\<close>

definition settle :: "'os libc \<Rightarrow> usize + 'r \<Rightarrow> ('os mm, access_error + 'r) comp" where
  "settle L result =
     (case result of
        Inr r \<Rightarrow> ret (Inr r)
      | Inl fault_address \<Rightarrow>
          (let err = Sigbus fault_address in
           and_then (record_sigbus_from L err) (\<lambda>_. ret (Inl err))))"

definition safe_mmap_write ::
    "'os libc \<Rightarrow> tid \<Rightarrow> usize \<Rightarrow> usize \<Rightarrow> usize \<Rightarrow> ('os mm, access_error + unit) comp" where
  "safe_mmap_write L t off data data_len =
     try_then check_poisoned (\<lambda>_.
     try_then (check_bounds off data_len) (\<lambda>_.
     and_then self (\<lambda>m.
     case as_mut_ptr (sm_raw m) of
       None \<Rightarrow> ret (Inl (Io (Custom PermissionDenied ''mapping is read-only'')))
     | Some dst \<Rightarrow>
         and_then (on_world (protected L t (copy_nonoverlapping L data (dst + off) data_len)))
           (settle L))))"

definition safe_mmap_read_into ::
    "'os libc \<Rightarrow> tid \<Rightarrow> usize \<Rightarrow> usize \<Rightarrow> usize \<Rightarrow> ('os mm, access_error + unit) comp" where
  "safe_mmap_read_into L t off buf buf_len =
     try_then check_poisoned (\<lambda>_.
     try_then (check_bounds off buf_len) (\<lambda>_.
     and_then self (\<lambda>m.
     and_then (on_world (protected L t
                 (copy_nonoverlapping L (rm_ptr (sm_raw m) + off) buf buf_len)))
       (settle L))))"

text \<open>The closure \<open>|b| b[0]\<close>.\<close>

definition first_byte :: "u8 slice_fn" where
  "first_byte p n = (if n = 0 then Panic ''index out of bounds'' else Load p Return)"

fun probe_loop ::
    "'os libc \<Rightarrow> tid \<Rightarrow> read_guard \<Rightarrow> usize \<Rightarrow> usize \<Rightarrow> usize \<Rightarrow> nat \<Rightarrow> usize
     \<Rightarrow> ('os mm, access_error + unit) comp" where
  "probe_loop L t g page off len 0 pos = halt NoFuel"
| "probe_loop L t g page off len (Suc n) pos =
     and_then (usize_add (overflow_checks L) off len) (\<lambda>end_pos.
     if pos < end_pos then
       and_then (on_world (read_guard_read L t g pos 1 first_byte)) (\<lambda>result.
       case result of
         Inl e \<Rightarrow> and_then (record_sigbus_from L e) (\<lambda>_. ret (Inl e))
       | Inr _ \<Rightarrow>
           and_then (usize_add (overflow_checks L) pos page) (\<lambda>pos'.
           probe_loop L t g page off len n pos'))
     else ret (Inr ()))"

definition safe_mmap_probe ::
    "'os libc \<Rightarrow> tid \<Rightarrow> usize \<Rightarrow> usize \<Rightarrow> ('os mm, access_error + unit) comp" where
  "safe_mmap_probe L t off len =
     try_then check_poisoned (\<lambda>_.
     try_then (check_bounds off len) (\<lambda>_.
     and_then (safe_mmap_guard L) (\<lambda>g.
     and_then (page_size L) (\<lambda>page.
     probe_loop L t g page off len (unat len div unat page + 2) off))))"

section \<open>Operations on the raw mapping\<close>

definition with_raw :: "(raw_mmap \<Rightarrow> ('os, 'a) comp) \<Rightarrow> ('os mm, 'a) comp" where
  "with_raw op = and_then self (\<lambda>m. on_world (on_os (op (sm_raw m))))"

definition safe_mmap_flush ::
    "'os libc \<Rightarrow> usize \<Rightarrow> usize \<Rightarrow> bool \<Rightarrow> ('os mm, io_error + unit) comp" where
  "safe_mmap_flush L off len async_flush =
     with_raw (\<lambda>raw. raw_flush L async_flush raw off len)"

definition safe_mmap_advise :: "'os libc \<Rightarrow> advice \<Rightarrow> ('os mm, io_error + unit) comp" where
  "safe_mmap_advise L adv = with_raw (raw_advise L adv)"

definition safe_mmap_advise_range ::
    "'os libc \<Rightarrow> advice \<Rightarrow> usize \<Rightarrow> usize \<Rightarrow> ('os mm, io_error + unit) comp" where
  "safe_mmap_advise_range L adv off len = with_raw (\<lambda>raw. advise_range L adv raw off len)"

definition safe_mmap_evict :: "'os libc \<Rightarrow> usize \<Rightarrow> usize \<Rightarrow> ('os mm, io_error + unit) comp" where
  "safe_mmap_evict L off len = with_raw (\<lambda>raw. advise_range L DontNeed raw off len)"

definition safe_mmap_prefetch :: "'os libc \<Rightarrow> usize \<Rightarrow> usize \<Rightarrow> ('os mm, io_error + unit) comp" where
  "safe_mmap_prefetch L off len = with_raw (\<lambda>raw. advise_range L WillNeed raw off len)"

definition safe_mmap_resident_pages ::
    "'os libc \<Rightarrow> usize \<Rightarrow> usize \<Rightarrow> ('os mm, io_error + bool list) comp" where
  "safe_mmap_resident_pages L off len = with_raw (\<lambda>raw. raw_mincore L raw off len)"

definition lock_range ::
    "'os libc \<Rightarrow> raw_mmap \<Rightarrow> usize \<Rightarrow> usize \<Rightarrow> ('os, io_error + unit) comp" where
  "lock_range L raw off len =
     (if is_none_or (checked_add off len) (\<lambda>e. rm_len raw < e) then
        ret (Inl (Custom InvalidInput ''lock range exceeds mapping length''))
      else and_then (syscall (sys_mlock L (rm_ptr raw + off) len)) (\<lambda>code. os_result L code ()))"

definition safe_mmap_lock_range ::
    "'os libc \<Rightarrow> usize \<Rightarrow> usize \<Rightarrow> ('os mm, io_error + unit) comp" where
  "safe_mmap_lock_range L off len = with_raw (\<lambda>raw. lock_range L raw off len)"

definition unlock_range ::
    "'os libc \<Rightarrow> raw_mmap \<Rightarrow> usize \<Rightarrow> usize \<Rightarrow> ('os, io_error + unit) comp" where
  "unlock_range L raw off len =
     (if is_none_or (checked_add off len) (\<lambda>e. rm_len raw < e) then
        ret (Inl (Custom InvalidInput ''unlock range exceeds mapping length''))
      else and_then (syscall (sys_munlock L (rm_ptr raw + off) len)) (\<lambda>code. os_result L code ()))"

definition safe_mmap_unlock_range ::
    "'os libc \<Rightarrow> usize \<Rightarrow> usize \<Rightarrow> ('os mm, io_error + unit) comp" where
  "safe_mmap_unlock_range L off len = with_raw (\<lambda>raw. unlock_range L raw off len)"

section \<open>Queries, raw slices and destruction\<close>

definition safe_mmap_len :: "'os safe_mmap \<Rightarrow> usize" where
  "safe_mmap_len m = rm_len (sm_raw m)"

definition safe_mmap_is_empty :: "'os safe_mmap \<Rightarrow> bool" where
  "safe_mmap_is_empty m = raw_is_empty (sm_raw m)"

definition safe_mmap_is_writable :: "'os safe_mmap \<Rightarrow> bool" where
  "safe_mmap_is_writable m = rm_writable (sm_raw m)"

definition safe_mmap_path :: "'os safe_mmap \<Rightarrow> string" where
  "safe_mmap_path m = sm_path m"

definition safe_mmap_sigbus_count :: "'os safe_mmap \<Rightarrow> u32" where
  "safe_mmap_sigbus_count m = sigbus_count m"

definition safe_mmap_is_poisoned :: "'os safe_mmap \<Rightarrow> bool" where
  "safe_mmap_is_poisoned m = poisoned m"

definition as_slice :: "'os safe_mmap \<Rightarrow> usize \<times> usize" where
  "as_slice m = (rm_ptr (sm_raw m), rm_len (sm_raw m))"

definition as_mut_slice :: "'os safe_mmap \<Rightarrow> (usize \<times> usize) option" where
  "as_mut_slice m = map_option (\<lambda>p. (p, rm_len (sm_raw m))) (as_mut_ptr (sm_raw m))"

text \<open>
  \<open>drop\<close> unregisters the region; then the fields are dropped in declaration order, which unmaps
  the region and closes the file, also when unregistering panicked.
\<close>

definition safe_mmap_drop :: "'os libc \<Rightarrow> 'os safe_mmap \<Rightarrow> ('os world, unit) comp" where
  "safe_mmap_drop L m =
     (\<lambda>w. case on_regs (unregister (rm_ptr (sm_raw m))) w of
            (Ret _, w') \<Rightarrow> (Ret (), close_file L (sm_file m) (unmap_raw L (sm_raw m) w'))
          | (Panicked msg, w') \<Rightarrow>
              (Panicked msg, close_file L (sm_file m) (unmap_raw L (sm_raw m) w'))
          | r \<Rightarrow> r)"

end
