(* ===== verification/Mmap_Access.thy ===== *)
theory Mmap_Access
  imports Mmap_Safe
begin

text \<open>
  Correctness of the accessors of \<^verbatim>\<open>src/mmap/mod.rs\<close>: the invariant of an open
  mapping, the poisoning policy, and that every protected accessor ends as the reference
  semantics of its memory program says, with faults counted and reported.
\<close>

section \<open>Invariant of an open mapping\<close>

text \<open>The event callback returns and leaves the signal layer and the registration intact.\<close>

definition callback_ok :: "'os libc \<Rightarrow> 'os safe_mmap \<Rightarrow> bool" where
  "callback_ok L m \<longleftrightarrow>
     (\<forall>cb ev w. on_event m = Some cb \<longrightarrow> sig_inv w \<longrightarrow> mapped L w (sm_raw m) \<longrightarrow>
        (\<exists>w'. cb ev w = (Ret (), w') \<and> sig_inv w' \<and> mapped L w' (sm_raw m)))"

definition env_inv :: "'os libc \<Rightarrow> 'os mm \<Rightarrow> bool" where
  "env_inv L = (\<lambda>(m, w).
     signal_ok L \<and> sig_inv w \<and> mapped L w (sm_raw m) \<and> callback_ok L m)"

text \<open>
  The counter stops at the limit: it never wraps, and the mapping is poisoned exactly when the
  limit (at least one fault) has been reached.
\<close>

definition poison_inv :: "'os safe_mmap \<Rightarrow> bool" where
  "poison_inv m \<longleftrightarrow>
     (if poisoned m then sigbus_count m = max 1 (max_sigbus m)
      else sigbus_count m = 0 \<or> sigbus_count m < max_sigbus m)"

definition mm_inv :: "'os libc \<Rightarrow> 'os mm \<Rightarrow> bool" where
  "mm_inv L mm \<longleftrightarrow> env_inv L mm \<and> poison_inv (fst mm)"

section \<open>Recording a fault\<close>

definition faulted :: "'os safe_mmap \<Rightarrow> 'os safe_mmap" where
  "faulted m = m\<lparr>sigbus_count := sigbus_count m + 1,
                 poisoned := (poisoned m \<or> max_sigbus m \<le> sigbus_count m + 1)\<rparr>"

definition fault_events :: "'os safe_mmap \<Rightarrow> usize \<Rightarrow> mmap_event list" where
  "fault_events m a =
     SigbusEvent a
     # (if max_sigbus m \<le> sigbus_count m + 1 then [PoisonedEvent (sigbus_count m + 1)] else [])"

primrec notify :: "'os safe_mmap \<Rightarrow> mmap_event list \<Rightarrow> ('os world, unit) comp" where
  "notify m [] = ret ()"
| "notify m (ev # evs) =
     and_then (case on_event m of None \<Rightarrow> ret () | Some cb \<Rightarrow> cb ev) (\<lambda>_. notify m evs)"

lemma on_world_apply: "on_world c (m, w) = (fst (c w), (m, snd (c w)))"
  by (simp add: on_world_def zoom_def split: prod.splits)

lemma on_world_ret [simp]: "c w = (Ret x, w') \<Longrightarrow> on_world c (m, w) = (Ret x, (m, w'))"
  by (simp add: on_world_apply)

lemma self_apply [simp]: "self (m, w) = (Ret m, (m, w))"
  by (simp add: self_def)

lemma update_self_apply [simp]: "update_self f (m, w) = (Ret (), (f m, w))"
  by (simp add: update_self_def)

lemma emit_event_notify: "emit_event ev (m, w) = on_world (notify m [ev]) (m, w)"
proof -
  have "and_then c (\<lambda>_. ret ()) = c" for c :: "('os world, unit) comp"
  proof -
    have "(\<lambda>_. ret ()) = (ret :: unit \<Rightarrow> ('os world, unit) comp)" by (simp add: fun_eq_iff)
    then show ?thesis by simp
  qed
  then show ?thesis
    by (simp add: emit_event_def on_world_apply split: option.split)
qed

lemma notify_ok:
  assumes "callback_ok L m" and "sig_inv w" and "mapped L w (sm_raw m)"
  shows "\<exists>w'. notify m evs w = (Ret (), w') \<and> sig_inv w' \<and> mapped L w' (sm_raw m)"
  using assms
proof (induction evs arbitrary: w)
  case (Cons ev evs)
  show ?case
  proof (cases "on_event m")
    case None
    with Cons show ?thesis by simp
  next
    case (Some cb)
    with Cons.prems obtain w1 where w1: "cb ev w = (Ret (), w1)" "sig_inv w1" "mapped L w1 (sm_raw m)"
      unfolding callback_ok_def by blast
    with Cons.IH [OF Cons.prems(1) w1(2,3)] Some show ?thesis by simp
  qed
qed simp

lemma notify_silent: "on_event m = None \<Longrightarrow> notify m evs = ret ()"
  by (induction evs) simp_all

lemma notify_append: "notify m (xs @ ys) = and_then (notify m xs) (\<lambda>_. notify m ys)"
  by (induction xs) (simp_all add: and_then_assoc)

lemma notify_cong: "on_event m' = on_event m \<Longrightarrow> notify m' evs = notify m evs"
  by (induction evs) simp_all

lemma poison_inv_room:
  assumes "poison_inv m" and "\<not> poisoned m"
  shows "unat (sigbus_count m) + 1 < 2 ^ 32"
proof -
  have "unat (max_sigbus m) < 2 ^ 32" using unsigned_less [of "max_sigbus m"] by simp
  with assms show ?thesis by (auto simp: poison_inv_def word_less_nat_alt)
qed

lemma count_succ:
  assumes "poison_inv m" and "\<not> poisoned m"
  shows "unat (sigbus_count m + 1) = unat (sigbus_count m) + 1"
  using poison_inv_room [OF assms] by (simp add: unat_word_ariths)

lemma poison_inv_faulted:
  assumes "poison_inv m" and "\<not> poisoned m"
  shows "poison_inv (faulted m)"
  using assms count_succ [OF assms]
  by (auto simp: poison_inv_def faulted_def max_def word_less_nat_alt word_le_nat_alt
      word_unat_eq_iff)

lemma env_inv_fields:
  "env_inv L (m\<lparr>sigbus_count := c, poisoned := p\<rparr>, w) = env_inv L (m, w)"
  by (simp add: env_inv_def callback_ok_def)

lemma env_inv_faulted: "env_inv L (faulted m, w) = env_inv L (m, w)"
  by (simp add: faulted_def env_inv_fields)

lemma record_ok:
  assumes inv: "mm_inv L (m, w)" and np: "\<not> poisoned m"
  shows "\<exists>w'. notify m (fault_events m a) w = (Ret (), w')
     \<and> record_sigbus_from L (Sigbus a) (m, w) = (Ret (), (faulted m, w'))
     \<and> mm_inv L (faulted m, w')"
proof -
  have cb: "callback_ok L m" and si: "sig_inv w" and mp: "mapped L w (sm_raw m)"
    and env: "signal_ok L" and pi: "poison_inv m"
    using inv by (simp_all add: mm_inv_def env_inv_def)
  let ?c = "sigbus_count m + 1"
  let ?m1 = "m\<lparr>sigbus_count := ?c\<rparr>"
  have add: "u32_add (overflow_checks L) (sigbus_count m) 1 = ret ?c"
    using poison_inv_room [OF pi np] by (simp add: u32_add_def)
  obtain w1 where w1: "notify m [SigbusEvent a] w = (Ret (), w1)" "sig_inv w1" "mapped L w1 (sm_raw m)"
    using notify_ok [OF cb si mp] by blast
  obtain w2 where w2: "notify m [PoisonedEvent ?c] w1 = (Ret (), w2)" "sig_inv w2" "mapped L w2 (sm_raw m)"
    using notify_ok [OF cb w1(2,3)] by blast
  define lim where "lim \<longleftrightarrow> max_sigbus m \<le> ?c"
  define w' where "w' = (if lim then w2 else w1)"
  have "notify m (fault_events m a) w = (Ret (), w')"
    using w1(1) w2(1)
    by (auto simp: fault_events_def w'_def lim_def and_then_def split: option.splits prod.splits)
  moreover have "record_sigbus_from L (Sigbus a) (m, w) = (Ret (), (faulted m, w'))"
  proof -
    have e: "emit_event ev (m\<lparr>sigbus_count := n, poisoned := p\<rparr>, v)
        = on_world (notify m [ev]) (m\<lparr>sigbus_count := n, poisoned := p\<rparr>, v)" for ev n p v
      using notify_cong [of "m\<lparr>sigbus_count := n, poisoned := p\<rparr>" m]
      by (simp only: emit_event_notify) simp
    have e1: "emit_event (SigbusEvent a) (?m1, w) = (Ret (), (?m1, w1))"
      using e [of _ "poisoned m" ?c] w1(1) by simp
    have e2: "emit_event (PoisonedEvent ?c) (?m1\<lparr>poisoned := True\<rparr>, w1)
        = (Ret (), (?m1\<lparr>poisoned := True\<rparr>, w2))"
      using e [of _ True ?c] w2(1) by simp
    show ?thesis
      using np by (simp add: record_sigbus_from_def add e1 e2 faulted_def w'_def lim_def)
  qed
  moreover have "mm_inv L (faulted m, w')"
  proof -
    have "env_inv L (m, w')"
      using env cb w1 w2 by (simp add: env_inv_def w'_def)
    with poison_inv_faulted [OF pi np] show ?thesis by (simp add: mm_inv_def env_inv_faulted)
  qed
  ultimately show ?thesis by blast
qed

section \<open>The contract of a protected accessor\<close>

text \<open>
  An accessor that runs the memory program \<open>q\<close>: it returns the program's result; or it
  returns the address of the first fault, after counting the fault and reporting it to the
  callback; a segmentation fault is not caught.
\<close>

definition recovers ::
    "'os libc \<Rightarrow> ('os mm, access_error + 'r) comp \<Rightarrow> 'r access \<Rightarrow> 'os mm \<Rightarrow> bool" where
  "recovers L op q = (\<lambda>(m, w).
     (case exec L q (os w) of
        (Finished r, s) \<Rightarrow> \<exists>w'. op (m, w) = (Ret (Inr r), (m, w')) \<and> os w' = s
               \<and> regs w' = regs w \<and> mm_inv L (m, w')
      | (Faulted a, s) \<Rightarrow>
          \<exists>w1 w'. os w1 = s \<and> regs w1 = regs w \<and> notify m (fault_events m a) w1 = (Ret (), w')
               \<and> op (m, w) = (Ret (Inl (Sigbus a)), (faulted m, w')) \<and> mm_inv L (faulted m, w')
      | (Died, s) \<Rightarrow> fst (op (m, w)) = Killed SIGSEGV))"

definition holds_slice :: "raw_mmap \<Rightarrow> usize \<Rightarrow> usize \<Rightarrow> bool" where
  "holds_slice raw off len \<longleftrightarrow> unat off + unat len \<le> unat (rm_len raw)"

lemma mm_inv_world:
  "mm_inv L (m, w) \<Longrightarrow> sig_inv w' \<Longrightarrow> regs w' = regs w \<Longrightarrow> mm_inv L (m, w')"
  by (auto simp: mm_inv_def env_inv_def intro: mapped_cong)

lemma recoversI:
  assumes inv: "mm_inv L (m, w)" and np: "\<not> poisoned m"
    and ex: "exec L q (os w) = (e, s)"
    and w1: "os w1 = s" "regs w1 = regs w" "e \<noteq> Died \<Longrightarrow> sig_inv w1"
    and fin: "\<And>r. e = Finished r \<Longrightarrow> op (m, w) = (Ret (Inr r), (m, w1))"
    and flt: "\<And>a. e = Faulted a \<Longrightarrow>
      op (m, w) = and_then (record_sigbus_from L (Sigbus a)) (\<lambda>_. ret (Inl (Sigbus a))) (m, w1)"
    and died: "e = Died \<Longrightarrow> fst (op (m, w)) = Killed SIGSEGV"
  shows "recovers L op q (m, w)"
proof (cases e)
  case (Finished r)
  with fin ex w1 mm_inv_world [OF inv] show ?thesis by (simp add: recovers_def)
next
  case (Faulted a)
  then have inv1: "mm_inv L (m, w1)" using w1 mm_inv_world [OF inv] by simp
  obtain w' where "notify m (fault_events m a) w1 = (Ret (), w')"
    "record_sigbus_from L (Sigbus a) (m, w1) = (Ret (), (faulted m, w'))" "mm_inv L (faulted m, w')"
    using record_ok [OF inv1 np] by blast
  with flt [OF Faulted] ex Faulted w1(1,2) show ?thesis
    by (auto simp: recovers_def)
next
  case Died
  with died ex show ?thesis by (simp add: recovers_def)
qed

lemma settle_recovers:
  assumes inv: "mm_inv L (m, w)" and np: "\<not> poisoned m"
    and q: "flat q" "within (recoverable L w) q"
    and op: "op (m, w) = and_then (on_world (protected L t q)) (settle L) (m, w)"
  shows "recovers L op q (m, w)"
proof -
  have env: "signal_ok L" and si: "sig_inv w" using inv by (simp_all add: mm_inv_def env_inv_def)
  obtain e s where ex: "exec L q (os w) = (e, s)" by fastforce
  obtain w1 where w1: "protected L t q w = (ending_outcome e, w1)" "os w1 = s" "regs w1 = regs w"
      "e \<noteq> Died \<longrightarrow> sig_inv w1"
    using protected_exact [OF env si q, of t] ex by auto
  show ?thesis
    by (rule recoversI [OF inv np ex w1(2,3)])
      (use w1 op in \<open>auto simp: and_then_def on_world_apply settle_def Let_def\<close>)
qed

lemma check_poisoned_ok [simp]: "\<not> poisoned m \<Longrightarrow> check_poisoned (m, w) = (Ret (Inr ()), (m, w))"
  by (simp add: check_poisoned_def)

lemma check_bounds_apply:
  "check_bounds off len (m, w) =
     (Ret (if holds_slice (sm_raw m) off len then Inr ()
           else Inl (OutOfBounds off len (rm_len (sm_raw m)))), (m, w))"
proof (cases "checked_add off len")
  case None
  then have "\<not> holds_slice (sm_raw m) off len"
    using unat_lt_64 [of "rm_len (sm_raw m)"] by (simp add: checked_add_None_iff holds_slice_def)
  with None show ?thesis by (simp add: check_bounds_def)
next
  case (Some e)
  then have "rm_len (sm_raw m) < e \<longleftrightarrow> \<not> holds_slice (sm_raw m) off len"
    by (auto simp: checked_add_Some_iff holds_slice_def word_less_nat_alt)
  with Some show ?thesis by (simp add: check_bounds_def)
qed

section \<open>read\<close>

lemma guard_ok:
  assumes "mm_inv L (m, w)"
  shows "\<exists>w1. safe_mmap_guard L (m, w) = (Ret \<lparr>rg_raw = sm_raw m\<rparr>, (m, w1)) \<and> mm_inv L (m, w1)
     \<and> os w1 = os w \<and> regs w1 = regs w"
proof -
  let ?w1 = "w\<lparr>handler_once := Complete, sigbus_action := SIGBUS_HANDLER\<rparr>"
  have hi: "handler_inv w" and si: "sig_inv w" and sa: "sys_sigaction L (os w) = 0"
    using assms by (simp_all add: mm_inv_def env_inv_def sig_inv_def signal_ok_def)
  have "thread_inv w" using si by (simp add: sig_inv_def)
  then have "thread_inv ?w1" by (rule thread_inv_cong) simp_all
  then have "sig_inv ?w1" using si by (simp add: sig_inv_def handler_inv_def)
  then have "mm_inv L (m, ?w1)" by (rule mm_inv_world [OF assms]) simp
  moreover have "safe_mmap_guard L (m, w) = (Ret \<lparr>rg_raw = sm_raw m\<rparr>, (m, ?w1))"
    using install_ok [OF hi sa]
    by (simp add: safe_mmap_guard_def read_guard_new_def on_world_apply)
  ultimately show ?thesis by (intro exI [of _ ?w1]) simp
qed

lemma safe_mmap_read_recovers:
  assumes inv: "mm_inv L (m, w)" and np: "\<not> poisoned m"
    and rng: "start \<le> stop" and fits: "stop \<le> rm_len (sm_raw m)" 
    and f: "slice_safe f (rm_ptr (sm_raw m) + start) (stop - start)"
  shows "recovers L (safe_mmap_read L t start stop f) (f (rm_ptr (sm_raw m) + start) (stop - start)) (m, w)"
proof -
  let ?q = "f (rm_ptr (sm_raw m) + start) (stop - start)"
  let ?g = "\<lparr>rg_raw = sm_raw m\<rparr>"
  obtain w0 where g: "safe_mmap_guard L (m, w) = (Ret ?g, (m, w0))" "mm_inv L (m, w0)"
      "os w0 = os w" "regs w0 = regs w"
    using guard_ok [OF inv] by blast
  have env: "signal_ok L" "sig_inv w0" "mapped L w0 (rg_raw ?g)"
    using g(2) by (simp_all add: mm_inv_def env_inv_def)
  have sz: "unat start + unat (stop - start) \<le> unat (rm_len (rg_raw ?g))"
    using rng fits by (simp add: unat_sub_no_wrap word_le_nat_alt)
  obtain e s where ex: "exec L ?q (os w) = (e, s)" by fastforce
  obtain w1 where w1: "read_guard_read L t ?g start (stop - start) f w0 = (guard_outcome e, w1)"
      "os w1 = s" "regs w1 = regs w" "e \<noteq> Died \<longrightarrow> sig_inv w1"
    using read_guard_read_exact [OF env sz, of f t] f ex g(3,4) by auto
  show ?thesis
    by (rule recoversI [OF inv np ex w1(2,3)])
      (use w1 np rng g(1) in \<open>auto simp: safe_mmap_read_def try_then_def and_then_def on_world_apply\<close>)
qed

section \<open>write and read\_into\<close>

lemma in_slice_nth:
  assumes "unat p + unat n < 2 ^ 64" and "i < unat n"
  shows "in_slice p n (p + of_nat i)"
proof -
  have i: "unat (of_nat i :: usize) = i"
    using assms unat_lt_64 [of n] by (simp add: unat_of_nat)
  then have "unat (p + of_nat i) = unat p + i"
    using assms by (subst unat_add_no_wrap) simp_all
  with assms(2) show ?thesis by (simp add: in_slice_def)
qed

lemma flat_copy_bytes: "flat (copy_bytes src dst is)"
  by (induction "is") simp_all

lemma within_copy:
  assumes "copy_law L" and "unat src + unat n < 2 ^ 64" and "unat dst + unat n < 2 ^ 64"
    and "\<And>a. in_slice src n a \<Longrightarrow> P a" and "\<And>a. in_slice dst n a \<Longrightarrow> P a"
  shows "within P (copy_nonoverlapping L src dst n)"
proof -
  have "set is \<subseteq> {..<unat n} \<Longrightarrow> within P (copy_bytes src dst is)" for "is"
    by (induction "is") (simp_all add: assms(4) [OF in_slice_nth [OF assms(2)]]
        assms(5) [OF in_slice_nth [OF assms(3)]])
  then show ?thesis using assms(1) by (simp add: copy_nonoverlapping_def copy_law_def)
qed

text \<open>A caller buffer: it does not wrap, and each of its bytes is ordinary memory or registered.\<close>

definition buffer_ok :: "'os libc \<Rightarrow> 'os world \<Rightarrow> usize \<Rightarrow> usize \<Rightarrow> bool" where
  "buffer_ok L w buf n \<longleftrightarrow>
     unat buf + unat n < 2 ^ 64 \<and> (\<forall>a. in_slice buf n a \<longrightarrow> recoverable L w a)"

lemma mm_inv_slice:
  assumes "mm_inv L (m, w)" and "holds_slice (sm_raw m) off n"
  shows "unat (rm_ptr (sm_raw m) + off) + unat n < 2 ^ 64"
    and "in_slice (rm_ptr (sm_raw m) + off) n a \<Longrightarrow> recoverable L w a"
proof -
  have mp: "mapped L w (sm_raw m)" and fits: "unat off + unat n \<le> unat (rm_len (sm_raw m))"
    using assms by (simp_all add: mm_inv_def env_inv_def holds_slice_def)
  then show "unat (rm_ptr (sm_raw m) + off) + unat n < 2 ^ 64"
    by (intro slice_in_mapping(2)) (auto simp: mapped_def)
  show "in_slice (rm_ptr (sm_raw m) + off) n a \<Longrightarrow> recoverable L w a"
    by (rule recoverable_registered) (rule slice_registered [OF mp fits])
qed

lemma safe_mmap_write_recovers:
  assumes inv: "mm_inv L (m, w)" and np: "\<not> poisoned m" and law: "copy_law L"
    and fits: "holds_slice (sm_raw m) off n" and wr: "rm_writable (sm_raw m)"
    and buf: "buffer_ok L w data n"
  shows "recovers L (safe_mmap_write L t off data n)
           (copy_nonoverlapping L data (rm_ptr (sm_raw m) + off) n) (m, w)"
proof (rule settle_recovers [OF inv np, where t = t])
  show "flat (copy_nonoverlapping L data (rm_ptr (sm_raw m) + off) n)"
    by (simp add: copy_nonoverlapping_def flat_copy_bytes)
  show "within (recoverable L w) (copy_nonoverlapping L data (rm_ptr (sm_raw m) + off) n)"
    using buf mm_inv_slice [OF inv fits]
    by (intro within_copy law) (auto simp: buffer_ok_def)
qed (use np fits wr in \<open>simp add: safe_mmap_write_def check_bounds_apply as_mut_ptr_def\<close>)

lemma safe_mmap_read_into_recovers:
  assumes inv: "mm_inv L (m, w)" and np: "\<not> poisoned m" and law: "copy_law L"
    and fits: "holds_slice (sm_raw m) off n" and buf: "buffer_ok L w buf n"
  shows "recovers L (safe_mmap_read_into L t off buf n)
           (copy_nonoverlapping L (rm_ptr (sm_raw m) + off) buf n) (m, w)"
proof (rule settle_recovers [OF inv np, where t = t])
  show "flat (copy_nonoverlapping L (rm_ptr (sm_raw m) + off) buf n)"
    by (simp add: copy_nonoverlapping_def flat_copy_bytes)
  show "within (recoverable L w) (copy_nonoverlapping L (rm_ptr (sm_raw m) + off) buf n)"
    using buf mm_inv_slice [OF inv fits]
    by (intro within_copy law) (auto simp: buffer_ok_def)
qed (use np fits in \<open>simp add: safe_mmap_read_into_def check_bounds_apply\<close>)

section \<open>probe\<close>

text \<open>The reference: one pass that loads a byte at every stride of a page.\<close>

function stride :: "nat \<Rightarrow> nat \<Rightarrow> nat \<Rightarrow> nat list" where
  "stride p pos stop = (if p = 0 \<or> stop \<le> pos then [] else pos # stride p (pos + p) stop)"
  by auto
termination by (relation "measure (\<lambda>(p, pos, stop). stop - pos)") auto

declare stride.simps [simp del]

primrec touch :: "usize list \<Rightarrow> unit access" where
  "touch [] = Return ()"
| "touch (a # as) = Load a (\<lambda>_. touch as)"

definition probe_program :: "raw_mmap \<Rightarrow> nat \<Rightarrow> nat \<Rightarrow> nat \<Rightarrow> unit access" where
  "probe_program raw p pos stop = touch (map (\<lambda>x. rm_ptr raw + of_nat x) (stride p pos stop))"

lemma stride_length: "0 < p \<Longrightarrow> length (stride p pos stop) \<le> (stop - pos) div p + 1"
proof (induction p pos stop rule: stride.induct)
  case (1 p pos stop)
  show ?case
  proof (cases "stop \<le> pos")
    case True
    then show ?thesis by (simp add: stride.simps)
  next
    case False
    with 1 have ih: "length (stride p (pos + p) stop) \<le> (stop - (pos + p)) div p + 1" by simp
    show ?thesis
    proof (cases "stop \<le> pos + p")
      case True
      then have "stride p (pos + p) stop = []" by (simp add: stride.simps)
      with False 1 show ?thesis by (simp add: stride.simps [of p pos])
    next
      case b: False
      then have "(stop - pos) div p = (stop - (pos + p)) div p + 1"
        using 1(2) le_div_geq [of p "stop - pos"] by (simp add: diff_diff_left)
      with ih False 1 show ?thesis by (simp add: stride.simps [of p pos])
    qed
  qed
qed

text \<open>The offsets a pass visits.\<close>

lemma set_stride:
  "0 < p \<Longrightarrow> x \<in> set (stride p pos stop) \<longleftrightarrow> (\<exists>i. x = pos + i * p) \<and> x < stop"
proof (induction p pos stop rule: stride.induct)
  case (1 p pos stop)
  show ?case
  proof (cases "stop \<le> pos")
    case True
    then show ?thesis by (auto simp: stride.simps)
  next
    case False
    have "(\<exists>i. x = pos + i * p) \<longleftrightarrow> x = pos \<or> (\<exists>i. x = pos + p + i * p)"
    proof
      assume "\<exists>i. x = pos + i * p"
      then obtain i where "x = pos + i * p" by blast
      then show "x = pos \<or> (\<exists>i. x = pos + p + i * p)" by (cases i) auto
    next
      assume "x = pos \<or> (\<exists>i. x = pos + p + i * p)"
      then show "\<exists>i. x = pos + i * p" by (metis add.assoc add_0_right mult_0 mult_Suc)
    qed
    with False 1 show ?thesis by (auto simp: stride.simps [of p pos])
  qed
qed

lemma recovers_step:
  assumes "recovers L op' q' (m, w1)" and "op (m, w) = op' (m, w1)"
    and "exec L q (os w) = exec L q' (os w1)" and "regs w1 = regs w"
  shows "recovers L op q (m, w)"
  using assms by (simp add: recovers_def split: prod.splits ending.splits)

lemma slice_safe_first_byte: "slice_safe first_byte p 1"
  by (simp add: slice_safe_def first_byte_def in_slice_def)

lemma exec_first_byte:
  "exec L (first_byte a 1) s =
     (case mem_load L a s of (Value b, s') \<Rightarrow> (Finished b, s')
        | (BusError, s') \<Rightarrow> (Faulted a, s') | (SegFault, s') \<Rightarrow> (Died, s'))"
  by (simp add: first_byte_def split: prod.split mem_result.split)

text \<open>One iteration, on a range inside the mapping.\<close>

lemma probe_loop_end:
  assumes "unat off + unat len < 2 ^ 64" and "\<not> unat pos < unat off + unat len"
  shows "probe_loop L t g page off len (Suc n) pos (m, w) = (Ret (Inr ()), (m, w))"
  using assms by (simp add: usize_add_ok word_less_nat_alt unat_add_no_wrap)

lemma probe_loop_next:
  assumes fit: "unat off + unat len + 2 ^ k < 2 ^ 64" and k: "k < 64" and pos: "unat pos < unat off + unat len"
    and g: "read_guard_read L t g pos 1 first_byte w = (guard_outcome e, w1)"
  shows "probe_loop L t g (2 ^ k) off len (Suc n) pos (m, w) = (case guard_outcome e of
        Ret (Inr _) \<Rightarrow> probe_loop L t g (2 ^ k) off len n (pos + 2 ^ k) (m, w1)
      | Ret (Inl err) \<Rightarrow> and_then (record_sigbus_from L err) (\<lambda>_. ret (Inl err)) (m, w1)
      | out \<Rightarrow> (Killed SIGSEGV, (m, w1)))"
proof -
  have stop: "unat (off + len) = unat off + unat len" using fit by (intro unat_add_no_wrap) linarith
  have add: "usize_add chk off len = (ret (off + len) :: ('os mm, usize) comp)" for chk
    using fit by (intro usize_add_ok) linarith
  have addp: "usize_add chk pos (2 ^ k) = (ret (pos + 2 ^ k) :: ('os mm, usize) comp)" for chk
    using pos fit k by (intro usize_add_ok) (simp add: unat_pow2)
  show ?thesis
    using pos g
    by (cases e) (simp_all add: add word_less_nat_alt stop addp and_then_def [of "on_world _"] on_world_apply)
qed

lemma stride_next:
  assumes "unat pos < stop" and "stop + 2 ^ k < 2 ^ 64" and "k < 64"
  shows "stride (2 ^ k) (unat pos) stop = unat pos # stride (2 ^ k) (unat (pos + 2 ^ k :: usize)) stop"
proof -
  have "unat (pos + 2 ^ k) = unat pos + 2 ^ k"
    using assms by (subst unat_add_no_wrap) (simp_all add: unat_pow2)
  then show ?thesis using assms(1) by (simp add: stride.simps [of _ "unat pos"])
qed

lemma exec_probe_next:
  assumes "unat pos < stop" and "stop + 2 ^ k < 2 ^ 64" and "k < 64"
    and "exec L (first_byte (rm_ptr raw + pos) 1) s = (e, s')"
  shows "exec L (probe_program raw (2 ^ k) (unat pos) stop) s =
     (case e of
        Finished b \<Rightarrow> exec L (probe_program raw (2 ^ k) (unat (pos + 2 ^ k)) stop) s'
      | Faulted a \<Rightarrow> (Faulted a, s') | Died \<Rightarrow> (Died, s'))"
  using assms(4)
  by (auto simp: probe_program_def stride_next [OF assms(1-3)] exec_first_byte
      split: prod.splits mem_result.splits)

lemma probe_loop_recovers:
  assumes pg: "page_pow2 L k" and inv: "mm_inv L (m, w)" and np: "\<not> poisoned m"
    and fits: "holds_slice (sm_raw m) off len"
    and fuel: "length (stride (2 ^ k) (unat pos) (unat off + unat len)) < n"
  shows "recovers L (probe_loop L t \<lparr>rg_raw = sm_raw m\<rparr> (2 ^ k) off len n pos)
           (probe_program (sm_raw m) (2 ^ k) (unat pos) (unat off + unat len)) (m, w)"
  using inv fuel
proof (induction n arbitrary: pos w)
  case (Suc n)
  let ?raw = "sm_raw m" and ?g = "\<lparr>rg_raw = sm_raw m\<rparr>" and ?stop = "unat off + unat len"
  have env: "signal_ok L" "sig_inv w" "mapped L w (rg_raw ?g)" and ok: "raw_ok L ?raw"
    using Suc.prems(1) by (simp_all add: mm_inv_def env_inv_def mapped_def)
  have len: "?stop \<le> unat (rm_len ?raw)" using fits by (simp add: holds_slice_def)
  have page: "?stop + 2 ^ k < 2 ^ 64" by (rule raw_ok_in_range [OF pg ok len])
  have k: "k < 64" using pg by (simp add: page_pow2_def)
  show ?case
  proof (cases "unat pos < ?stop")
    case False
    then have "stride (2 ^ k) (unat pos) ?stop = []" by (simp add: stride.simps)
    moreover have "probe_loop L t ?g (2 ^ k) off len (Suc n) pos (m, w) = (Ret (Inr ()), (m, w))"
      using False page by (intro probe_loop_end) linarith+
    ultimately show ?thesis
      using Suc.prems(1) by (simp add: recovers_def probe_program_def)
  next
    case True
    have pos1: "unat pos + unat (1 :: usize) \<le> unat (rm_len (rg_raw ?g))" using True len by simp
    obtain e s where ex: "exec L (first_byte (rm_ptr ?raw + pos) 1) (os w) = (e, s)" by fastforce
    obtain w1 where w1: "read_guard_read L t ?g pos 1 first_byte w = (guard_outcome e, w1)"
        "os w1 = s" "regs w1 = regs w" "e \<noteq> Died \<longrightarrow> sig_inv w1"
      using read_guard_read_exact [OF env pos1, of first_byte t] slice_safe_first_byte ex by auto
    note op = probe_loop_next [OF page k True w1(1), of n m]
    note prog = exec_probe_next [OF True page k ex]
    show ?thesis
    proof (cases e)
      case (Finished b)
      then have "mm_inv L (m, w1)" using w1 mm_inv_world [OF Suc.prems(1)] by simp
      then have "recovers L (probe_loop L t ?g (2 ^ k) off len n (pos + 2 ^ k))
          (probe_program ?raw (2 ^ k) (unat (pos + 2 ^ k)) ?stop) (m, w1)"
        using Suc.prems(2) stride_next [OF True page k] by (intro Suc.IH) simp_all
      then show ?thesis by (rule recovers_step) (use Finished op prog w1(2,3) in simp_all)
    qed (intro recoversI [OF Suc.prems(1) np _ w1(2,3)], use prog w1(4) op in auto)+
  qed
qed simp

lemma safe_mmap_probe_recovers:
  assumes pg: "page_pow2 L k" and inv: "mm_inv L (m, w)" and np: "\<not> poisoned m"
    and fits: "holds_slice (sm_raw m) off len"
  shows "recovers L (safe_mmap_probe L t off len)
           (probe_program (sm_raw m) (2 ^ k) (unat off) (unat off + unat len)) (m, w)"
proof -
  let ?n = "unat len div unat (2 ^ k :: usize) + 2"
  obtain w1 where g: "safe_mmap_guard L (m, w) = (Ret \<lparr>rg_raw = sm_raw m\<rparr>, (m, w1))"
      "mm_inv L (m, w1)" "os w1 = os w" "regs w1 = regs w"
    using guard_ok [OF inv] by blast
  have "unat (2 ^ k :: usize) = 2 ^ k" using pg by (simp add: page_pow2_def unat_pow2)
  then have "length (stride (2 ^ k) (unat off) (unat off + unat len)) < ?n"
    using stride_length [of "2 ^ k" "unat off" "unat off + unat len"] by simp
  then have "recovers L (probe_loop L t \<lparr>rg_raw = sm_raw m\<rparr> (2 ^ k) off len ?n off)
           (probe_program (sm_raw m) (2 ^ k) (unat off) (unat off + unat len)) (m, w1)"
    by (rule probe_loop_recovers [OF pg g(2) np fits])
  then show ?thesis
    by (rule recovers_step)
      (use g np fits pg in \<open>simp_all add: safe_mmap_probe_def check_bounds_apply\<close>)
qed

section \<open>Interfaces\<close>

text \<open>An operation that a poisoned mapping refuses without touching memory.\<close>

locale poison_gated =
  fixes op :: "('os mm, access_error + 'r) comp"
  assumes gate: "poisoned m \<Longrightarrow> op (m, w) = (Ret (Inl (Poisoned (sigbus_count m))), (m, w))"

text \<open>Retrying an operation a number of times, collecting the results.\<close>

primrec attempts :: "('s, 'a) comp \<Rightarrow> nat \<Rightarrow> ('s, 'a list) comp" where
  "attempts op 0 = ret []"
| "attempts op (Suc n) = and_then op (\<lambda>r. and_then (attempts op n) (\<lambda>rs. ret (r # rs)))"

text \<open>The number of faults a mapping still takes before it is poisoned.\<close>

definition patience :: "'os safe_mmap \<Rightarrow> nat" where
  "patience m =
     (if poisoned m then 0 else max 1 (unat (max_sigbus m) - unat (sigbus_count m)))"

lemma patience_zero_iff: "patience m = 0 \<longleftrightarrow> poisoned m"
  by (simp add: patience_def)

lemma patience_faulted:
  assumes "poison_inv m" and "\<not> poisoned m"
  shows "patience m = Suc (patience (faulted m))"
  using assms count_succ [OF assms]
  by (auto simp: patience_def faulted_def poison_inv_def word_le_nat_alt word_less_nat_alt)

text \<open>
  A protected accessor: gated by the poison flag, and otherwise it recovers from the faults of
  its memory program, whose shape depends on the raw mapping only.
\<close>

locale accessor = poison_gated op
  for op :: "('os mm, access_error + 'r) comp" +
  fixes L :: "'os libc" and prog :: "raw_mmap \<Rightarrow> 'r access" and pre :: "raw_mmap \<Rightarrow> bool"
  assumes spec: "mm_inv L (m, w) \<Longrightarrow> \<not> poisoned m \<Longrightarrow> pre (sm_raw m) \<Longrightarrow>
      recovers L op (prog (sm_raw m)) (m, w)"
begin

lemma returns:
  assumes inv: "mm_inv L (m, w)" and pre: "pre (sm_raw m)"
    and alive: "fst (exec L (prog (sm_raw m)) (os w)) \<noteq> Died"
  shows "\<exists>r m' w'. op (m, w) = (Ret r, (m', w')) \<and> mm_inv L (m', w') \<and> sm_raw m' = sm_raw m
     \<and> m' = (case r of Inl (Sigbus a) \<Rightarrow> faulted m | _ \<Rightarrow> m)
     \<and> (poisoned m \<longleftrightarrow> (\<exists>c. r = Inl (Poisoned c))) \<and> (on_event m = None \<longrightarrow> regs w' = regs w)"
proof (cases "poisoned m")
  case True
  with gate inv show ?thesis by simp
next
  case False
  with spec [OF inv False pre] alive show ?thesis
    by (auto simp: recovers_def faulted_def notify_silent split: prod.splits ending.splits)
qed

lemma failures:
  assumes "mm_inv L (m, w)" and "pre (sm_raw m)" and "fst (exec L (prog (sm_raw m)) (os w)) \<noteq> Died"
    and op: "op (m, w) = (Ret (Inl e), mm')"
  shows "(\<exists>a. e = Sigbus a) \<or> (\<exists>c. e = Poisoned c)"
proof (cases "poisoned m")
  case True
  with gate op show ?thesis by auto
next
  case False
  with spec [OF assms(1) False assms(2)] assms(3) op show ?thesis
    by (auto simp: recovers_def split: prod.splits ending.splits)
qed

lemma retry_poisoned: "poisoned m \<Longrightarrow>
    attempts op n (m, w) = (Ret (replicate n (Inl (Poisoned (sigbus_count m)))), (m, w))"
  by (induction n) (simp_all add: gate)

lemma retry_faulting:
  assumes "mm_inv L (m, w)" and pre: "pre (sm_raw m)"
    and bad: "\<And>s. fst (exec L (prog (sm_raw m)) s) = Faulted a"
  shows "\<exists>m' w'. attempts op n (m, w)
      = (Ret (replicate (min n (patience m)) (Inl (Sigbus a))
             @ replicate (n - patience m) (Inl (Poisoned (max 1 (max_sigbus m))))), (m', w'))
     \<and> mm_inv L (m', w') \<and> (poisoned m' \<longleftrightarrow> patience m \<le> n)"
  using assms
proof (induction n arbitrary: m w)
  case 0
  then show ?case by (auto simp: patience_zero_iff)
next
  case (Suc n)
  have pi: "poison_inv m" using Suc.prems(1) by (simp add: mm_inv_def)
  show ?case
  proof (cases "poisoned m")
    case True
    then have "sigbus_count m = max 1 (max_sigbus m)" using pi by (simp add: poison_inv_def)
    with True retry_poisoned [OF True, of "Suc n" w] Suc.prems(1) show ?thesis
      by (intro exI [of _ m] exI [of _ w]) (simp add: patience_zero_iff [THEN iffD2])
  next
    case False
    obtain s where ex: "exec L (prog (sm_raw m)) (os w) = (Faulted a, s)"
      using Suc.prems(3) by (metis prod.collapse)
    then obtain w1 where op: "op (m, w) = (Ret (Inl (Sigbus a)), (faulted m, w1))"
        and inv1: "mm_inv L (faulted m, w1)"
      using spec [OF Suc.prems(1) False Suc.prems(2)] by (auto simp: recovers_def)
    have same: "sm_raw (faulted m) = sm_raw m" "max_sigbus (faulted m) = max_sigbus m"
      by (simp_all add: faulted_def)
    obtain m' w' where ih: "attempts op n (faulted m, w1)
        = (Ret (replicate (min n (patience (faulted m))) (Inl (Sigbus a))
             @ replicate (n - patience (faulted m)) (Inl (Poisoned (max 1 (max_sigbus m))))), (m', w'))"
        "mm_inv L (m', w')" "poisoned m' \<longleftrightarrow> patience (faulted m) \<le> n"
      using Suc.IH [OF inv1] Suc.prems(2,3) unfolding same by blast
    then show ?thesis
      using op patience_faulted [OF pi False] by simp
  qed
qed

end

text \<open>A caller buffer in ordinary memory.\<close>

definition steady_buffer :: "'os libc \<Rightarrow> usize \<Rightarrow> usize \<Rightarrow> bool" where
  "steady_buffer L buf n \<longleftrightarrow>
     unat buf + unat n < 2 ^ 64 \<and> (\<forall>a. in_slice buf n a \<longrightarrow> steady L a)"

lemma steady_buffer_ok: "steady_buffer L buf n \<Longrightarrow> buffer_ok L w buf n"
  by (simp add: steady_buffer_def buffer_ok_def recoverable_def)

lemma check_poisoned_gate [simp]:
  "poisoned m \<Longrightarrow> check_poisoned (m, w) = (Ret (Inl (Poisoned (sigbus_count m))), (m, w))"
  by (simp add: check_poisoned_def)

lemma accessor_gates:
  assumes "poisoned m"
  shows "safe_mmap_read L t start stop f (m, w) = (Ret (Inl (Poisoned (sigbus_count m))), (m, w))"
    and "safe_mmap_write L t off data n (m, w) = (Ret (Inl (Poisoned (sigbus_count m))), (m, w))"
    and "safe_mmap_read_into L t off buf n (m, w) = (Ret (Inl (Poisoned (sigbus_count m))), (m, w))"
    and "safe_mmap_probe L t off n (m, w) = (Ret (Inl (Poisoned (sigbus_count m))), (m, w))"
  using assms
  by (simp_all add: safe_mmap_read_def safe_mmap_write_def safe_mmap_read_into_def
      safe_mmap_probe_def)

interpretation acc_read: accessor "safe_mmap_read L t start stop f" L
    "\<lambda>raw. f (rm_ptr raw + start) (stop - start)"
    "\<lambda>raw. start \<le> stop \<and> stop \<le> rm_len raw \<and> slice_safe f (rm_ptr raw + start) (stop - start)"
  for L t start stop f
  by unfold_locales (simp_all add: accessor_gates safe_mmap_read_recovers)

interpretation acc_write: accessor "safe_mmap_write L t off data n" L
    "\<lambda>raw. copy_nonoverlapping L data (rm_ptr raw + off) n"
    "\<lambda>raw. copy_law L \<and> holds_slice raw off n \<and> rm_writable raw \<and> steady_buffer L data n"
  for L t off data n
  by unfold_locales
    (simp_all add: accessor_gates safe_mmap_write_recovers steady_buffer_ok)

interpretation acc_read_into: accessor "safe_mmap_read_into L t off buf n" L
    "\<lambda>raw. copy_nonoverlapping L (rm_ptr raw + off) buf n"
    "\<lambda>raw. copy_law L \<and> holds_slice raw off n \<and> steady_buffer L buf n"
  for L t off buf n
  by unfold_locales
    (simp_all add: accessor_gates safe_mmap_read_into_recovers steady_buffer_ok)

interpretation acc_probe: accessor "safe_mmap_probe L t off len" L
    "\<lambda>raw. probe_program raw (unat (SC_PAGESIZE L)) (unat off) (unat off + unat len)"
    "\<lambda>raw. (\<exists>k. page_pow2 L k) \<and> holds_slice raw off len"
  for L :: "'os libc" and t off len
proof
  fix m :: "'os safe_mmap" and w :: "'os world"
  assume "poisoned m"
  then show "safe_mmap_probe L t off len (m, w) = (Ret (Inl (Poisoned (sigbus_count m))), (m, w))"
    by (rule accessor_gates)
next
  fix m :: "'os safe_mmap" and w :: "'os world"
  assume a: "mm_inv L (m, w)" "\<not> poisoned m" "(\<exists>k. page_pow2 L k) \<and> holds_slice (sm_raw m) off len"
  then obtain k where k: "page_pow2 L k" by blast
  then have "unat (SC_PAGESIZE L) = 2 ^ k" by (simp add: page_pow2_def unat_pow2)
  with safe_mmap_probe_recovers [OF k a(1,2)] a(3)
  show "recovers L (safe_mmap_probe L t off len)
     (probe_program (sm_raw m) (unat (SC_PAGESIZE L)) (unat off) (unat off + unat len)) (m, w)" by simp
qed

section \<open>Properties of the accessors\<close>

text \<open>
  C9: \<open>SafeMmap::read\<close> of a range inside the mapping returns the closure's value; or, when the
  closure hits a lost page, the fault address, which lies in the range, after counting the fault
  and telling the callback; only a segmentation fault is fatal.
\<close>

theorem read_recovers:
  assumes "mm_inv L (m, w)" and "\<not> poisoned m" and "start \<le> stop" and "stop \<le> rm_len (sm_raw m)"
    and f: "slice_safe f (rm_ptr (sm_raw m) + start) (stop - start)"
  shows "recovers L (safe_mmap_read L t start stop f) (f (rm_ptr (sm_raw m) + start) (stop - start)) (m, w)
     \<and> (\<forall>a s. exec L (f (rm_ptr (sm_raw m) + start) (stop - start)) (os w) = (Faulted a, s) \<longrightarrow>
            in_slice (rm_ptr (sm_raw m) + start) (stop - start) a)"
  using safe_mmap_read_recovers [OF assms, of t] guard_fault_in_slice [OF f, of L "os w"] by blast

text \<open>
  C10: \<open>SafeMmap::write\<close> into a writable mapping copies the data, or stops at the first lost page
  and returns its address, counted and reported, whatever order the copy visits the bytes in.
\<close>

theorem write_recovers:
  assumes "mm_inv L (m, w)" and "\<not> poisoned m" and "copy_law L"
    and "holds_slice (sm_raw m) off n" and "rm_writable (sm_raw m)" and "buffer_ok L w data n"
  shows "recovers L (safe_mmap_write L t off data n)
           (copy_nonoverlapping L data (rm_ptr (sm_raw m) + off) n) (m, w)"
  using assms by (rule safe_mmap_write_recovers)

text \<open>
  \<open>SafeMmap::read_into\<close> copies the range into the caller's buffer, or stops at the first lost
  page and returns its address, counted and reported.
\<close>

theorem read_into_recovers:
  assumes "mm_inv L (m, w)" and "\<not> poisoned m" and "copy_law L"
    and "holds_slice (sm_raw m) off n" and "buffer_ok L w buf n"
  shows "recovers L (safe_mmap_read_into L t off buf n)
           (copy_nonoverlapping L (rm_ptr (sm_raw m) + off) buf n) (m, w)"
  using assms by (rule safe_mmap_read_into_recovers)

text \<open>
  C11: \<open>SafeMmap::probe\<close>, a loop of separate protected reads, is equivalent to one protected pass
  that loads a byte at every page stride of the range; the loop always ends.
\<close>

theorem probe_is_one_pass:
  assumes "page_pow2 L k" and "mm_inv L (m, w)" and "\<not> poisoned m" and "holds_slice (sm_raw m) off len"
  shows "recovers L (safe_mmap_probe L t off len)
           (probe_program (sm_raw m) (2 ^ k) (unat off) (unat off + unat len)) (m, w)"
  using assms by (rule safe_mmap_probe_recovers)

text \<open>
  C12: retrying a read that keeps faulting returns the fault exactly as often as the limit allows
  (at least once), and \<open>Poisoned\<close>, with the limit as its count, on every further attempt.
\<close>

theorem faulting_read_poisons:
  assumes "mm_inv L (m, w)" and "start \<le> stop" and "stop \<le> rm_len (sm_raw m)"
    and "slice_safe f (rm_ptr (sm_raw m) + start) (stop - start)"
    and "\<And>s. fst (exec L (f (rm_ptr (sm_raw m) + start) (stop - start)) s) = Faulted a"
  shows "\<exists>m' w'. attempts (safe_mmap_read L t start stop f) n (m, w)
      = (Ret (replicate (min n (patience m)) (Inl (Sigbus a))
             @ replicate (n - patience m) (Inl (Poisoned (max 1 (max_sigbus m))))), (m', w'))
     \<and> mm_inv L (m', w') \<and> (poisoned m' \<longleftrightarrow> patience m \<le> n)"
  using acc_read.retry_faulting [of L m w start stop f a] assms by blast

end
