(* ===== verification/Mmap_Session.thy ===== *)
theory Mmap_Session
  imports Mmap_Access
begin

text \<open>
  Arbitrary sequences of operations on one open mapping, related to the abstract specification
  of the poisoning policy: a fault counter with a limit. Also the behaviour of the accessors on
  every rejecting branch, and the round trip of a write and a copy back.
\<close>

section \<open>Sequences of operations\<close>

datatype mm_op =
    OpRead usize usize "unit slice_fn"
  | OpWrite usize usize usize
  | OpReadInto usize usize usize
  | OpProbe usize usize
  | OpReset

fun mm_step :: "'os libc \<Rightarrow> tid \<Rightarrow> mm_op \<Rightarrow> ('os mm, access_error + unit) comp" where
  "mm_step L t (OpRead start stop f) = safe_mmap_read L t start stop f"
| "mm_step L t (OpWrite off data n) = safe_mmap_write L t off data n"
| "mm_step L t (OpReadInto off buf n) = safe_mmap_read_into L t off buf n"
| "mm_step L t (OpProbe off len) = safe_mmap_probe L t off len"
| "mm_step L t OpReset = and_then reset_poison (\<lambda>_. ret (Inr ()))"

primrec mm_run ::
    "'os libc \<Rightarrow> tid \<Rightarrow> mm_op list \<Rightarrow> ('os mm, (access_error + unit) list) comp" where
  "mm_run L t [] = ret []"
| "mm_run L t (op # ops) =
     and_then (mm_step L t op) (\<lambda>r. and_then (mm_run L t ops) (\<lambda>rs. ret (r # rs)))"

text \<open>
  Operations with arguments in range, closures that keep to their slice and buffers in ordinary
  memory, none of whose accesses is a segmentation fault.
\<close>

definition survives :: "'os libc \<Rightarrow> 'r access \<Rightarrow> bool" where
  "survives L q \<longleftrightarrow> (\<forall>s. fst (exec L q s) \<noteq> Died)"

fun admissible :: "'os libc \<Rightarrow> raw_mmap \<Rightarrow> mm_op \<Rightarrow> bool" where
  "admissible L raw (OpRead start stop f) \<longleftrightarrow>
     start \<le> stop \<and> stop \<le> rm_len raw \<and> slice_safe f (rm_ptr raw + start) (stop - start)
     \<and> survives L (f (rm_ptr raw + start) (stop - start))"
| "admissible L raw (OpWrite off data n) \<longleftrightarrow>
     copy_law L \<and> holds_slice raw off n \<and> rm_writable raw \<and> steady_buffer L data n
     \<and> survives L (copy_nonoverlapping L data (rm_ptr raw + off) n)"
| "admissible L raw (OpReadInto off buf n) \<longleftrightarrow>
     copy_law L \<and> holds_slice raw off n \<and> steady_buffer L buf n
     \<and> survives L (copy_nonoverlapping L (rm_ptr raw + off) buf n)"
| "admissible L raw (OpProbe off len) \<longleftrightarrow>
     (\<exists>k. page_pow2 L k) \<and> holds_slice raw off len
     \<and> survives L (probe_program raw (unat (SC_PAGESIZE L)) (unat off) (unat off + unat len))"
| "admissible L raw OpReset \<longleftrightarrow> True"

section \<open>The abstract policy\<close>

text \<open>
  The specification counts faults: an access is refused exactly when the count has reached the
  limit, a fault adds one, a reset starts again from zero.
\<close>

definition limit :: "'os safe_mmap \<Rightarrow> nat" where
  "limit m = max 1 (unat (max_sigbus m))"

definition faults :: "'os safe_mmap \<Rightarrow> nat" where
  "faults m = unat (sigbus_count m)"

fun policy_step :: "nat \<Rightarrow> nat \<Rightarrow> mm_op \<Rightarrow> access_error + unit \<Rightarrow> nat option" where
  "policy_step lim n OpReset r = (if r = Inr () then Some 0 else None)"
| "policy_step lim n op (Inl (Poisoned c)) = (if lim \<le> n \<and> unat c = n then Some n else None)"
| "policy_step lim n op (Inl (Sigbus a)) = (if n < lim then Some (n + 1) else None)"
| "policy_step lim n op r = (if n < lim then Some n else None)"

fun policy_run :: "nat \<Rightarrow> nat \<Rightarrow> (mm_op \<times> (access_error + unit)) list \<Rightarrow> nat option" where
  "policy_run lim n [] = Some n"
| "policy_run lim n ((op, r) # rest) =
     (case policy_step lim n op r of None \<Rightarrow> None | Some n' \<Rightarrow> policy_run lim n' rest)"

lemma poison_inv_iff:
  "poison_inv m \<longleftrightarrow> faults m \<le> limit m \<and> (poisoned m \<longleftrightarrow> limit m \<le> faults m)"
  by (auto simp: poison_inv_def faults_def limit_def max_def word_le_nat_alt word_less_nat_alt
      word_unat_eq_iff)

lemma policy_access:
  assumes "op \<noteq> OpReset" and pi: "poison_inv m"
    and m': "m' = (case r of Inl (Sigbus a) \<Rightarrow> faulted m | _ \<Rightarrow> m)"
    and gate: "poisoned m \<longleftrightarrow> (\<exists>c. r = Inl (Poisoned c))"
    and cnt: "\<And>c. r = Inl (Poisoned c) \<Longrightarrow> c = sigbus_count m"
  shows "policy_step (limit m) (faults m) op r = Some (faults m')"
proof -
  have p: "poisoned m \<longleftrightarrow> limit m \<le> faults m" using pi by (simp add: poison_inv_iff)
  have f: "\<not> poisoned m \<Longrightarrow> faults (faulted m) = faults m + 1"
    using count_succ [OF pi] by (simp add: faults_def faulted_def)
  show ?thesis
  proof (cases r)
    case (Inl e)
    then show ?thesis
      using assms p f by (cases op; cases e) (auto simp: not_le faults_def)
  next
    case (Inr u)
    then show ?thesis using assms p by (cases op) (auto simp: not_le)
  qed
qed

text \<open>Every accessor, through its interface: it returns, and its result follows the policy.\<close>

lemma accessor_step:
  assumes acc: "accessor op L prog pre" and inv: "mm_inv L (m, w)" and pre: "pre (sm_raw m)"
    and alive: "survives L (prog (sm_raw m))"
  shows "\<exists>r m' w'. op (m, w) = (Ret r, (m', w')) \<and> mm_inv L (m', w') \<and> sm_raw m' = sm_raw m
     \<and> limit m' = limit m \<and> on_event m' = on_event m \<and> (on_event m = None \<longrightarrow> regs w' = regs w)
     \<and> (\<forall>o'. o' \<noteq> OpReset \<longrightarrow> policy_step (limit m) (faults m) o' r = Some (faults m'))"
proof -
  have "fst (exec L (prog (sm_raw m)) (os w)) \<noteq> Died" using alive by (simp add: survives_def)
  from accessor.returns [OF acc inv pre this] obtain r m' w' where
    r: "op (m, w) = (Ret r, (m', w'))" "mm_inv L (m', w')" "sm_raw m' = sm_raw m"
      "m' = (case r of Inl (Sigbus a) \<Rightarrow> faulted m | _ \<Rightarrow> m)"
      "poisoned m \<longleftrightarrow> (\<exists>c. r = Inl (Poisoned c))" "on_event m = None \<longrightarrow> regs w' = regs w"
    by (elim exE conjE) (rule that)
  have "r = Inl (Poisoned c) \<Longrightarrow> c = sigbus_count m" for c
  proof -
    assume c: "r = Inl (Poisoned c)"
    then have "poisoned m" using r(5) by blast
    then show "c = sigbus_count m"
      using poison_gated.gate [of op m w] acc r(1) c by (simp add: accessor_def)
  qed
  moreover have "poison_inv m" using inv by (simp add: mm_inv_def)
  ultimately have "o' \<noteq> OpReset \<Longrightarrow> policy_step (limit m) (faults m) o' r = Some (faults m')" for o'
    using policy_access r(4,5) by blast
  moreover have "limit m' = limit m \<and> on_event m' = on_event m"
    using r(4) by (auto simp: limit_def faulted_def split: sum.splits access_error.splits)
  ultimately show ?thesis
    using r(1-3,6) by (intro exI [of _ r] exI [of _ m'] exI [of _ w']) simp
qed

lemma reset_step:
  assumes "mm_inv L (m, w)"
  shows "\<exists>m'. mm_step L t OpReset (m, w) = (Ret (Inr ()), (m', w)) \<and> mm_inv L (m', w)
     \<and> sm_raw m' = sm_raw m \<and> limit m' = limit m \<and> on_event m' = on_event m \<and> faults m' = 0"
proof -
  let ?m = "m\<lparr>sigbus_count := 0, poisoned := False\<rparr>"
  have "mm_step L t OpReset (m, w) = (Ret (Inr ()), (?m, w))"
    by (simp add: reset_poison_def and_then_assoc)
  moreover have "mm_inv L (?m, w)"
    using assms by (simp add: mm_inv_def env_inv_fields poison_inv_def)
  ultimately show ?thesis by (intro exI [of _ ?m]) (simp add: limit_def faults_def)
qed

lemma mm_step_policy:
  assumes inv: "mm_inv L (m, w)" and adm: "admissible L (sm_raw m) op"
  shows "\<exists>r m' w'. mm_step L t op (m, w) = (Ret r, (m', w')) \<and> mm_inv L (m', w')
     \<and> sm_raw m' = sm_raw m \<and> limit m' = limit m \<and> on_event m' = on_event m
     \<and> (on_event m = None \<longrightarrow> regs w' = regs w)
     \<and> policy_step (limit m) (faults m) op r = Some (faults m')"
proof (cases op)
  case (OpRead start stop f)
  show ?thesis
    using accessor_step [OF acc_read.accessor_axioms inv, of start stop f t] adm OpRead by auto
next
  case (OpWrite off data n)
  show ?thesis
    using accessor_step [OF acc_write.accessor_axioms inv, of off n data t] adm OpWrite by auto
next
  case (OpReadInto off buf n)
  show ?thesis
    using accessor_step [OF acc_read_into.accessor_axioms inv, of off n buf t] adm OpReadInto by auto
next
  case (OpProbe off len)
  show ?thesis
    using accessor_step [OF acc_probe.accessor_axioms inv, of off len t] adm OpProbe by auto
next
  case OpReset
  then show ?thesis using reset_step [OF inv, of t] by force
qed

lemma mm_run_ok:
  assumes "mm_inv L (m, w)" and "list_all (admissible L (sm_raw m)) ops"
  shows "\<exists>rs m' w'. mm_run L t ops (m, w) = (Ret rs, (m', w')) \<and> mm_inv L (m', w')
     \<and> length rs = length ops \<and> sm_raw m' = sm_raw m \<and> (on_event m = None \<longrightarrow> regs w' = regs w)
     \<and> policy_run (limit m) (faults m) (zip ops rs) = Some (faults m')"
  using assms
proof (induction ops arbitrary: m w)
  case (Cons op ops)
  obtain r m1 w1 where 1: "mm_step L t op (m, w) = (Ret r, (m1, w1))" "mm_inv L (m1, w1)"
      "sm_raw m1 = sm_raw m" "limit m1 = limit m" "on_event m1 = on_event m"
      "on_event m = None \<longrightarrow> regs w1 = regs w"
      "policy_step (limit m) (faults m) op r = Some (faults m1)"
    using mm_step_policy [OF Cons.prems(1)] Cons.prems(2) by fastforce
  obtain rs m' w' where "mm_run L t ops (m1, w1) = (Ret rs, (m', w'))" "mm_inv L (m', w')"
      "length rs = length ops" "sm_raw m' = sm_raw m" "on_event m = None \<longrightarrow> regs w' = regs w1"
      "policy_run (limit m) (faults m1) (zip ops rs) = Some (faults m')"
    using Cons.IH [OF 1(2)] Cons.prems(2) 1(3-5) by auto
  with 1 show ?case by (intro exI [of _ "r # rs"] exI [of _ m'] exI [of _ w']) simp
qed simp

text \<open>
  C4: every sequence of admissible reads, writes, copies, probes and resets on an open mapping
  returns, keeps the mapping's invariant, and its results are exactly a trace of the abstract
  policy: a fault counter that refuses accesses once it has reached the limit.
\<close>

theorem mm_run_policy:
  assumes "mm_inv L (m, w)" and "list_all (admissible L (sm_raw m)) ops"
  shows "\<exists>rs m' w'. mm_run L t ops (m, w) = (Ret rs, (m', w')) \<and> mm_inv L (m', w')
     \<and> length rs = length ops \<and> policy_run (limit m) (faults m) (zip ops rs) = Some (faults m')"
  using mm_run_ok [OF assms, of t] by blast

section \<open>Rejected accesses\<close>

text \<open>
  A read whose range ends beyond the mapping is rejected with the requested range; no byte is
  accessed and no fault is counted.
\<close>

theorem read_beyond_rejected:
  assumes inv: "mm_inv L (m, w)" and np: "\<not> poisoned m" and "start \<le> stop" and "rm_len (sm_raw m) < stop"
  shows "\<exists>w'. safe_mmap_read L t start stop f (m, w)
      = (Ret (Inl (OutOfBounds start (stop - start) (rm_len (sm_raw m)))), (m, w'))
     \<and> mm_inv L (m, w') \<and> os w' = os w \<and> regs w' = regs w"
proof -
  obtain w1 where g: "safe_mmap_guard L (m, w) = (Ret \<lparr>rg_raw = sm_raw m\<rparr>, (m, w1))"
      "mm_inv L (m, w1)" "os w1 = os w" "regs w1 = regs w"
    using guard_ok [OF inv] by blast
  have "unat (rm_len (sm_raw m)) < unat start + unat (stop - start)"
    using assms(3,4) by (simp add: unat_sub_no_wrap word_le_nat_alt word_less_nat_alt)
  then have "read_guard_read L t \<lparr>rg_raw = sm_raw m\<rparr> start (stop - start) f w1
      = (Ret (Inl (OutOfBounds start (stop - start) (rm_len (sm_raw m)))), w1)"
    by (rule guard.rejects)
  then show ?thesis
    using g np assms(3) by (simp add: safe_mmap_read_def)
qed

text \<open>
  A reversed range given to \<open>SafeMmap::read\<close> is an arithmetic panic with overflow checks and
  an \<open>OutOfBounds\<close> error with a wrapped length without them.
\<close>

theorem read_reversed:
  assumes inv: "mm_inv L (m, w)" and np: "\<not> poisoned m" and rev: "stop < start"
  shows "fst (safe_mmap_read L t start stop f (m, w)) =
     (if overflow_checks L then Panicked ''attempt to subtract with overflow''
      else Ret (Inl (OutOfBounds start (stop - start) (rm_len (sm_raw m)))))"
proof -
  obtain w1 where g: "safe_mmap_guard L (m, w) = (Ret \<lparr>rg_raw = sm_raw m\<rparr>, (m, w1))"
    using guard_ok [OF inv] by blast
  have "(2::nat) ^ 64 \<le> unat start + unat (stop - start)"
  proof -
    have "unat (stop - start) = 2 ^ 64 - (unat start - unat stop)"
      using rev unat_sub_if_size [of stop start] unat_lt_64 [of start]
      by (auto simp: word_less_nat_alt word_size)
    then show ?thesis using rev unat_lt_64 [of start] by (simp add: word_less_nat_alt)
  qed
  then have "read_guard_read L t \<lparr>rg_raw = sm_raw m\<rparr> start (stop - start) f w1
      = (Ret (Inl (OutOfBounds start (stop - start) (rm_len (sm_raw m)))), w1)"
    by (rule guard.overflow_rejected)
  then show ?thesis
    using g np rev by (simp add: safe_mmap_read_def usize_sub_def and_then_def on_world_apply)
qed

text \<open>
  C35: on a mapping that is not poisoned, \<open>write\<close>, \<open>read_into\<close> and \<open>probe\<close> reject a range that
  does not fit in the mapping (also when its end overflows), and \<open>write\<close> then rejects a
  read-only mapping; nothing changes and no memory is touched.
\<close>

theorem invalid_accesses_rejected:
  assumes "\<not> poisoned m"
  shows "(\<not> holds_slice (sm_raw m) off n \<longrightarrow>
        safe_mmap_write L t off data n (m, w) = (Ret (Inl (OutOfBounds off n (rm_len (sm_raw m)))), (m, w))
      \<and> safe_mmap_read_into L t off buf n (m, w) = (Ret (Inl (OutOfBounds off n (rm_len (sm_raw m)))), (m, w))
      \<and> safe_mmap_probe L t off n (m, w) = (Ret (Inl (OutOfBounds off n (rm_len (sm_raw m)))), (m, w)))
     \<and> (holds_slice (sm_raw m) off n \<longrightarrow> \<not> rm_writable (sm_raw m) \<longrightarrow>
        safe_mmap_write L t off data n (m, w)
          = (Ret (Inl (Io (Custom PermissionDenied ''mapping is read-only''))), (m, w)))"
  using assms
  by (simp add: safe_mmap_write_def safe_mmap_read_into_def safe_mmap_probe_def check_bounds_apply
      as_mut_ptr_def)

interpretation lock: range_guarded "lock_range L"
    "\<lambda>m off len. Custom InvalidInput ''lock range exceeds mapping length''" for L
  by unfold_locales (simp add: lock_range_def range_rejected_iff)

interpretation unlock: range_guarded "unlock_range L"
    "\<lambda>m off len. Custom InvalidInput ''unlock range exceeds mapping length''" for L
  by unfold_locales (simp add: unlock_range_def range_rejected_iff)

text \<open>
  Every range operation rejects a range that does not fit in the mapping over the natural
  numbers, overflow of its end included, with its own error and without any system call.
\<close>

theorem range_operations_reject:
  assumes "unat (rm_len raw) < unat off + unat len"
  shows "advise_range L adv raw off len s
       = (Ret (Inl (Custom InvalidInput ''advise range exceeds mapping length'')), s)
    \<and> raw_flush L b raw off len s
       = (Ret (Inl (Custom InvalidInput ''flush range exceeds mapping length'')), s)
    \<and> raw_mincore L raw off len s
       = (Ret (Inl (Custom InvalidInput ''mincore range exceeds mapping length'')), s)
    \<and> lock_range L raw off len s
       = (Ret (Inl (Custom InvalidInput ''lock range exceeds mapping length'')), s)
    \<and> unlock_range L raw off len s
       = (Ret (Inl (Custom InvalidInput ''unlock range exceeds mapping length'')), s)"
  using assms by (simp add: advise.rejects flush.rejects mincore.rejects lock.rejects unlock.rejects)

section \<open>What a copy moves\<close>

text \<open>Memory that behaves as memory on the addresses \<open>P\<close>, through the view \<open>mem\<close>.\<close>

definition plain_memory :: "'os libc \<Rightarrow> ('os \<Rightarrow> usize \<Rightarrow> u8) \<Rightarrow> (usize \<Rightarrow> bool) \<Rightarrow> bool" where
  "plain_memory L mem P \<longleftrightarrow>
     (\<forall>a s. P a \<longrightarrow> mem_load L a s = (Value (mem s a), s)
        \<and> (\<forall>b. \<exists>v s'. mem_store L a b s = (Value v, s') \<and> mem s' = (mem s)(a := b)))"

definition disjoint_slices :: "usize \<Rightarrow> usize \<Rightarrow> usize \<Rightarrow> bool" where
  "disjoint_slices p q n \<longleftrightarrow> (\<forall>a. \<not> (in_slice p n a \<and> in_slice q n a))"

lemma copy_bytes_moves:
  assumes pm: "plain_memory L mem P" and "set is \<subseteq> {..<unat n}"
    and fits: "unat src + unat n < 2 ^ 64" "unat dst + unat n < 2 ^ 64"
    and P: "\<And>a. in_slice src n a \<or> in_slice dst n a \<Longrightarrow> P a"
    and dis: "disjoint_slices src dst n"
  shows "\<exists>s'. exec L (copy_bytes src dst is) s = (Finished (), s')
     \<and> mem s' = (\<lambda>a. if \<exists>i \<in> set is. a = dst + of_nat i then mem s (src + (a - dst)) else mem s a)"
  using assms(2)
proof (induction "is" arbitrary: s)
  case Nil
  then show ?case by simp
next
  case (Cons i "is")
  have i: "in_slice src n (src + of_nat i)" "in_slice dst n (dst + of_nat i)"
    using Cons.prems by (auto intro: in_slice_nth fits)
  have ld: "mem_load L (src + of_nat i) s = (Value (mem s (src + of_nat i)), s)"
    using pm P i(1) unfolding plain_memory_def by blast
  obtain v s1 where st: "mem_store L (dst + of_nat i) (mem s (src + of_nat i)) s = (Value v, s1)"
    and v: "mem s1 = (mem s)(dst + of_nat i := mem s (src + of_nat i))"
    using pm P i(2) unfolding plain_memory_def by meson
  obtain s' where s': "exec L (copy_bytes src dst is) s1 = (Finished (), s')"
    "mem s' = (\<lambda>a. if \<exists>j \<in> set is. a = dst + of_nat j then mem s1 (src + (a - dst)) else mem s1 a)"
    using Cons.IH [of s1] Cons.prems by auto
  have "src + of_nat j \<noteq> dst + of_nat i" if "j \<in> set is" for j
  proof -
    have "in_slice src n (src + of_nat j)" using that Cons.prems by (auto intro: in_slice_nth fits)
    with i(2) dis show ?thesis unfolding disjoint_slices_def by metis
  qed
  then have "mem s' a = (if \<exists>j \<in> set (i # is). a = dst + of_nat j then mem s (src + (a - dst)) else mem s a)" for a
    unfolding s'(2) v by (auto simp: fun_upd_def)
  with s'(1) ld st show ?case by (intro exI [of _ s']) auto
qed

lemma copy_moves:
  assumes pm: "plain_memory L mem P" and law: "copy_law L"
    and fits: "unat src + unat n < 2 ^ 64" "unat dst + unat n < 2 ^ 64"
    and P: "\<And>a. in_slice src n a \<or> in_slice dst n a \<Longrightarrow> P a"
    and dis: "disjoint_slices src dst n"
  shows "\<exists>s'. exec L (copy_nonoverlapping L src dst n) s = (Finished (), s')
     \<and> (\<forall>i < unat n. mem s' (dst + of_nat i) = mem s (src + of_nat i))
     \<and> (\<forall>a. \<not> in_slice dst n a \<longrightarrow> mem s' a = mem s a)"
proof -
  have set: "set (copy_order L (unat n)) = {..<unat n}" using law by (simp add: copy_law_def)
  obtain s' where s': "exec L (copy_bytes src dst (copy_order L (unat n))) s = (Finished (), s')"
    "mem s' = (\<lambda>a. if \<exists>i \<in> {..<unat n}. a = dst + of_nat i then mem s (src + (a - dst)) else mem s a)"
    using copy_bytes_moves [OF pm _ fits P dis, of "copy_order L (unat n)" s] set by auto
  have "mem s' a = mem s a" if "\<not> in_slice dst n a" for a
    using that in_slice_nth [OF fits(2)] by (auto simp: s'(2))
  with s' show ?thesis by (intro exI [of _ s']) (auto simp: copy_nonoverlapping_def)
qed

text \<open>
  C24: writing a buffer into the mapping and copying the same range back delivers the written
  bytes, for buffers in ordinary memory apart from the mapping.
\<close>

theorem write_read_into_roundtrip:
  assumes inv: "mm_inv L (m, w)" and np: "\<not> poisoned m" and law: "copy_law L"
    and pm: "plain_memory L mem P" and wr: "rm_writable (sm_raw m)"
    and fits: "holds_slice (sm_raw m) off n" "steady_buffer L data n" "steady_buffer L buf n"
    and P: "\<And>a. in_slice data n a \<or> in_slice buf n a \<or> in_slice (rm_ptr (sm_raw m) + off) n a \<Longrightarrow> P a"
    and dis: "disjoint_slices data (rm_ptr (sm_raw m) + off) n"
      "disjoint_slices (rm_ptr (sm_raw m) + off) buf n"
  shows "\<exists>w'. and_then (safe_mmap_write L t off data n) (\<lambda>_. safe_mmap_read_into L t off buf n) (m, w)
      = (Ret (Inr ()), (m, w')) \<and> mm_inv L (m, w')
     \<and> (\<forall>i < unat n. mem (os w') (buf + of_nat i) = mem (os w) (data + of_nat i))"
proof -
  let ?p = "rm_ptr (sm_raw m) + off"
  have b: "unat data + unat n < 2 ^ 64" "unat buf + unat n < 2 ^ 64"
    using fits(2,3) by (simp_all add: steady_buffer_def)
  note p = mm_inv_slice(1) [OF inv fits(1)]
  obtain s1 where s1: "exec L (copy_nonoverlapping L data ?p n) (os w) = (Finished (), s1)"
    "\<forall>i < unat n. mem s1 (?p + of_nat i) = mem (os w) (data + of_nat i)"
    using copy_moves [OF pm law b(1) p _ dis(1)] P by blast
  obtain w1 where w1: "safe_mmap_write L t off data n (m, w) = (Ret (Inr ()), (m, w1))"
      "os w1 = s1" "mm_inv L (m, w1)"
    using safe_mmap_write_recovers [OF inv np law fits(1) wr steady_buffer_ok [OF fits(2)], of t] s1(1)
    by (auto simp: recovers_def)
  obtain s2 where s2: "exec L (copy_nonoverlapping L ?p buf n) s1 = (Finished (), s2)"
    "\<forall>i < unat n. mem s2 (buf + of_nat i) = mem s1 (?p + of_nat i)"
    using copy_moves [OF pm law p b(2) _ dis(2)] P by blast
  obtain w2 where w2: "safe_mmap_read_into L t off buf n (m, w1) = (Ret (Inr ()), (m, w2))"
      "os w2 = s2" "mm_inv L (m, w2)"
    using safe_mmap_read_into_recovers [OF w1(3) np law fits(1) steady_buffer_ok [OF fits(3)], of t] s2(1)
      w1(2) by (auto simp: recovers_def)
  show ?thesis
    using w1(1) w2 s1(2) s2(2) by (intro exI [of _ w2]) simp
qed

end
