(* ===== verification/Mmap_Lifecycle.thy ===== *)
theory Mmap_Lifecycle
  imports Mmap_Session
begin

text \<open>
  Opening and dropping a safe mapping (\<^verbatim>\<open>src/mmap/mod.rs\<close>, \<open>SafeMmapOptions::open\<close>
  and \<open>Drop for SafeMmap\<close>): which lengths are mapped, that a successful open establishes the
  invariant the accessors rely on, that a failed one leaves nothing behind, and that dropping
  undoes the registration.
\<close>

section \<open>The length of the mapping\<close>

text \<open>
  The length that \<open>open\<close> maps is the requested one, or else the rest of the file from the
  offset on, computed without wrap-around; in either case it is not zero.
\<close>

theorem map_length_Inr_iff:
  "map_length so file_len = Inr n \<longleftrightarrow>
     n \<noteq> 0 \<and> (case so_len so of
                Some len \<Rightarrow> n = len
              | None \<Rightarrow> unat (so_offset so) + unat n = unat file_len)"
proof (cases "so_len so")
  case (Some len)
  then show ?thesis by (auto simp: map_length_def)
next
  case None
  show ?thesis
  proof (cases "file_len \<le> so_offset so")
    case True
    then have le: "unat file_len \<le> unat (so_offset so)" by (simp add: word_le_nat_alt)
    have "n \<noteq> 0 \<Longrightarrow> unat (so_offset so) + unat n \<noteq> unat file_len"
    proof -
      assume "n \<noteq> 0"
      then have "0 < unat n" by (simp add: unat_gt_0)
      with le show ?thesis by linarith
    qed
    moreover have "\<exists>e. map_length so file_len = Inl e" using True None by (simp add: map_length_def)
    ultimately show ?thesis using None by auto
  next
    case False
    then have lt: "unat (so_offset so) < unat file_len" by (simp add: word_le_nat_alt)
    then have u: "unat (file_len - so_offset so) = unat file_len - unat (so_offset so)"
      by (intro unat_sub_no_wrap) (simp add: word_le_nat_alt)
    have "n = file_len - so_offset so \<longleftrightarrow> unat (so_offset so) + unat n = unat file_len"
      using u lt by (auto simp: word_unat_eq_iff)
    moreover have "file_len - so_offset so \<noteq> 0" using u lt by (metis unat_0 zero_less_diff less_irrefl)
    moreover have "file_len \<noteq> 0" using lt by (metis unat_0 not_less0)
    ultimately show ?thesis using False None by (auto simp: map_length_def Let_def)
  qed
qed

lemma map_length_error:
  "map_length so file_len = Inl e \<Longrightarrow>
     e = EmptyFile \<and> (file_len = 0 \<or> so_len so = Some 0)
     \<or> so_len so = None \<and> file_len \<le> so_offset so \<and> e = OffsetBeyondFile (so_offset so) file_len"
  by (auto simp: map_length_def Let_def split: option.splits if_splits)

section \<open>Opening\<close>

lemma on_os_apply: "on_os c w = (fst (c (os w)), w\<lparr>os := snd (c (os w))\<rparr>)"
  by (simp add: on_os_def zoom_def split: prod.splits)

lemma on_os_syscall: "on_os (syscall f) w = (Ret (fst (f (os w))), w\<lparr>os := snd (f (os w))\<rparr>)"
  by (simp add: on_os_apply syscall_def split: prod.splits)

lemma try_io_Inl [simp]: "m s = (Ret (Inl e), s') \<Longrightarrow> try_io m k s = (Ret (Inl (MmapIo e)), s')"
  by (simp add: try_io_def)

lemma try_io_Inr [simp]: "m s = (Ret (Inr x), s') \<Longrightarrow> try_io m k s = k x s'"
  by (simp add: try_io_def)

lemma try_io_syscall:
  "try_io (on_os (syscall f)) k w =
     (case fst (f (os w)) of
        Inl e \<Rightarrow> (Ret (Inl (MmapIo e)), w\<lparr>os := snd (f (os w))\<rparr>)
      | Inr x \<Rightarrow> k x (w\<lparr>os := snd (f (os w))\<rparr>))"
  by (simp add: try_io_def and_then_def on_os_syscall split: sum.split)

lemma map_returns:
  assumes "0 < sint (SC_PAGESIZE L)"
  shows "\<exists>r s'. mmap_options_map L opts s = (Ret r, s')"
  using assms by (auto simp: mmap_options_map_def page_size_def Let_def last_os_error_def
      split: prod.splits)

lemma lock_file_returns:
  fixes w :: "'os world"
  shows "\<exists>r s'. lock_file L so fd w = (Ret r, w\<lparr>os := s'\<rparr>)"
proof (cases "so_flock so")
  case True
  then show ?thesis by (auto simp: lock_file_def Let_def on_os_apply os_result_apply)
next
  case False
  then have "lock_file L so fd w = (Ret (Inr ()), w\<lparr>os := os w\<rparr>)" by (simp add: lock_file_def)
  then show ?thesis by blast
qed

lemma install_sig_inv:
  assumes "signal_ok L" and "sig_inv w"
  shows "\<exists>w'. install L w = (Ret (), w') \<and> sig_inv w' \<and> os w' = os w \<and> regs w' = regs w"
proof -
  let ?w = "w\<lparr>handler_once := Complete, sigbus_action := SIGBUS_HANDLER\<rparr>"
  have "install L w = (Ret (), ?w)"
    using assms by (intro install_ok) (simp_all add: sig_inv_def signal_ok_def)
  moreover have "thread_inv ?w"
    by (rule thread_inv_cong [of w]) (use assms in \<open>simp_all add: sig_inv_def\<close>)
  ultimately show ?thesis
    using assms by (intro exI [of _ ?w]) (simp add: sig_inv_def handler_inv_def)
qed

text \<open>The last step: handler and registry.\<close>

lemma adopt_ok:
  assumes env: "signal_ok L" and inv: "sig_inv w" and ok: "raw_ok L raw"
  shows "\<exists>w'. and_then (install L) (\<lambda>_.
      and_then (on_regs (register (overflow_checks L) (rm_ptr raw) (rm_len raw))) (\<lambda>_. ret x)) w
      = (Ret x, w') \<and> sig_inv w' \<and> os w' = os w
      \<and> regions_of (regs w') = regions_of (regs w) @ [region_of raw]"
proof -
  obtain w1 where w1: "install L w = (Ret (), w1)" "sig_inv w1" "os w1 = os w" "regs w1 = regs w"
    using install_sig_inv [OF env inv] by blast
  have u: "usable (regs w1)" using w1(2) by (simp add: sig_inv_def)
  have nw: "unat (rm_ptr raw) + unat (rm_len raw) < 2 ^ 64" using ok by (simp add: raw_ok_def)
  let ?r = "published (regions_of (regs w1) @ [region_of raw]) (rotated (regs w1))"
  have "register (overflow_checks L) (rm_ptr raw) (rm_len raw) (regs w1) = (Ret (), ?r)"
    using register_ok [OF u, of "overflow_checks L"] nw by (simp add: region_of_def)
  then have "on_regs (register (overflow_checks L) (rm_ptr raw) (rm_len raw)) w1
      = (Ret (), w1\<lparr>regs := ?r\<rparr>)"
    by (simp add: on_regs_def zoom_def)
  moreover have "sig_inv (w1\<lparr>regs := ?r\<rparr>)"
    using w1(2) published_rotated_usable [OF u] by (rule sig_inv_regs)
  ultimately show ?thesis
    using w1 by (intro exI [of _ "w1\<lparr>regs := ?r\<rparr>"]) (simp add: regions_of_published)
qed

text \<open>What a finished call to \<open>open\<close> leaves: a registered mapping, or nothing but a closed file.\<close>

definition opened ::
    "'os libc \<Rightarrow> 'os safe_mmap_options \<Rightarrow> string \<Rightarrow> 'os world \<Rightarrow> 'os safe_mmap \<Rightarrow> 'os world \<Rightarrow> bool" where
  "opened L so path w m w' \<longleftrightarrow>
     raw_ok L (sm_raw m) \<and> regions_of (regs w') = regions_of (regs w) @ [region_of (sm_raw m)]
     \<and> rm_writable (sm_raw m) = so_writable so \<and> sm_path m = path
     \<and> (\<exists>file_len. map_length so file_len = Inr (rm_len (sm_raw m)))
     \<and> sigbus_count m = 0 \<and> \<not> poisoned m \<and> max_sigbus m = so_max_sigbus so
     \<and> on_event m = so_on_event so"

definition not_opened :: "'os libc \<Rightarrow> 'os safe_mmap_options \<Rightarrow> string \<Rightarrow> 'os world \<Rightarrow> 'os world \<Rightarrow> bool" where
  "not_opened L so path w w' \<longleftrightarrow>
     regs w' = regs w
     \<and> (case fst (fs_open L (so_writable so) path (os w)) of
          Inl e \<Rightarrow> True
        | Inr fd \<Rightarrow> \<exists>s. os w' = fs_close L fd s)"

definition fresh_mmap :: "'os safe_mmap_options \<Rightarrow> string \<Rightarrow> c_int \<Rightarrow> raw_mmap \<Rightarrow> 'os safe_mmap" where
  "fresh_mmap so path fd raw =
     \<lparr>sm_raw = raw, sm_path = path, sm_file = fd, sigbus_count = 0, poisoned = False,
      max_sigbus = so_max_sigbus so, on_event = so_on_event so\<rparr>"

lemma adopt_opened:
  fixes L :: "'os libc" and w :: "'os world"
  assumes env: "signal_ok L" "mmap_law L" "0 < sint (SC_PAGESIZE L)" and inv: "sig_inv w"
    and ml: "map_length so file_len = Inr map_len"
    and map: "mmap_options_map L (mapping_options so fd map_len) s = (Ret (Inr raw), s')"
  shows "\<exists>w'. and_then (install L) (\<lambda>_.
       and_then (on_regs (register (overflow_checks L) (rm_ptr raw) (rm_len raw)))
         (\<lambda>_. ret (Inr (fresh_mmap so path fd raw)))) (w\<lparr>os := s'\<rparr>)
       = (Ret (Inr (fresh_mmap so path fd raw) :: mmap_error + 'os safe_mmap), w')
     \<and> sig_inv w' \<and> opened L so path w (fresh_mmap so path fd raw) w'"
proof -
  let ?m = "Inr (fresh_mmap so path fd raw) :: mmap_error + 'os safe_mmap"
  have ok: "raw_ok L raw" "rm_len raw = map_len" "rm_writable raw = so_writable so"
    using map_raw_ok [OF env(2,3) map]
    by (auto simp: mapping_options_def Let_def mmap_options_defs)
  have "opened L so path w (fresh_mmap so path fd raw) w'"
    if "regions_of (regs w') = regions_of (regs w) @ [region_of raw]" for w'
    using ok that ml by (auto simp: opened_def fresh_mmap_def)
  then show ?thesis using adopt_ok [OF env(1) _ ok(1), of "w\<lparr>os := s'\<rparr>" ?m] inv by auto
qed

lemma map_file_ok:
  fixes L :: "'os libc" and w :: "'os world"
  assumes env: "signal_ok L" "mmap_law L" "0 < sint (SC_PAGESIZE L)" and inv: "sig_inv w"
  shows "(\<exists>e w'. map_file L so path fd w = (Ret (Inl e), w') \<and> sig_inv w' \<and> regs w' = regs w)
     \<or> (\<exists>m w'. map_file L so path fd w = (Ret (Inr m), w') \<and> sig_inv w' \<and> opened L so path w m w')"
proof -
  obtain r1 s1 where lock: "lock_file L so fd w = (Ret r1, w\<lparr>os := s1\<rparr>)"
    using lock_file_returns [of L so fd w] by auto
  show ?thesis
  proof (cases r1)
    case (Inl e)
    with lock inv show ?thesis by (simp add: map_file_def)
  next
    case r1: (Inr u)
    let ?w1 = "w\<lparr>os := s1\<rparr>" and ?q = "fs_len L fd s1"
    let ?w2 = "w\<lparr>os := snd ?q\<rparr>"
    show ?thesis
    proof (cases "fst ?q")
      case (Inl e)
      with lock r1 inv show ?thesis by (simp add: map_file_def try_io_syscall)
    next
      case len: (Inr file_len)
      show ?thesis
      proof (cases "map_length so file_len")
        case (Inl e)
        with lock r1 len inv show ?thesis by (simp add: map_file_def try_io_syscall)
      next
        case ml: (Inr map_len)
        let ?opts = "mapping_options so fd map_len"
        obtain r3 s3 where map: "mmap_options_map L ?opts (os ?w2) = (Ret r3, s3)"
          using map_returns [OF env(3)] by blast
        show ?thesis
        proof (cases r3)
          case (Inl e)
          with lock r1 len ml map inv show ?thesis
            by (simp add: map_file_def try_io_syscall on_os_apply)
        next
          case r3: (Inr raw)
          from adopt_opened [OF env inv ml map [unfolded r3], of path] lock r1 len ml map r3
          show ?thesis
            by (auto simp: map_file_def try_io_syscall on_os_apply on_unwind_def fresh_mmap_def)
        qed
      qed
    qed
  qed
qed

lemma open_ok:
  assumes env: "signal_ok L" "mmap_law L" "0 < sint (SC_PAGESIZE L)" and inv: "sig_inv w"
  shows "\<exists>r w'. safe_mmap_options_open L so path w = (Ret r, w') \<and> sig_inv w'
     \<and> (case r of Inl e \<Rightarrow> not_opened L so path w w' | Inr m \<Rightarrow> opened L so path w m w')"
proof -
  let ?o = "fs_open L (so_writable so) path (os w)"
  let ?w1 = "w\<lparr>os := snd ?o\<rparr>"
  show ?thesis
  proof (cases "fst ?o")
    case (Inl e)
    with inv show ?thesis
      by (simp add: safe_mmap_options_open_def try_io_syscall not_opened_def)
  next
    case (Inr fd)
    have inv1: "sig_inv ?w1" using inv by simp
    have o: "opened L so path ?w1 m w' = opened L so path w m w'" for m w'
      by (simp add: opened_def)
    from map_file_ok [OF env inv1, of so path fd] show ?thesis
    proof (elim disjE exE conjE, goal_cases)
      case (1 e w')
      then show ?thesis
        using Inr by (simp add: safe_mmap_options_open_def try_io_syscall unless_ok_def
            close_file_def not_opened_def) blast
    next
      case (2 m w')
      then show ?thesis
        using Inr o by (simp add: safe_mmap_options_open_def try_io_syscall unless_ok_def)
    qed
  qed
qed

lemma opened_mm_inv:
  assumes "signal_ok L" and "sig_inv w'" and "opened L so path w m w'" and "callback_ok L m"
  shows "mm_inv L (m, w')"
  using assms by (simp add: mm_inv_def env_inv_def opened_def mapped_def poison_inv_def)

text \<open>What the queries answer on a mapping that has just been opened.\<close>

lemma opened_queries:
  assumes "opened L so path w m w'"
  shows "safe_mmap_path m = path" and "safe_mmap_is_writable m = so_writable so"
    and "safe_mmap_sigbus_count m = 0" and "\<not> safe_mmap_is_poisoned m" and "\<not> safe_mmap_is_empty m"
    and "as_slice m = (rm_ptr (sm_raw m), safe_mmap_len m)"
    and "as_mut_slice m = (if so_writable so then Some (as_slice m) else None)"
  using assms
  by (auto simp: opened_def safe_mmap_path_def safe_mmap_is_writable_def safe_mmap_sigbus_count_def
      safe_mmap_is_poisoned_def safe_mmap_is_empty_def raw_is_empty_def safe_mmap_len_def as_slice_def
      as_mut_slice_def as_mut_ptr_def map_length_def Let_def split: if_splits option.splits)

section \<open>Dropping\<close>

lemma drop_ok:
  assumes inv: "sig_inv w"
  shows "\<exists>w'. safe_mmap_drop L m w = (Ret (), w') \<and> sig_inv w'
     \<and> os w' = fs_close L (sm_file m) (sys_munmap L (rm_ptr (sm_raw m)) (rm_len (sm_raw m)) (os w))
     \<and> regions_of (regs w') = filter (\<lambda>r. r_start r \<noteq> rm_ptr (sm_raw m)) (regions_of (regs w))"
proof -
  have u: "usable (regs w)" using inv by (simp add: sig_inv_def)
  obtain r' where r: "unregister (rm_ptr (sm_raw m)) (regs w) = (Ret (), r')" "usable r'"
    "regions_of r' = filter (\<lambda>r. r_start r \<noteq> rm_ptr (sm_raw m)) (regions_of (regs w))"
    using regions.unreg_spec [OF u] by blast
  have "sig_inv (w\<lparr>regs := r'\<rparr>)" using inv r(2) by (rule sig_inv_regs)
  then show ?thesis
    using r by (simp add: safe_mmap_drop_def on_regs_def zoom_def close_file_def unmap_raw_def
        on_os_apply raw_drop_def)
qed

text \<open>
  C17: opening a file returns: on success a fresh mapping (no faults, not poisoned) with the
  requested length, whose region is registered and for which the invariant of the accessors
  holds; on failure the registry is unchanged and the file, if it was opened, is closed.
\<close>

theorem open_establishes:
  assumes env: "signal_ok L" "mmap_law L" "0 < sint (SC_PAGESIZE L)" and inv: "sig_inv w"
    and cb: "\<And>m. on_event m = so_on_event so \<Longrightarrow> callback_ok L m"
  shows "\<exists>r w'. safe_mmap_options_open L so path w = (Ret r, w') \<and> sig_inv w'
     \<and> (case r of Inl e \<Rightarrow> not_opened L so path w w'
                | Inr m \<Rightarrow> opened L so path w m w' \<and> mm_inv L (m, w'))"
proof -
  obtain r w' where r: "safe_mmap_options_open L so path w = (Ret r, w')" "sig_inv w'"
      "case r of Inl e \<Rightarrow> not_opened L so path w w' | Inr m \<Rightarrow> opened L so path w m w'"
    using open_ok [OF env inv] by blast
  moreover have "mm_inv L (m, w')" if "r = Inr m" for m
  proof -
    have o: "opened L so path w m w'" using r(3) that by simp
    then have "callback_ok L m" by (intro cb) (simp add: opened_def)
    with env(1) r(2) o show ?thesis by (rule opened_mm_inv)
  qed
  ultimately show ?thesis by (cases r) auto
qed

text \<open>
  C18: dropping a mapping right after opening it restores the registered regions (when no earlier
  region starts at its address), unmaps exactly its range and then closes its file.
\<close>

theorem open_drop_roundtrip:
  assumes inv: "sig_inv w'" and o: "opened L so path w m w'"
    and fresh: "\<forall>r \<in> set (regions_of (regs w)). r_start r \<noteq> rm_ptr (sm_raw m)"
  shows "\<exists>w''. safe_mmap_drop L m w' = (Ret (), w'') \<and> sig_inv w''
     \<and> regions_of (regs w'') = regions_of (regs w)
     \<and> os w'' = fs_close L (sm_file m) (sys_munmap L (rm_ptr (sm_raw m)) (rm_len (sm_raw m)) (os w'))"
proof -
  have "filter (\<lambda>r. r_start r \<noteq> rm_ptr (sm_raw m)) (regions_of (regs w')) = regions_of (regs w)"
    using o fresh by (simp add: opened_def region_of_def filter_id_conv)
  with drop_ok [OF inv, of L m] show ?thesis by auto
qed

end
