(* ===== verification/Fallback.thy ===== *)
theory Fallback
  imports Sys_Libc
begin

text \<open>
  \<^verbatim>\<open>src/sys/pread.rs\<close> and \<^verbatim>\<open>src/fallback/mod.rs\<close>: positional reads that
  loop over short reads, and the reader used where mapping a file is not advisable.
\<close>

section \<open>pread\_exact\<close>

text \<open>Signed 64-bit addition under the two build profiles.\<close>

definition i64_add :: "bool \<Rightarrow> i64 \<Rightarrow> i64 \<Rightarrow> ('s, i64) comp" where
  "i64_add chk a b =
     (if chk \<and> (sint a + sint b < - (2 ^ 63) \<or> 2 ^ 63 \<le> sint a + sint b)
      then halt (Panicked ''attempt to add with overflow'') else ret (a + b))"

text \<open>The kernel stores the bytes it read at position \<open>tot\<close> of the buffer.\<close>

definition store_at :: "nat \<Rightarrow> u8 list \<Rightarrow> u8 list \<Rightarrow> u8 list" where
  "store_at tot bytes buf = take tot buf @ take (length buf - tot) (bytes @ drop (tot + length bytes) buf)"

fun pread_loop ::
    "'os libc \<Rightarrow> c_int \<Rightarrow> i64 \<Rightarrow> nat \<Rightarrow> usize \<Rightarrow> u8 list \<Rightarrow> ('os, access_error + u8 list) comp" where
  "pread_loop L fd off 0 tot buf = halt NoFuel"
| "pread_loop L fd off (Suc n) tot buf =
     (if unat tot < length buf then
        and_then (i64_add (overflow_checks L) off tot) (\<lambda>pos.
        and_then (syscall (sys_pread L fd (of_nat (length buf) - tot) pos)) (\<lambda>(code, bytes).
        if sint code < 0 then and_then (last_os_error L) (\<lambda>e. ret (Inl (Io e)))
        else if code = 0 then
          ret (Inl (Io (Custom UnexpectedEof ''pread returned 0 before buffer was filled'')))
        else
          and_then (usize_add (overflow_checks L) tot code) (\<lambda>tot'.
          pread_loop L fd off n tot' (store_at (unat tot) bytes buf))))
      else ret (Inr buf))"

definition pread_exact ::
    "'os libc \<Rightarrow> c_int \<Rightarrow> u8 list \<Rightarrow> i64 \<Rightarrow> ('os, access_error + u8 list) comp" where
  "pread_exact L fd buf off = pread_loop L fd off (Suc (length buf)) 0 buf"

section \<open>PreadReader\<close>

record pread_reader =
  pr_file :: c_int
  pr_len :: u64
  pr_path :: string

definition pread_reader_open :: "'os libc \<Rightarrow> string \<Rightarrow> ('os, io_error + pread_reader) comp" where
  "pread_reader_open L path =
     try_then (syscall (fs_open L False path)) (\<lambda>fd.
     and_then (syscall (fs_len L fd)) (\<lambda>r.
     case r of
       Inl e \<Rightarrow> and_then (modify (fs_close L fd)) (\<lambda>_. ret (Inl e))
     | Inr len \<Rightarrow> ret (Inr \<lparr>pr_file = fd, pr_len = len, pr_path = path\<rparr>)))"

text \<open>\<open>vec![0u8; len]\<close>: too large a length panics, a failed allocation aborts.\<close>

definition vec_zeroed :: "'os libc \<Rightarrow> usize \<Rightarrow> ('s, u8 list) comp" where
  "vec_zeroed L len =
     (if 2 ^ 63 \<le> unat len then halt (Panicked ''capacity overflow'')
      else if \<not> alloc_ok L len then halt Aborted
      else ret (replicate (unat len) 0))"

definition pread_reader_read ::
    "'os libc \<Rightarrow> pread_reader \<Rightarrow> usize \<Rightarrow> usize \<Rightarrow> (u8 list \<Rightarrow> ('os, 'r) comp)
     \<Rightarrow> ('os, access_error + 'r) comp" where
  "pread_reader_read L rd range_start range_end f =
     and_then (usize_sub (overflow_checks L) range_end range_start) (\<lambda>len.
     if pr_len rd < range_end then ret (Inl (OutOfBounds range_start len (pr_len rd)))
     else
       and_then (vec_zeroed L len) (\<lambda>buf.
       try_then (pread_exact L (pr_file rd) buf range_start) (\<lambda>buf.
       and_then (f buf) (\<lambda>r. ret (Inr r)))))"

definition pread_reader_len :: "pread_reader \<Rightarrow> u64" where
  "pread_reader_len rd = pr_len rd"

definition pread_reader_path :: "pread_reader \<Rightarrow> string" where
  "pread_reader_path rd = pr_path rd"

definition pread_reader_is_empty :: "pread_reader \<Rightarrow> bool" where
  "pread_reader_is_empty rd = (pr_len rd = 0)"

text \<open>
  Opening a reader reports the length of the file at that moment; when the length cannot be read
  the file is closed again.
\<close>

lemma pread_reader_open_result:
  assumes "pread_reader_open L path s = (Ret r, s')"
  shows "case r of
      Inr rd \<Rightarrow> pread_reader_path rd = path
        \<and> (\<exists>s1. fs_open L False path s = (Inr (pr_file rd), s1)
                \<and> fs_len L (pr_file rd) s1 = (Inr (pread_reader_len rd), s'))
    | Inl e \<Rightarrow> fs_open L False path s = (Inl e, s')
        \<or> (\<exists>fd s1 s2. fs_open L False path s = (Inr fd, s1) \<and> fs_len L fd s1 = (Inl e, s2)
                       \<and> s' = fs_close L fd s2)"
proof -
  obtain fdr s1 where o: "fs_open L False path s = (fdr, s1)" by fastforce
  show ?thesis
  proof (cases fdr)
    case (Inl e)
    then show ?thesis using assms o by (auto simp: pread_reader_open_def try_then_def syscall_def)
  next
    case (Inr fd)
    obtain lr s2 where l: "fs_len L fd s1 = (lr, s2)" by fastforce
    show ?thesis
      using assms o Inr l
      by (cases lr) (auto simp: pread_reader_open_def try_then_def syscall_def modify_def
          pread_reader_path_def pread_reader_len_def)
  qed
qed

section \<open>The loop reads exactly the range\<close>

text \<open>
  \<open>pread(2)\<close> on a file with fixed contents: a positive return value is at most the count and
  says how many bytes of the file, from the given position, were stored.
\<close>

definition pread_law :: "'os libc \<Rightarrow> c_int \<Rightarrow> u8 list \<Rightarrow> bool" where
  "pread_law L fd file \<longleftrightarrow>
     (\<forall>n pos s. case fst (sys_pread L fd n pos s) of (code, bytes) \<Rightarrow>
        0 < sint code \<longrightarrow> unat code \<le> unat n \<and> unat pos + unat code \<le> length file
          \<and> bytes = take (unat code) (drop (unat pos) file))"

text \<open>A read that starts inside the file and asks for at least one byte delivers at least one.\<close>

definition pread_progress :: "'os libc \<Rightarrow> c_int \<Rightarrow> u8 list \<Rightarrow> bool" where
  "pread_progress L fd file \<longleftrightarrow>
     (\<forall>n pos s. n \<noteq> 0 \<longrightarrow> unat pos < length file \<longrightarrow> 0 < sint (fst (fst (sys_pread L fd n pos s))))"

text \<open>The first \<open>k\<close> bytes of the buffer are in place.\<close>

definition filled :: "u8 list \<Rightarrow> nat \<Rightarrow> nat \<Rightarrow> u8 list \<Rightarrow> bool" where
  "filled file off k buf \<longleftrightarrow>
     k \<le> length buf \<and> off + k \<le> length file \<and> take k buf = take k (drop off file)"

lemma filled_store:
  assumes "filled file off k buf" and "bytes = take n (drop (off + k) file)"
    and "off + k + n \<le> length file" and "k + n \<le> length buf"
  shows "filled file off (k + n) (store_at k bytes buf) \<and> length (store_at k bytes buf) = length buf"
proof -
  have b: "length bytes = n" using assms(2,3) by simp
  have k: "length (take k buf) = k" using assms(4) by simp
  have "take (k + n) (store_at k bytes buf) = take k buf @ bytes"
    using assms(4) b k by (simp add: store_at_def)
  also have "\<dots> = take k (drop off file) @ take n (drop k (drop off file))"
    using assms(1,2) by (simp add: filled_def add.commute)
  also have "\<dots> = take (k + n) (drop off file)" by (simp add: take_add)
  finally show ?thesis
    using assms(3,4) b by (simp add: filled_def store_at_def)
qed

lemma i64_add_small:
  assumes "unat a + unat b < 2 ^ 63"
  shows "i64_add chk a b = (ret (a + b) :: ('s, i64) comp)"
proof -
  have "sint a = int (unat a)" "sint b = int (unat b)"
    by (rule sint_small, use assms in linarith)+
  moreover have "int (unat a + unat b) < int (2 ^ 63)"
    using assms by (simp only: of_nat_less_iff)
  ultimately have "0 \<le> sint a + sint b" "sint a + sint b < 2 ^ 63" by simp_all
  then show ?thesis unfolding i64_add_def by auto
qed

text \<open>What one call of \<open>pread\<close> inside the loop asks for, and what it can return.\<close>

lemma chunk_size:
  assumes "length buf < 2 ^ 63" and "unat tot < length buf"
  shows "unat (of_nat (length buf) - tot :: usize) = length buf - unat tot"
proof -
  have "unat (of_nat (length buf) :: usize) = length buf" using assms(1) by (simp add: unat_of_nat)
  then show ?thesis using assms(2) by (subst unat_sub_no_wrap) (simp_all add: word_le_nat_alt)
qed

lemma pread_stuck:
  assumes "pread_progress L fd file" and "unat n \<noteq> 0" and "unat pos < length file"
    and "sys_pread L fd n pos s = ((code, bytes), s')"
  shows "0 < sint code"
proof -
  have "n \<noteq> 0" using assms(2) by auto
  then show ?thesis using assms(1,3,4) unfolding pread_progress_def by (metis fst_conv)
qed

lemma pread_chunk:
  assumes "pread_law L fd file" and "sys_pread L fd n pos s = ((code, bytes), s')" and "0 < sint code"
  shows "unat code \<le> unat n \<and> unat pos + unat code \<le> length file
     \<and> bytes = take (unat code) (drop (unat pos) file) \<and> 0 < unat code"
proof -
  have "0 < unat code" using assms(3) by (auto simp: unat_gt_0)
  then show ?thesis
    using assms unfolding pread_law_def by (metis (mono_tags, lifting) case_prod_conv fst_conv)
qed

lemma pread_loop_ok:
  fixes L :: "'os libc"
  assumes law: "pread_law L fd file" and room: "unat off + length buf < 2 ^ 63"
    and n: "length buf - unat tot < n" and fl: "filled file (unat off) (unat tot) buf"
  shows "\<exists>r s'. pread_loop L fd off n tot buf s = (Ret r, s')
     \<and> (\<forall>out. r = Inr out \<longrightarrow> length out = length buf \<and> out = take (length buf) (drop (unat off) file)
            \<and> unat off + length buf \<le> length file)
     \<and> (pread_progress L fd file \<longrightarrow> unat off + length buf \<le> length file \<longrightarrow> (\<exists>out. r = Inr out))"
  using n fl room
proof (induction n arbitrary: tot buf s)
  case (Suc n)
  show ?case
  proof (cases "unat tot < length buf")
    case False
    have "unat tot \<le> length buf" using Suc.prems(2) unfolding filled_def by blast
    with False have eq: "unat tot = length buf" by linarith
    from Suc.prems(2) have "buf = take (length buf) (drop (unat off) file) \<and> unat off + length buf \<le> length file"
      unfolding filled_def eq by simp
    with False show ?thesis by auto
  next
    case True
    let ?c = "of_nat (length buf) - tot :: usize"
    have c: "unat ?c = length buf - unat tot" using True Suc.prems(3) by (intro chunk_size) simp_all
    have ut: "unat off + unat tot < 2 ^ 63" using True Suc.prems(3) by simp
    note add = i64_add_small [OF ut, of "overflow_checks L", where 's = 'os]
    have pos: "unat (off + tot) = unat off + unat tot" using ut by (intro unat_add_no_wrap) simp
    obtain code bytes s1 where call: "sys_pread L fd ?c (off + tot) s = ((code, bytes), s1)"
      by (metis prod.collapse)
    show ?thesis
    proof (cases "0 < sint code")
      case False
      then have "sint code < 0 \<or> code = 0" by (metis linorder_neqE_linordered_idom signed_0 signed_eq_0_iff)
      moreover have "\<not> (pread_progress L fd file \<and> unat off + length buf \<le> length file)"
        using pread_stuck [of L fd "file", OF _ _ _ call] False True c pos by auto
      ultimately show ?thesis using True add call by (auto simp: last_os_error_def)
    next
      case pc: True
      note l = pread_chunk [OF law call pc, unfolded c pos]
      let ?buf = "store_at (unat tot) bytes buf"
      have tc: "unat (tot + code) = unat tot + unat code" "unat tot + unat code < 2 ^ 64"
        using l True Suc.prems(3) by (auto intro!: unat_add_no_wrap)
      have "unat tot + unat code \<le> length buf" using l True by linarith
      then have f: "filled file (unat off) (unat (tot + code)) ?buf" "length ?buf = length buf"
        using filled_store [OF Suc.prems(2), of bytes "unat code"] l by (simp_all add: tc)
      then have "length ?buf - unat (tot + code) < n" using l tc(1) True Suc.prems(1) by linarith
      from Suc.IH [OF this f(1), of s1] f(2) Suc.prems(3) obtain r s' where
        "pread_loop L fd off n (tot + code) ?buf s1 = (Ret r, s')"
        "\<forall>out. r = Inr out \<longrightarrow> length out = length buf \<and> out = take (length buf) (drop (unat off) file)
            \<and> unat off + length buf \<le> length file"
        "pread_progress L fd file \<longrightarrow> unat off + length buf \<le> length file \<longrightarrow> (\<exists>out. r = Inr out)"
        by auto
      moreover have "code \<noteq> 0" "\<not> sint code < 0" using pc by auto
      ultimately show ?thesis using True add call tc(2) by simp
    qed
  qed
qed simp

lemma pread_loop_error:
  "pread_loop L fd off n tot buf s = (Ret (Inl x), s') \<Longrightarrow> \<exists>e. x = Io e"
proof (induction n arbitrary: tot buf s)
  case (Suc n)
  then show ?case
    by (auto simp: i64_add_def usize_add_def last_os_error_def and_then_def syscall_def
        split: if_splits prod.splits)
qed simp

lemma pread_exact_error: "pread_exact L fd buf off s = (Ret (Inl x), s') \<Longrightarrow> \<exists>e. x = Io e"
  unfolding pread_exact_def by (rule pread_loop_error)

lemma pread_exact_ok:
  assumes "pread_law L fd file" and "unat off + length buf < 2 ^ 63" and "unat off \<le> length file"
  shows "\<exists>r s'. pread_exact L fd buf off s = (Ret r, s')
     \<and> (\<forall>out. r = Inr out \<longrightarrow> out = take (length buf) (drop (unat off) file)
            \<and> unat off + length buf \<le> length file)
     \<and> (pread_progress L fd file \<longrightarrow> unat off + length buf \<le> length file \<longrightarrow> (\<exists>out. r = Inr out))"
  using pread_loop_ok [OF assms(1,2), of 0 "Suc (length buf)" s] assms(3)
  by (auto simp: pread_exact_def filled_def)

section \<open>The reader\<close>

text \<open>
  C27: \<open>PreadReader::read\<close> of a range inside the file returns: either the closure's value on
  exactly the bytes of the range, however short the individual reads are, or an I/O error; and
  never an error when every \<open>pread\<close> inside the file makes progress.
\<close>

theorem pread_reader_read_ok:
  fixes L :: "'os libc" and f :: "u8 list \<Rightarrow> 'r"
  assumes law: "pread_law L (pr_file rd) file" and len: "length file = unat (pr_len rd)"
    and rng: "start \<le> stop" "stop \<le> pr_len rd" and small: "unat (pr_len rd) < 2 ^ 63"
    and mem: "alloc_ok L (stop - start)"
  shows "\<exists>r s'. pread_reader_read L rd start stop (\<lambda>b. ret (f b)) s = (Ret r, s')
     \<and> (r = Inr (f (take (unat stop - unat start) (drop (unat start) file))) \<or> (\<exists>e. r = Inl (Io e)))
     \<and> (pread_progress L (pr_file rd) file \<longrightarrow> (\<exists>x. r = Inr x))"
proof -
  let ?n = "unat stop - unat start" and ?buf = "replicate (unat (stop - start)) (0 :: u8)"
  have n: "unat (stop - start) = ?n" using rng(1) by (rule unat_sub_no_wrap)
  have b: "unat start \<le> unat stop" "unat stop \<le> unat (pr_len rd)"
    using rng by (simp_all add: word_le_nat_alt)
  have "unat (stop - start) < 2 ^ 63" using b small n by linarith
  then have "vec_zeroed L (stop - start) = (ret ?buf :: ('os, u8 list) comp)"
    using mem unfolding vec_zeroed_def by simp
  moreover obtain r s' where r: "pread_exact L (pr_file rd) ?buf start s = (Ret r, s')"
      "\<forall>out. r = Inr out \<longrightarrow> out = take ?n (drop (unat start) file)"
      "pread_progress L (pr_file rd) file \<longrightarrow> (\<exists>out. r = Inr out)"
    using pread_exact_ok [OF law, of start ?buf s] b small len n by auto
  moreover have "\<exists>e. x = Io e" if "r = Inl x" for x
    using r(1) unfolding that by (rule pread_exact_error)
  ultimately show ?thesis
    using rng by (cases r) (auto simp: pread_reader_read_def not_less)
qed

text \<open>
  A reversed range given to \<open>PreadReader::read\<close> does not read anything: with overflow checks
  it panics; without them it is rejected when its end lies beyond the file, and otherwise the
  wrapped length panics in the allocation (for distances up to half the address space).
\<close>

theorem pread_reader_reversed:
  assumes rev: "stop < start" and dist: "unat start - unat stop \<le> 2 ^ 63"
  shows "pread_reader_read L rd start stop f s =
     (if overflow_checks L then (Panicked ''attempt to subtract with overflow'', s)
      else if pr_len rd < stop then (Ret (Inl (OutOfBounds start (stop - start) (pr_len rd))), s)
      else (Panicked ''capacity overflow'', s))"
proof -
  have "unat (stop - start) = 2 ^ 64 - (unat start - unat stop)"
    using rev unat_sub_if_size [of stop start] unat_lt_64 [of start]
    by (auto simp: word_less_nat_alt word_size)
  then have "2 ^ 63 \<le> unat (stop - start)" using dist by simp
  then show ?thesis
    using rev by (simp add: pread_reader_read_def usize_sub_def vec_zeroed_def)
qed

end
