(* ===== verification/Fs_Detect.thy ===== *)
theory Fs_Detect
  imports Sys_Libc
begin

text \<open>
  \<^verbatim>\<open>src/sys/fs_detect.rs\<close>: classifying the filesystem behind a path from what
  \<open>statfs(2)\<close> reports, on Linux by magic number and on macOS by name.
\<close>

datatype fs_type = Local | Nfs | Cifs | Fuse | Efs | Unknown u64

definition NFS_SUPER_MAGIC :: i64 where "NFS_SUPER_MAGIC = 0x6969"
definition CIFS_MAGIC :: i64 where "CIFS_MAGIC = 0xFF534D42"
definition FUSE_SUPER_MAGIC :: i64 where "FUSE_SUPER_MAGIC = 0x65735546"
definition EFS_SUPER_MAGIC :: i64 where "EFS_SUPER_MAGIC = 0x00414A53"

lemmas magic_defs = NFS_SUPER_MAGIC_def CIFS_MAGIC_def FUSE_SUPER_MAGIC_def EFS_SUPER_MAGIC_def

text \<open>\<open>CString::new\<close> rejects interior NUL bytes.\<close>

definition path_to_cstring :: "string \<Rightarrow> io_error + string" where
  "path_to_cstring path =
     (if CHR 0x00 \<in> set path then Inl (Custom InvalidInput ''path contains null byte'')
      else Inr path)"

definition statfs :: "'os libc \<Rightarrow> string \<Rightarrow> ('os, io_error + statfs_buf) comp" where
  "statfs L c_path =
     and_then (syscall (sys_statfs L c_path)) (\<lambda>(code, stat). os_result L code stat)"

definition detect_linux :: "'os libc \<Rightarrow> string \<Rightarrow> ('os, io_error + fs_type) comp" where
  "detect_linux L c_path =
     try_then (statfs L c_path) (\<lambda>stat.
     let ty = f_type stat in
     ret (Inr (if ty = NFS_SUPER_MAGIC then Nfs
               else if ty = CIFS_MAGIC then Cifs
               else if ty = FUSE_SUPER_MAGIC then Fuse
               else if ty = EFS_SUPER_MAGIC then Efs
               else Local)))"

definition c_str :: "string \<Rightarrow> string" where
  "c_str arr = takeWhile (\<lambda>c. c \<noteq> CHR 0x00) arr"

definition detect_macos :: "'os libc \<Rightarrow> string \<Rightarrow> ('os, io_error + fs_type) comp" where
  "detect_macos L c_path =
     try_then (statfs L c_path) (\<lambda>stat.
     let fs_name = c_str (f_fstypename stat) in
     ret (Inr (if fs_name = ''nfs'' then Nfs
               else if fs_name \<in> {''smbfs'', ''cifs''} then Cifs
               else if fs_name \<in> {''fusefs'', ''osxfuse'', ''macfuse''} then Fuse
               else if fs_name \<in> {''apfs'', ''hfs'', ''msdos'', ''exfat'', ''ufs'', ''devfs''} then Local
               else Unknown 0)))"

definition detect :: "'os libc \<Rightarrow> string \<Rightarrow> ('os, io_error + fs_type) comp" where
  "detect L path =
     (case path_to_cstring path of
        Inl e \<Rightarrow> ret (Inl e)
      | Inr c_path \<Rightarrow> if target_linux L then detect_linux L c_path else detect_macos L c_path)"

fun is_network :: "fs_type \<Rightarrow> bool" where
  "is_network Nfs = True"
| "is_network Cifs = True"
| "is_network Efs = True"
| "is_network _ = False"

section \<open>Behaviour\<close>

lemma statfs_apply:
  "statfs L path s =
     (case sys_statfs L path s of ((code, stat), s') \<Rightarrow>
        (Ret (if code = 0 then Inr stat else Inl (OsError (errno L s'))), s'))"
  by (simp add: statfs_def os_result_apply split: prod.split)

text \<open>
  C40: on Linux a successful detection reports a network filesystem exactly for the NFS, CIFS and
  EFS magic numbers and FUSE exactly for its own; every unrecognised number is reported as local,
  never as \<open>Unknown\<close>.
\<close>

theorem detect_linux_result:
  assumes "target_linux L" and "detect L path s = (Ret (Inr ty), s')"
  shows "\<exists>stat. sys_statfs L path s = ((0, stat), s') \<and> (\<forall>x. ty \<noteq> Unknown x)
     \<and> (is_network ty \<longleftrightarrow> f_type stat \<in> {NFS_SUPER_MAGIC, CIFS_MAGIC, EFS_SUPER_MAGIC})
     \<and> (ty = Fuse \<longleftrightarrow> f_type stat = FUSE_SUPER_MAGIC)"
proof -
  obtain code stat s1 where c: "sys_statfs L path s = ((code, stat), s1)" by (metis prod.collapse)
  have "detect_linux L path s = (Ret (Inr ty), s')"
    using assms by (auto simp: detect_def path_to_cstring_def split: if_splits)
  with c show ?thesis
    by (auto simp: detect_linux_def try_then_def and_then_def statfs_apply Let_def magic_defs
        split: if_splits)
qed

text \<open>
  Detection fails on a path with a NUL byte, before any system call, and with the OS error
  when \<open>statfs\<close> fails.
\<close>

theorem detect_errors:
  "(CHR 0x00 \<in> set path \<longrightarrow>
     detect L path s = (Ret (Inl (Custom InvalidInput ''path contains null byte'')), s))
   \<and> (CHR 0x00 \<notin> set path \<longrightarrow> fst (fst (sys_statfs L path s)) \<noteq> 0 \<longrightarrow>
     detect L path s
       = (Ret (Inl (OsError (errno L (snd (sys_statfs L path s))))), snd (sys_statfs L path s)))"
  by (auto simp: detect_def path_to_cstring_def detect_linux_def detect_macos_def try_then_def
      and_then_def statfs_apply split: prod.splits)

end
