(* ===== verification/Demo_Kernel.thy ===== *)
theory Demo_Kernel
  imports Mmap_Lifecycle Fallback Fs_Detect
begin

text \<open>
  A small concrete environment on which the hypotheses of the theorems can be checked: pages of
  4096 bytes; every file has the descriptor 3 and is mapped at address 65536; the
  page of addresses from 69632 to 73727 has lost its backing store, so touching it raises SIGBUS;
  everything else is plain memory. The kernel state is the memory contents.
\<close>

type_synonym demo = "usize \<Rightarrow> u8"

definition demo_bad :: "usize \<Rightarrow> bool" where
  "demo_bad a \<longleftrightarrow> 69632 \<le> a \<and> a < 73728"

definition demo_file :: "u8 list" where
  "demo_file = [7, 8, 9, 10]"

definition demo_pread :: "usize \<Rightarrow> i64 \<Rightarrow> i64 \<times> u8 list" where
  "demo_pread n pos =
     (if n = 0 \<or> 4 \<le> unat pos then (0, []) else (1, [demo_file ! unat pos]))"

definition demo_libc :: "demo libc" where
  "demo_libc =
     \<lparr>overflow_checks = True, target_linux = True, SC_PAGESIZE = 4096,
      PROT_READ = 1, PROT_WRITE = 2, PROT_NONE = 0, MAP_PRIVATE = 2, MAP_SHARED = 1,
      MAP_ANON = 32, MAP_POPULATE = 32768, MAP_FAILED = - 1,
      MADV_NORMAL = 0, MADV_SEQUENTIAL = 2, MADV_RANDOM = 1, MADV_WILLNEED = 3, MADV_DONTNEED = 4,
      MS_ASYNC = 1, MS_SYNC = 4, LOCK_EX = 2, LOCK_SH = 1, LOCK_NB = 4,
      errno = (\<lambda>s. 0),
      sys_mmap = (\<lambda>hint len prot flags fd off s.
                    (if unat len < 2 ^ 32 then 65536 else - 1, s)),
      sys_munmap = (\<lambda>p n s. s),
      sys_madvise = (\<lambda>p n a s. (0, s)),
      sys_msync = (\<lambda>p n f s. (0, s)),
      sys_mincore = (\<lambda>p n s. ((0, replicate (unat n div 4096) 1), s)),
      sys_mlock = (\<lambda>p n s. (0, s)),
      sys_munlock = (\<lambda>p n s. (0, s)),
      sys_pread = (\<lambda>fd n pos s. (demo_pread n pos, s)),
      sys_flock = (\<lambda>fd op s. (0, s)),
      sys_sigaction = (\<lambda>s. 0),
      sys_key_create = (\<lambda>s. (0, 5)),
      sys_setspecific = (\<lambda>s. 0),
      fs_open = (\<lambda>wr path s. (Inr 3, s)),
      fs_len = (\<lambda>fd s. (Inr 8192, s)),
      fs_close = (\<lambda>fd s. s),
      mem_load = (\<lambda>a s. if demo_bad a then (BusError, s) else (Value (s a), s)),
      mem_store = (\<lambda>a b s. if demo_bad a then (BusError, s) else (Value 0, s(a := b))),
      copy_order = (\<lambda>n. [0..<n]),
      sys_statfs = (\<lambda>path s. ((0, \<lparr>f_type = 0x6969, f_fstypename = ''nfs''\<rparr>), s)),
      alloc_ok = (\<lambda>n. True)\<rparr>"

section \<open>The laws hold\<close>

lemma demo_fields [simp]:
  "overflow_checks demo_libc = True" "target_linux demo_libc = True" "SC_PAGESIZE demo_libc = 4096"
  "sys_sigaction demo_libc s = 0" "sys_key_create demo_libc s = (0, 5)" "sys_setspecific demo_libc s = 0"
  "mem_load demo_libc a s = (if demo_bad a then (BusError, s) else (Value (s a), s))"
  "mem_store demo_libc a b s = (if demo_bad a then (BusError, s) else (Value 0, s(a := b)))"
  "copy_order demo_libc n = [0..<n]" "fs_open demo_libc wr path s = (Inr 3, s)"
  "fs_len demo_libc fd s = (Inr 8192, s)" "fs_close demo_libc fd s = s"
  "sys_pread demo_libc fd cnt pos s = (demo_pread cnt pos, s)" "alloc_ok demo_libc cnt = True"
  "sys_statfs demo_libc path s = ((0, \<lparr>f_type = 0x6969, f_fstypename = ''nfs''\<rparr>), s)"
  by (simp_all add: demo_libc_def)

lemma demo_page: "page_pow2 demo_libc 12"
  by (simp add: page_pow2_def)

lemma demo_signal_ok: "signal_ok demo_libc"
  by (simp add: signal_ok_def pthread_ok_def)

lemma demo_mmap_law: "mmap_law demo_libc"
  by (simp add: mmap_law_def demo_libc_def Let_def)

lemma demo_copy_law: "copy_law demo_libc"
  by (auto simp: copy_law_def)

section \<open>An open mapping\<close>

definition demo_raw :: raw_mmap where
  "demo_raw = \<lparr>rm_ptr = 65536, rm_len = 8192, rm_writable = True\<rparr>"

definition demo_regs :: registry where
  "demo_regs =
     \<lparr>snapshot = Some 0, snaps = [0 \<mapsto> [\<lparr>r_start = 65536, r_end = 73728\<rparr>]], next_snap = 1,
      previous = [], current = [], mutex_poisoned = False\<rparr>"

definition demo_world :: "demo world" where
  "demo_world = (world_init (\<lambda>_ _. False) (\<lambda>_. 0))\<lparr>regs := demo_regs\<rparr>"

definition demo_mmap :: "demo safe_mmap" where
  "demo_mmap = \<lparr>sm_raw = demo_raw, sm_path = ''data.bin'', sm_file = 3, sigbus_count = 0,
      poisoned = False, max_sigbus = 3, on_event = None\<rparr>"

lemma demo_raw_simps [simp]:
  "rm_ptr demo_raw = 65536" "rm_len demo_raw = 8192" "rm_writable demo_raw = True"
  by (simp_all add: demo_raw_def)

lemma demo_mmap_simps [simp]:
  "sm_raw demo_mmap = demo_raw" "sigbus_count demo_mmap = 0" "poisoned demo_mmap = False"
  "max_sigbus demo_mmap = 3" "on_event demo_mmap = None" "sm_file demo_mmap = 3"
  by (simp_all add: demo_mmap_def)

lemma demo_raw_ok: "raw_ok demo_libc demo_raw"
  by (simp add: raw_ok_def)

lemma demo_usable: "usable demo_regs"
  by (simp add: usable_def reg_inv_def demo_regs_def retired_def)

lemma demo_regions: "regions_of demo_regs = [\<lparr>r_start = 65536, r_end = 73728\<rparr>]"
  by (simp add: regions_of_def demo_regs_def)

lemma demo_world_simps [simp]: "os demo_world = (\<lambda>_. 0)" "regs demo_world = demo_regs"
  by (simp_all add: demo_world_def world_init_def)

lemma demo_sig_inv: "sig_inv demo_world"
proof -
  have "sig_inv (world_init (\<lambda>_ _. False) (\<lambda>_. 0) :: demo world)"
    using thread_inv_init [of "\<lambda>_ _. False" "\<lambda>_. 0"] reg_inv_init
    by (simp add: sig_inv_def handler_inv_def usable_def) (simp add: world_init_def registry_init_def usable_def reg_inv_def retired_def)
  then show ?thesis unfolding demo_world_def by (rule sig_inv_regs) (rule demo_usable)
qed

lemma demo_mapped: "mapped demo_libc demo_world demo_raw"
  by (simp add: mapped_def demo_raw_ok demo_regions region_of_def)

lemma demo_inv: "mm_inv demo_libc (demo_mmap, demo_world)"
  by (simp add: mm_inv_def env_inv_def demo_signal_ok demo_sig_inv demo_mapped callback_ok_def
      poison_inv_def)

text \<open>Addresses below the mapping are ordinary memory.\<close>

lemma demo_steady: "a < 65536 \<Longrightarrow> steady demo_libc a"
  by (auto simp: steady_def demo_bad_def word_le_nat_alt word_less_nat_alt)

lemma demo_buffer: "steady_buffer demo_libc 4096 16"
  by (auto simp: steady_buffer_def in_slice_def word_less_nat_alt intro!: demo_steady)

section \<open>Opening a file\<close>

definition demo_fresh :: "demo world" where
  "demo_fresh = demo_world\<lparr>regs := registry_init\<rparr>"

lemma demo_fresh_simps [simp]: "os demo_fresh = (\<lambda>_. 0)" "regs demo_fresh = registry_init"
  by (simp_all add: demo_fresh_def)

lemma demo_fresh_inv: "sig_inv demo_fresh"
  unfolding demo_fresh_def
  by (rule sig_inv_regs [OF demo_sig_inv usable_init])

lemma demo_open:
  "\<exists>m w1. safe_mmap_options_open demo_libc safe_mmap_builder ''data.bin'' demo_fresh = (Ret (Inr m), w1)
     \<and> rm_ptr (sm_raw m) = 65536 \<and> rm_len (sm_raw m) = 8192 \<and> sigbus_count m = 0
     \<and> \<not> poisoned m \<and> max_sigbus m = 3 \<and> on_event m = None"
proof -
  let ?raw = "\<lparr>rm_ptr = 65536, rm_len = 8192, rm_writable = False\<rparr>"
  let ?m = "\<lparr>sm_raw = ?raw, sm_path = ''data.bin'', sm_file = 3, sigbus_count = 0, poisoned = False,
     max_sigbus = 3, on_event = None\<rparr> :: demo safe_mmap"
  have len: "map_length (safe_mmap_builder :: demo safe_mmap_options) 8192 = Inr 8192"
    by (simp add: map_length_def safe_mmap_builder_def safe_mmap_options_new_def)
  have map: "mmap_options_map demo_libc (mapping_options (safe_mmap_builder :: demo safe_mmap_options) 3 8192) s = (Ret (Inr ?raw), s)" for s
    by (simp add: mmap_options_map_def mapping_options_def mmap_options_defs safe_mmap_builder_def
        safe_mmap_options_new_def page_size_def Let_def map_flags_def) (simp add: demo_libc_def)
  have inv: "sig_inv (demo_fresh\<lparr>os := \<lambda>_. 0\<rparr>)" using demo_fresh_inv by simp
  have ok: "raw_ok demo_libc ?raw" by (simp add: raw_ok_def)
  obtain w' where "and_then (install demo_libc) (\<lambda>_.
      and_then (on_regs (register (overflow_checks demo_libc) (rm_ptr ?raw) (rm_len ?raw))) (\<lambda>_.
        ret (Inr ?m))) (demo_fresh\<lparr>os := \<lambda>_. 0\<rparr>) = (Ret (Inr ?m :: mmap_error + demo safe_mmap), w')"
    using adopt_ok [OF demo_signal_ok inv ok, of "Inr ?m :: mmap_error + demo safe_mmap"] by blast
  moreover have "so_writable (safe_mmap_builder :: demo safe_mmap_options) = False"
      "so_flock (safe_mmap_builder :: demo safe_mmap_options) = False"
      "so_max_sigbus (safe_mmap_builder :: demo safe_mmap_options) = 3"
      "so_on_event (safe_mmap_builder :: demo safe_mmap_options) = None"
    by (simp_all add: safe_mmap_builder_def safe_mmap_options_new_def DEFAULT_MAX_SIGBUS_def)
  ultimately show ?thesis
    using len map
    by (simp add: safe_mmap_options_open_def map_file_def lock_file_def try_io_syscall on_os_apply
        unless_ok_def on_unwind_def)
qed

end
