(* ===== verification/Mmap_Prefetch.thy ===== *)
theory Mmap_Prefetch
  imports Mmap_Lifecycle
begin

text \<open>
  \<^verbatim>\<open>src/mmap/prefetch.rs\<close> and \<open>SafeMmap::prefetch_with_timeout\<close>: a worker thread
  touches one byte per page while the caller waits on a condition variable with a deadline. The
  two threads are interleaved explicitly: a step of the worker or a step of the caller, each
  atomic with respect to the shared mutex, the cancellation flag and the result slot. A wake-up
  of the caller carries the value of \<open>timed_out()\<close>; it may come at any time, so expired
  deadlines, notifications and spurious wake-ups are all covered.
\<close>

section \<open>State\<close>

datatype worker =
    W_Start
  | W_Loop usize
  | W_Publish "access_error + unit"
  | W_Exit
  | W_Done

datatype caller =
    C_Lock
  | C_Wait
  | C_Join_timeout
  | C_Join
  | C_Take
  | C_Returned "access_error + unit"

record 'os prefetch =
  pf_world :: "'os world"
  pf_cancelled :: bool
  pf_result :: "(access_error + unit) option"
  pf_worker :: worker
  pf_caller :: caller
  pf_dead :: "unit outcome option"

record prefetch_args =
  pa_base :: usize
  pa_offset :: usize
  pa_len :: usize
  pa_timeout :: duration

definition prefetch_start :: "'os world \<Rightarrow> 'os prefetch" where
  "prefetch_start w =
     \<lparr>pf_world = w, pf_cancelled = False, pf_result = None, pf_worker = W_Start,
      pf_caller = C_Lock, pf_dead = None\<rparr>"

section \<open>The worker\<close>

text \<open>
  The volatile read of one page. \<open>base_ptr + pos\<close> is computed inside the closure.
\<close>

definition probe_page :: "'os libc \<Rightarrow> usize \<Rightarrow> usize \<Rightarrow> unit access" where
  "probe_page L base pos =
     (if overflow_checks L \<and> 2 ^ 64 \<le> unat base + unat pos
      then Panic ''attempt to add with overflow''
      else Load (base + pos) (\<lambda>_. Return ()))"

text \<open>
  One iteration of the loop of \<open>probe_pages\<close>: \<open>Inl\<close> is the function's result, \<open>Inr\<close>
  the next position.
\<close>

definition probe_pages_iter ::
    "'os libc \<Rightarrow> tid \<Rightarrow> prefetch_args \<Rightarrow> bool \<Rightarrow> usize
     \<Rightarrow> ('os world, (access_error + unit) + usize) comp" where
  "probe_pages_iter L t pa cancelled pos =
     and_then (page_size L) (\<lambda>page.
     and_then (usize_add (overflow_checks L) (pa_offset pa) (pa_len pa)) (\<lambda>end_pos.
     if \<not> pos < end_pos then ret (Inl (Inr ()))
     else if cancelled then ret (Inl (Inr ()))
     else and_then (protected L t (probe_page L (pa_base pa) pos)) (\<lambda>r.
       case r of
         Inl a \<Rightarrow> ret (Inl (Inl (Sigbus a)))
       | Inr _ \<Rightarrow> and_then (usize_add (overflow_checks L) pos page) (\<lambda>pos'. ret (Inr pos')))))"

text \<open>
  A computation of the worker thread: a panic ends the thread (its slot stays empty), anything
  else but a return ends the process.
\<close>

definition worker_run ::
    "('os world, 'a) comp \<Rightarrow> ('a \<Rightarrow> worker) \<Rightarrow> 'os prefetch \<Rightarrow> 'os prefetch" where
  "worker_run c nx st =
     (case c (pf_world st) of
        (Ret x, w) \<Rightarrow> st\<lparr>pf_world := w, pf_worker := nx x\<rparr>
      | (Panicked msg, w) \<Rightarrow> st\<lparr>pf_world := w, pf_worker := W_Exit\<rparr>
      | (out, w) \<Rightarrow>
          st\<lparr>pf_world := w, pf_dead := Some (fst (on_ret out (\<lambda>_. halt Undefined) ()))\<rparr>)"

fun worker_step ::
    "'os libc \<Rightarrow> tid \<Rightarrow> prefetch_args \<Rightarrow> 'os prefetch \<Rightarrow> 'os prefetch option" where
  "worker_step L t pa st =
     (if pf_dead st \<noteq> None then None
      else case pf_worker st of
        W_Start \<Rightarrow> Some (worker_run (install L) (\<lambda>_. W_Loop (pa_offset pa)) st)
      | W_Loop pos \<Rightarrow>
          Some (worker_run (probe_pages_iter L t pa (pf_cancelled st) pos)
                  (\<lambda>r. case r of Inl res \<Rightarrow> W_Publish res | Inr pos' \<Rightarrow> W_Loop pos') st)
      | W_Publish r \<Rightarrow> Some (st\<lparr>pf_result := Some r, pf_worker := W_Exit\<rparr>)
      | W_Exit \<Rightarrow> Some (worker_run (thread_exit t) (\<lambda>_. W_Done) st)
      | W_Done \<Rightarrow> None)"

section \<open>The caller\<close>

text \<open>\<open>handle.join()\<close> is enabled when the worker thread has ended.\<close>

fun caller_step :: "prefetch_args \<Rightarrow> bool \<Rightarrow> 'os prefetch \<Rightarrow> 'os prefetch option" where
  "caller_step pa timed_out st =
     (if pf_dead st \<noteq> None then None
      else case pf_caller st of
        C_Lock \<Rightarrow>
          Some (st\<lparr>pf_caller := (if pf_result st = None then C_Wait else C_Join)\<rparr>)
      | C_Wait \<Rightarrow>
          Some (if timed_out \<and> pf_result st = None
                then st\<lparr>pf_cancelled := True, pf_caller := C_Join_timeout\<rparr>
                else st\<lparr>pf_caller := C_Join\<rparr>)
      | C_Join_timeout \<Rightarrow>
          if pf_worker st = W_Done
          then Some (st\<lparr>pf_caller :=
                 C_Returned (Inl (Timeout (pa_offset pa) (pa_len pa) (pa_timeout pa)))\<rparr>)
          else None
      | C_Join \<Rightarrow> if pf_worker st = W_Done then Some (st\<lparr>pf_caller := C_Take\<rparr>) else None
      | C_Take \<Rightarrow>
          Some (st\<lparr>pf_result := None, pf_caller := C_Returned
            (case pf_result st of
               Some (Inr _) \<Rightarrow> Inr ()
             | Some (Inl e) \<Rightarrow> Inl e
             | None \<Rightarrow> Inl (Timeout (pa_offset pa) (pa_len pa) (pa_timeout pa)))\<rparr>)
      | C_Returned r \<Rightarrow> None)"

section \<open>Interleavings\<close>

inductive pf_step :: "'os libc \<Rightarrow> tid \<Rightarrow> prefetch_args \<Rightarrow> 'os prefetch \<Rightarrow> 'os prefetch \<Rightarrow> bool"
  for L t pa where
  worker: "worker_step L t pa st = Some st' \<Longrightarrow> pf_step L t pa st st'"
| caller: "caller_step pa b st = Some st' \<Longrightarrow> pf_step L t pa st st'"

inductive pf_reach :: "'os libc \<Rightarrow> tid \<Rightarrow> prefetch_args \<Rightarrow> 'os world \<Rightarrow> 'os prefetch \<Rightarrow> bool"
  for L t pa w where
  start: "pf_reach L t pa w (prefetch_start w)"
| step: "pf_reach L t pa w st \<Longrightarrow> pf_step L t pa st st' \<Longrightarrow> pf_reach L t pa w st'"

text \<open>
  The call under a given schedule: the worker moves, or the caller moves (with the value its
  wait would report). A choice that is not enabled is skipped.
\<close>

datatype sched = Worker | Caller bool

fun pf_choose :: "'os libc \<Rightarrow> tid \<Rightarrow> prefetch_args \<Rightarrow> sched \<Rightarrow> 'os prefetch \<Rightarrow> 'os prefetch option" where
  "pf_choose L t pa Worker st = worker_step L t pa st"
| "pf_choose L t pa (Caller b) st = caller_step pa b st"

fun pf_run :: "'os libc \<Rightarrow> tid \<Rightarrow> prefetch_args \<Rightarrow> sched list \<Rightarrow> 'os prefetch \<Rightarrow> 'os prefetch" where
  "pf_run L t pa [] st = st"
| "pf_run L t pa (c # cs) st =
     (case pf_choose L t pa c st of None \<Rightarrow> pf_run L t pa cs st | Some st' \<Rightarrow> pf_run L t pa cs st')"

definition prefetch_with_deadline ::
    "'os libc \<Rightarrow> tid \<Rightarrow> sched list \<Rightarrow> usize \<Rightarrow> usize \<Rightarrow> usize \<Rightarrow> duration
     \<Rightarrow> ('os world, access_error + unit) comp" where
  "prefetch_with_deadline L t cs base off len timeout =
     (\<lambda>w. let st = pf_run L t \<lparr>pa_base = base, pa_offset = off, pa_len = len, pa_timeout = timeout\<rparr>
                      cs (prefetch_start w)
          in case pf_dead st of
               Some out \<Rightarrow> (fst (on_ret out (\<lambda>_. halt Undefined) ()), pf_world st)
             | None \<Rightarrow>
                 (case pf_caller st of C_Returned r \<Rightarrow> (Ret r, pf_world st)
                                     | _ \<Rightarrow> (NoFuel, pf_world st)))"

definition prefetch_with_timeout ::
    "'os libc \<Rightarrow> tid \<Rightarrow> sched list \<Rightarrow> usize \<Rightarrow> usize \<Rightarrow> duration
     \<Rightarrow> ('os mm, access_error + unit) comp" where
  "prefetch_with_timeout L t cs off len timeout =
     try_then check_poisoned (\<lambda>_.
     try_then (check_bounds off len) (\<lambda>_.
     and_then self (\<lambda>m.
     and_then (on_world (prefetch_with_deadline L t cs (rm_ptr (sm_raw m)) off len timeout)) (\<lambda>result.
     and_then (case result of
                 Inl (Sigbus a) \<Rightarrow> record_sigbus_from L (Sigbus a)
               | Inl (Timeout _ _ _) \<Rightarrow> emit_event (PrefetchTimeoutEvent off len)
               | _ \<Rightarrow> ret ())
       (\<lambda>_. ret result)))))"

section \<open>No early return\<close>

declare worker_step.simps [simp del] and caller_step.simps [simp del]

inductive_cases pf_stepE: "pf_step L t pa st st'"

lemma worker_run_caller [simp]:
  "pf_caller (worker_run c k st) = pf_caller st" "pf_cancelled (worker_run c k st) = pf_cancelled st"
  "pf_result (worker_run c k st) = pf_result st"
  by (simp_all add: worker_run_def split: prod.split outcome.split)

lemma worker_step_frame:
  assumes "worker_step L t pa st = Some st'"
  shows "pf_caller st' = pf_caller st" "pf_cancelled st' = pf_cancelled st" "pf_worker st \<noteq> W_Done"
  using assms by (auto simp: worker_step.simps split: if_splits worker.splits)

text \<open>The caller never returns while the worker is running, deadline or not.\<close>

lemma joined_before_return:
  "pf_reach L t pa w st \<Longrightarrow>
   (\<forall>r. pf_caller st = C_Returned r \<or> pf_caller st = C_Take \<longrightarrow> pf_worker st = W_Done)
   \<and> (pf_cancelled st \<longrightarrow> pf_caller st = C_Join_timeout
        \<or> pf_caller st = C_Returned (Inl (Timeout (pa_offset pa) (pa_len pa) (pa_timeout pa))))
   \<and> (pf_caller st = C_Join_timeout \<longrightarrow> pf_cancelled st)"
proof (induction rule: pf_reach.induct)
  case start
  show ?case by (simp add: prefetch_start_def)
next
  case (step st st')
  from step.hyps(2) show ?case
  proof (rule pf_stepE)
    assume "worker_step L t pa st = Some st'"
    from worker_step_frame [OF this] step.IH show ?thesis by auto
  next
    fix b assume "caller_step pa b st = Some st'"
    with step.IH show ?thesis by (auto simp: caller_step.simps split: if_splits caller.splits)
  qed
qed

section \<open>The result of a prefetch\<close>

text \<open>
  The reference is the pass over one byte per page: its ending \<open>E\<close> explains the result, except
  that a cancelled worker reports success early.
\<close>

fun result_ok :: "unit ending \<times> 'os \<Rightarrow> bool \<Rightarrow> access_error + unit \<Rightarrow> 'os \<Rightarrow> bool" where
  "result_ok E c (Inr u) s \<longleftrightarrow> c \<or> E = (Finished (), s)"
| "result_ok E c (Inl (Sigbus a)) s \<longleftrightarrow> E = (Faulted a, s)"
| "result_ok E c (Inl e) s \<longleftrightarrow> False"

lemma result_ok_mono: "result_ok E c r s \<Longrightarrow> c \<longrightarrow> c' \<Longrightarrow> result_ok E c' r s"
  by (cases "(E, c, r, s)" rule: result_ok.cases) auto

definition pass :: "'os libc \<Rightarrow> raw_mmap \<Rightarrow> usize \<Rightarrow> usize \<Rightarrow> nat \<Rightarrow> 'os \<Rightarrow> unit ending \<times> 'os" where
  "pass L raw off len pos =
     exec L (probe_program raw (unat (SC_PAGESIZE L)) pos (unat off + unat len))"

definition worker_inv ::
    "'os libc \<Rightarrow> raw_mmap \<Rightarrow> usize \<Rightarrow> usize \<Rightarrow> unit ending \<times> 'os \<Rightarrow> 'os prefetch \<Rightarrow> bool" where
  "worker_inv L raw off len E st =
     (let s = os (pf_world st) in
      case pf_worker st of
        W_Start \<Rightarrow> pf_result st = None \<and> E = pass L raw off len (unat off) s
      | W_Loop pos \<Rightarrow> pf_result st = None \<and> E = pass L raw off len (unat pos) s
      | W_Publish r \<Rightarrow> pf_result st = None \<and> result_ok E (pf_cancelled st) r s
      | _ \<Rightarrow> (case pf_caller st of
                C_Returned (Inl (Timeout _ _ _)) \<Rightarrow> pf_cancelled st
              | C_Returned r \<Rightarrow> result_ok E (pf_cancelled st) r s
              | _ \<Rightarrow> (\<exists>r. pf_result st = Some r \<and> result_ok E (pf_cancelled st) r s)))"

definition pf_inv ::
    "'os libc \<Rightarrow> raw_mmap \<Rightarrow> usize \<Rightarrow> usize \<Rightarrow> 'os world \<Rightarrow> 'os prefetch \<Rightarrow> bool" where
  "pf_inv L raw off len w st \<longleftrightarrow>
     regs (pf_world st) = regs w
     \<and> (if pf_dead st = None
        then sig_inv (pf_world st) \<and> worker_inv L raw off len (pass L raw off len (unat off) (os w)) st
        else fst (pass L raw off len (unat off) (os w)) = Died)"

lemma thread_exit_sig_inv:
  assumes "sig_inv w"
  shows "\<exists>w'. thread_exit t w = (Ret (), w') \<and> sig_inv w' \<and> os w' = os w \<and> regs w' = regs w"
proof (cases "key_once w = Complete")
  case True
  have ti: "thread_inv w" using assms by (simp add: sig_inv_def)
  obtain w' where w': "thread_exit t w = (Ret (), w')" "thread_inv w'"
    using thread_exit_ok [OF ti True] by blast
  then have "same_but_threads w w'"
    using True by (auto simp: thread_exit_def destroy_thread_state_def Let_def same_but_threads_def
        split: slot.splits option.splits)
  with w' assms show ?thesis
    by (intro exI [of _ w']) (simp add: sig_inv_def handler_inv_def same_but_threads_def)
next
  case False
  with assms show ?thesis by (simp add: thread_exit_def)
qed

lemma probe_pages_iter_ok:
  assumes env: "signal_ok L" "page_pow2 L k" and inv: "sig_inv w" and m: "mapped L w raw"
    and fits: "holds_slice raw off len"
    and pa: "pa_base pa = rm_ptr raw" "pa_offset pa = off" "pa_len pa = len"
  shows "if pos < off + len \<and> \<not> c then
      (\<exists>w'. regs w' = regs w \<and>
         (case mem_load L (rm_ptr raw + pos) (os w) of
            (Value b, s) \<Rightarrow> probe_pages_iter L t pa c pos w = (Ret (Inr (pos + 2 ^ k)), w')
                           \<and> os w' = s \<and> sig_inv w' \<and> unat (pos + 2 ^ k) = unat pos + 2 ^ k
          | (BusError, s) \<Rightarrow>
              probe_pages_iter L t pa c pos w = (Ret (Inl (Inl (Sigbus (rm_ptr raw + pos)))), w')
              \<and> os w' = s \<and> sig_inv w'
          | (SegFault, s) \<Rightarrow> probe_pages_iter L t pa c pos w = (Killed SIGSEGV, w')))
    else probe_pages_iter L t pa c pos w = (Ret (Inl (Inr ())), w)"
proof -
  have ok: "raw_ok L raw" using m by (simp add: mapped_def)
  have len: "unat off + unat len \<le> unat (rm_len raw)" using fits by (simp add: holds_slice_def)
  have k: "k < 64" using env(2) by (simp add: page_pow2_def)
  have page: "unat off + unat len + 2 ^ k < 2 ^ 64" by (rule raw_ok_in_range [OF env(2) ok len])
  then have stop: "unat (off + len) = unat off + unat len" by (intro unat_add_no_wrap) linarith
  have add: "usize_add (overflow_checks L) off len = (ret (off + len) :: ('os world, usize) comp)"
    using page by (intro usize_add_ok) linarith
  show ?thesis
  proof (cases "pos < off + len \<and> \<not> c")
    case False
    then show ?thesis using env(2) pa by (auto simp: probe_pages_iter_def add)
  next
    case True
    then have pos: "unat pos < unat off + unat len" by (simp add: word_less_nat_alt stop)
    have np: "unat (pos + 2 ^ k) = unat pos + 2 ^ k"
      using pos page k by (subst unat_add_no_wrap) (simp_all add: unat_pow2)
    have addp: "usize_add (overflow_checks L) pos (2 ^ k) = (ret (pos + 2 ^ k) :: ('os world, usize) comp)"
      using pos page k by (intro usize_add_ok) (simp add: unat_pow2)
    have "unat (rm_ptr raw) + unat pos < 2 ^ 64" using ok pos len by (simp add: raw_ok_def)
    then have q: "probe_page L (rm_ptr raw) pos = Load (rm_ptr raw + pos) (\<lambda>_. Return ())"
      by (simp add: probe_page_def)
    have one: "unat pos + unat (1 :: usize) \<le> unat (rm_len raw)" using pos len by simp
    have "within (recoverable L w) (probe_page L (rm_ptr raw) pos)"
      using slice_registered [OF m one, of "rm_ptr raw + pos"]
      by (simp add: q in_slice_def recoverable_registered)
    then obtain w' where w': "protected L t (probe_page L (rm_ptr raw) pos) w
          = (ending_outcome (fst (exec L (probe_page L (rm_ptr raw) pos) (os w))), w')"
      "os w' = snd (exec L (probe_page L (rm_ptr raw) pos) (os w))" "regs w' = regs w"
      "fst (exec L (probe_page L (rm_ptr raw) pos) (os w)) \<noteq> Died \<longrightarrow> sig_inv w'"
      using protected_exact [OF env(1) inv, of "probe_page L (rm_ptr raw) pos" t] by (auto simp: q)
    obtain res s where ld: "mem_load L (rm_ptr raw + pos) (os w) = (res, s)" by fastforce
    show ?thesis
      using True w' ld env(2) pa np
      by (cases res) (auto simp: probe_pages_iter_def add addp q and_then_def [of "protected _ _ _"])
  qed
qed

lemma probe_pages_iter_next:
  assumes "signal_ok L" "page_pow2 L k" "sig_inv w" "mapped L w raw" "holds_slice raw off len"
    and "pa_base pa = rm_ptr raw" "pa_offset pa = off" "pa_len pa = len"
    and nx: "fst (probe_pages_iter L t pa c pos w) = Ret (Inr pos')"
  shows "pos < off + len \<and> unat pos' = unat pos + 2 ^ k"
proof -
  obtain res s where "mem_load L (rm_ptr raw + pos) (os w) = (res, s)" by fastforce
  with probe_pages_iter_ok [OF assms(1-8), of pos c t] nx show ?thesis
    by (cases res) (auto split: if_splits)
qed

text \<open>The arguments of a prefetch on a registered mapping.\<close>

definition pf_args_ok :: "'os libc \<Rightarrow> raw_mmap \<Rightarrow> prefetch_args \<Rightarrow> bool" where
  "pf_args_ok L raw pa \<longleftrightarrow>
     signal_ok L \<and> (\<exists>k. page_pow2 L k) \<and> pa_base pa = rm_ptr raw
     \<and> holds_slice raw (pa_offset pa) (pa_len pa)"

lemma pass_unfold:
  assumes "page_pow2 L k" and "unat pos < unat off + unat len"
    and "unat (pos + 2 ^ k) = unat pos + 2 ^ k"
  shows "pass L raw off len (unat pos) s =
     (case mem_load L (rm_ptr raw + pos) s of
        (Value b, s') \<Rightarrow> pass L raw off len (unat (pos + 2 ^ k)) s'
      | (BusError, s') \<Rightarrow> (Faulted (rm_ptr raw + pos), s')
      | (SegFault, s') \<Rightarrow> (Died, s'))"
proof -
  have "unat (SC_PAGESIZE L) = 2 ^ k" using assms(1) by (simp add: page_pow2_def unat_pow2)
  then show ?thesis
    using assms(2,3)
    by (simp add: pass_def probe_program_def stride.simps [of _ "unat pos"]
        split: prod.split mem_result.split)
qed

lemma pass_done:
  assumes "unat off + unat len \<le> unat pos"
  shows "pass L raw off len (unat pos) s = (Finished (), s)"
  using assms by (simp add: pass_def probe_program_def stride.simps)

lemma pf_inv_loop:
  assumes args: "pf_args_ok L raw pa" and m: "mapped L w raw"
    and inv: "pf_inv L raw (pa_offset pa) (pa_len pa) w st" and alive: "pf_dead st = None"
    and pc: "pf_worker st = W_Loop pos"
  shows "pf_inv L raw (pa_offset pa) (pa_len pa) w
    (worker_run (probe_pages_iter L t pa (pf_cancelled st) pos)
                  (\<lambda>r. case r of Inl res \<Rightarrow> W_Publish res | Inr pos' \<Rightarrow> W_Loop pos') st)"
proof -
  let ?off = "pa_offset pa" and ?len = "pa_len pa" and ?w = "pf_world st"
  let ?E = "pass L raw ?off ?len (unat ?off) (os w)"
  obtain k where k: "page_pow2 L k" using args by (auto simp: pf_args_ok_def)
  have st: "regs ?w = regs w" "sig_inv ?w" "pf_result st = None"
      and E: "?E = pass L raw ?off ?len (unat pos) (os ?w)"
    using inv alive pc by (simp_all add: pf_inv_def worker_inv_def Let_def)
  have mp: "mapped L ?w raw" by (rule mapped_cong [OF m st(1)])
  have fits: "unat ?off + unat ?len \<le> unat (rm_len raw)" and ok: "raw_ok L raw"
    using args m by (simp_all add: pf_args_ok_def holds_slice_def mapped_def)
  have stop: "unat (?off + ?len) = unat ?off + unat ?len"
    using raw_ok_in_range [OF k ok fits] by (intro unat_add_no_wrap) linarith
  have iter: "if pos < ?off + ?len \<and> \<not> pf_cancelled st then
      (\<exists>w'. regs w' = regs ?w \<and>
         (case mem_load L (rm_ptr raw + pos) (os ?w) of
            (Value b, s) \<Rightarrow> probe_pages_iter L t pa (pf_cancelled st) pos ?w = (Ret (Inr (pos + 2 ^ k)), w')
                           \<and> os w' = s \<and> sig_inv w' \<and> unat (pos + 2 ^ k) = unat pos + 2 ^ k
          | (BusError, s) \<Rightarrow>
              probe_pages_iter L t pa (pf_cancelled st) pos ?w = (Ret (Inl (Inl (Sigbus (rm_ptr raw + pos)))), w')
              \<and> os w' = s \<and> sig_inv w'
          | (SegFault, s) \<Rightarrow> probe_pages_iter L t pa (pf_cancelled st) pos ?w = (Killed SIGSEGV, w')))
    else probe_pages_iter L t pa (pf_cancelled st) pos ?w = (Ret (Inl (Inr ())), ?w)"
    using args by (intro probe_pages_iter_ok [OF _ k st(2) mp]) (simp_all add: pf_args_ok_def)
  show ?thesis
  proof (cases "pos < ?off + ?len \<and> \<not> pf_cancelled st")
    case False
    then have "pf_cancelled st \<or> ?E = (Finished (), os ?w)"
      using E pass_done [of ?off ?len pos L raw] by (auto simp: word_less_nat_alt stop)
    with False iter st alive show ?thesis
      by (auto simp: worker_run_def pf_inv_def worker_inv_def Let_def)
  next
    case True
    then have lt: "unat pos < unat ?off + unat ?len" by (simp add: word_less_nat_alt stop)
    have np: "unat (pos + 2 ^ k) = unat pos + 2 ^ k"
      using lt raw_ok_in_range [OF k ok fits] k
      by (subst unat_add_no_wrap) (simp_all add: unat_pow2 page_pow2_def)
    obtain res s where ld: "mem_load L (rm_ptr raw + pos) (os ?w) = (res, s)" by fastforce
    from True iter ld E st alive pass_unfold [OF k lt np, of raw "os ?w"] show ?thesis
      by (cases res) (auto simp: worker_run_def pf_inv_def worker_inv_def Let_def)
  qed
qed

lemma worker_inv_ended:
  assumes "pf_worker st = W_Exit \<or> pf_worker st = W_Done" and "\<And>r. pf_caller st \<noteq> C_Returned r"
  shows "worker_inv L raw off len E st \<longleftrightarrow>
     (\<exists>r. pf_result st = Some r \<and> result_ok E (pf_cancelled st) r (os (pf_world st)))"
  using assms by (cases "pf_caller st") (auto simp: worker_inv_def Let_def)

lemma pf_inv_start:
  assumes inv: "pf_inv L raw (pa_offset pa) (pa_len pa) w st" and env: "signal_ok L"
    and alive: "pf_dead st = None" and pc: "pf_worker st = W_Start" and step: "worker_step L t pa st = Some st'"
  shows "pf_inv L raw (pa_offset pa) (pa_len pa) w st'"
proof -
  have "sig_inv (pf_world st)" using inv alive by (simp add: pf_inv_def)
  then obtain w' where "install L (pf_world st) = (Ret (), w')" "sig_inv w'"
      "os w' = os (pf_world st)" "regs w' = regs (pf_world st)"
    using install_sig_inv [OF env] by blast
  moreover from this have "st' = st\<lparr>pf_world := w', pf_worker := W_Loop (pa_offset pa)\<rparr>"
    using pc step alive by (simp add: worker_step.simps worker_run_def)
  ultimately show ?thesis
    using pc inv alive by (simp add: pf_inv_def worker_inv_def Let_def)
qed

lemma pf_inv_publish:
  assumes inv: "pf_inv L raw (pa_offset pa) (pa_len pa) w st" and alive: "pf_dead st = None"
    and nr: "\<And>r. pf_caller st \<noteq> C_Returned r" and pc: "pf_worker st = W_Publish r"
    and step: "worker_step L t pa st = Some st'"
  shows "pf_inv L raw (pa_offset pa) (pa_len pa) w st'"
proof -
  have st': "st' = st\<lparr>pf_result := Some r, pf_worker := W_Exit\<rparr>"
    using step alive pc by (simp add: worker_step.simps)
  let ?E = "pass L raw (pa_offset pa) (pa_len pa) (unat (pa_offset pa)) (os w)"
  have ok: "result_ok ?E (pf_cancelled st) r (os (pf_world st))" "regs (pf_world st) = regs w"
      "sig_inv (pf_world st)"
    using inv alive pc by (simp_all add: pf_inv_def worker_inv_def Let_def)
  have "worker_inv L raw (pa_offset pa) (pa_len pa) ?E st'"
    by (rule worker_inv_ended [THEN iffD2]) (use ok nr in \<open>simp_all add: st'\<close>)
  then show ?thesis using ok alive by (simp add: pf_inv_def) (simp add: st')
qed

lemma pf_inv_exit:
  assumes inv: "pf_inv L raw (pa_offset pa) (pa_len pa) w st" and alive: "pf_dead st = None"
    and nr: "\<And>r. pf_caller st \<noteq> C_Returned r" and pc: "pf_worker st = W_Exit"
    and step: "worker_step L t pa st = Some st'"
  shows "pf_inv L raw (pa_offset pa) (pa_len pa) w st'"
proof -
  have "sig_inv (pf_world st)" using inv alive by (simp add: pf_inv_def)
  then obtain w' where "thread_exit t (pf_world st) = (Ret (), w')" "sig_inv w'"
      "os w' = os (pf_world st)" "regs w' = regs (pf_world st)"
    using thread_exit_sig_inv by blast
  moreover from this have "st' = st\<lparr>pf_world := w', pf_worker := W_Done\<rparr>"
    using pc step alive by (simp add: worker_step.simps worker_run_def)
  ultimately show ?thesis
    using pc inv alive worker_inv_ended [of st] worker_inv_ended [of st'] nr
    by (simp add: pf_inv_def)
qed

lemma pf_inv_worker:
  assumes args: "pf_args_ok L raw pa" and m: "mapped L w raw"
    and inv: "pf_inv L raw (pa_offset pa) (pa_len pa) w st"
    and busy: "\<And>r. pf_caller st = C_Returned r \<or> pf_caller st = C_Take \<Longrightarrow> pf_worker st = W_Done"
    and step: "worker_step L t pa st = Some st'"
  shows "pf_inv L raw (pa_offset pa) (pa_len pa) w st'"
proof -
  have alive: "pf_dead st = None" using step by (auto simp: worker_step.simps split: if_splits)
  have env: "signal_ok L" using args by (simp add: pf_args_ok_def)
  show ?thesis
  proof (cases "pf_worker st")
    case W_Start
    then show ?thesis by (rule pf_inv_start [OF inv env alive _ step])
  next
    case (W_Loop pos)
    then have "st' = worker_run (probe_pages_iter L t pa (pf_cancelled st) pos)
                  (\<lambda>r. case r of Inl res \<Rightarrow> W_Publish res | Inr pos' \<Rightarrow> W_Loop pos') st"
      using step alive by (simp add: worker_step.simps)
    then show ?thesis using pf_inv_loop [OF args m inv alive W_Loop] by simp
  next
    case (W_Publish r)
    then show ?thesis using busy by (intro pf_inv_publish [OF inv alive _ _ step]) auto
  next
    case W_Exit
    then show ?thesis using busy by (intro pf_inv_exit [OF inv alive _ _ step]) auto
  next
    case W_Done
    then show ?thesis using step by (simp add: worker_step.simps split: if_splits)
  qed
qed

lemma pf_inv_caller:
  assumes inv: "pf_inv L raw (pa_offset pa) (pa_len pa) w st"
    and fin: "\<And>r. pf_caller st = C_Returned r \<or> pf_caller st = C_Take \<Longrightarrow> pf_worker st = W_Done"
    and canc: "pf_caller st = C_Join_timeout \<Longrightarrow> pf_cancelled st"
    and step: "caller_step pa b st = Some st'"
  shows "pf_inv L raw (pa_offset pa) (pa_len pa) w st'"
proof -
  have alive: "pf_dead st = None" using step by (auto simp: caller_step.simps split: if_splits)
  let ?E = "pass L raw (pa_offset pa) (pa_len pa) (unat (pa_offset pa)) (os w)"
  note defs = caller_step.simps pf_inv_def worker_inv_def Let_def
  have mono: "result_ok ?E True r s" if "result_ok ?E c r s" for c r s
    using result_ok_mono [OF that] by simp
  show ?thesis
  proof (cases "pf_caller st")
    case C_Take
    then have "pf_worker st = W_Done" using fin by blast
    with C_Take inv alive step show ?thesis
      by (auto simp: defs split: sum.splits access_error.splits)
  next
    case C_Join_timeout
    with inv alive step canc show ?thesis
      by (auto simp: defs split: if_splits)
  next
    case C_Wait
    with inv alive step mono show ?thesis
      by (auto simp: defs split: worker.splits if_splits)
  qed (use inv alive step in \<open>auto simp: defs split: worker.splits if_splits\<close>)
qed

lemma pf_reach_inv:
  assumes args: "pf_args_ok L raw pa" and m: "mapped L w raw" and inv: "sig_inv w"
  shows "pf_reach L t pa w st \<Longrightarrow> pf_inv L raw (pa_offset pa) (pa_len pa) w st"
proof (induction rule: pf_reach.induct)
  case start
  show ?case using inv by (simp add: prefetch_start_def pf_inv_def worker_inv_def Let_def)
next
  case (step st st')
  note j = joined_before_return [OF step.hyps(1)]
  from step.hyps(2) show ?case
  proof (rule pf_stepE)
    assume "worker_step L t pa st = Some st'"
    from pf_inv_worker [OF args m step.IH _ this] j show ?thesis by blast
  next
    fix b assume "caller_step pa b st = Some st'"
    from pf_inv_caller [OF step.IH _ _ this] j show ?thesis by blast
  qed
qed

text \<open>
  What the caller gets: success exactly of the complete pass, the address of its first fault, or
  a timeout, which is reported only after cancelling.
\<close>

lemma prefetch_result:
  assumes args: "pf_args_ok L raw pa" and m: "mapped L w raw" and inv: "sig_inv w"
    and reach: "pf_reach L t pa w st" and r: "pf_caller st = C_Returned r" and alive: "pf_dead st = None"
  defines "E \<equiv> pass L raw (pa_offset pa) (pa_len pa) (unat (pa_offset pa)) (os w)"
  shows "r = Inr () \<and> E = (Finished (), os (pf_world st))
     \<or> (\<exists>a. r = Inl (Sigbus a) \<and> E = (Faulted a, os (pf_world st)))
     \<or> r = Inl (Timeout (pa_offset pa) (pa_len pa) (pa_timeout pa)) \<and> pf_cancelled st"
proof -
  note j = joined_before_return [OF reach]
  have "worker_inv L raw (pa_offset pa) (pa_len pa) E st"
    using pf_reach_inv [OF args m inv reach] alive by (simp add: pf_inv_def E_def)
  moreover have "pf_worker st = W_Done" using j r by blast
  ultimately have i: "case r of Inl (Timeout x y z) \<Rightarrow> pf_cancelled st
      | _ \<Rightarrow> result_ok E (pf_cancelled st) r (os (pf_world st))"
    using r by (simp add: worker_inv_def Let_def split: sum.splits access_error.splits)
  show ?thesis
  proof (cases "pf_cancelled st")
    case True
    then show ?thesis using j r by auto
  next
    case False
    with i show ?thesis by (cases r) (auto split: access_error.splits)
  qed
qed

section \<open>Termination and progress\<close>

fun worker_rank :: "prefetch_args \<Rightarrow> worker \<Rightarrow> nat" where
  "worker_rank pa W_Start = unat (pa_len pa) + 4"
| "worker_rank pa (W_Loop pos) = unat (pa_offset pa) + unat (pa_len pa) - unat pos + 3"
| "worker_rank pa (W_Publish r) = 2"
| "worker_rank pa W_Exit = 1"
| "worker_rank pa W_Done = 0"

fun caller_rank :: "caller \<Rightarrow> nat" where
  "caller_rank C_Lock = 4"
| "caller_rank C_Wait = 3"
| "caller_rank C_Join_timeout = 2"
| "caller_rank C_Join = 2"
| "caller_rank C_Take = 1"
| "caller_rank (C_Returned r) = 0"

definition pf_rank :: "prefetch_args \<Rightarrow> 'os prefetch \<Rightarrow> nat" where
  "pf_rank pa st =
     (if pf_dead st = None then worker_rank pa (pf_worker st) + caller_rank (pf_caller st) + 1 else 0)"

lemma probe_rank:
  assumes args: "pf_args_ok L raw pa" and m: "mapped L w raw" and inv: "sig_inv w"
    and x: "fst (probe_pages_iter L t pa c pos w) = Ret x"
  shows "worker_rank pa (case x of Inl res \<Rightarrow> W_Publish res | Inr pos' \<Rightarrow> W_Loop pos')
     < worker_rank pa (W_Loop pos)"
proof (cases x)
  case (Inr pos')
  obtain k where k: "page_pow2 L k" using args by (auto simp: pf_args_ok_def)
  have fits: "unat (pa_offset pa) + unat (pa_len pa) \<le> unat (rm_len raw)" and ok: "raw_ok L raw"
    using args m by (simp_all add: pf_args_ok_def holds_slice_def mapped_def)
  have stop: "unat (pa_offset pa + pa_len pa) = unat (pa_offset pa) + unat (pa_len pa)"
    using raw_ok_in_range [OF k ok fits] by (intro unat_add_no_wrap) linarith
  have "pos < pa_offset pa + pa_len pa \<and> unat pos' = unat pos + 2 ^ k"
    using x Inr args
    by (intro probe_pages_iter_next [OF _ k inv m]) (auto simp: pf_args_ok_def)
  then have "unat pos < unat pos'" "unat pos < unat (pa_offset pa) + unat (pa_len pa)"
    by (simp_all add: word_less_nat_alt stop)
  then show ?thesis using Inr by (simp add: diff_less_mono2)
qed simp

lemma worker_step_rank:
  fixes st :: "'os prefetch"
  assumes args: "pf_args_ok L raw pa" and m: "mapped L w raw"
    and inv: "pf_inv L raw (pa_offset pa) (pa_len pa) w st"
    and step: "worker_step L t pa st = Some st'"
  shows "pf_rank pa st' < pf_rank pa st"
proof -
  have alive: "pf_dead st = None" using step by (auto simp: worker_step.simps split: if_splits)
  have drop: "pf_rank pa (worker_run c nx st) < pf_rank pa st"
    if "1 < worker_rank pa (pf_worker st) \<or> (\<forall>msg. fst (c (pf_world st)) \<noteq> Panicked msg)"
      and "\<And>x. fst (c (pf_world st)) = Ret x \<Longrightarrow> worker_rank pa (nx x) < worker_rank pa (pf_worker st)"
    for c :: "('os world, 'b) comp" and nx
    using that alive by (auto simp: worker_run_def pf_rank_def split: prod.splits outcome.splits)
  show ?thesis
  proof (cases "pf_worker st")
    case (W_Loop pos)
    have "regs (pf_world st) = regs w" "sig_inv (pf_world st)"
      using inv alive by (simp_all add: pf_inv_def)
    note probe_rank [OF args mapped_cong [OF m this(1)] this(2)]
    then show ?thesis
      using step alive W_Loop by (auto simp: worker_step.simps intro!: drop)
  next
    case W_Exit
    have "sig_inv (pf_world st)" using inv alive by (simp add: pf_inv_def)
    then obtain w' where "thread_exit t (pf_world st) = (Ret (), w')"
      using thread_exit_sig_inv by blast
    then show ?thesis
      using step alive W_Exit by (auto simp: worker_step.simps intro!: drop)
  next
    case W_Start
    then show ?thesis using step alive by (auto simp: worker_step.simps intro!: drop)
  next
    case (W_Publish r)
    then show ?thesis using step alive by (auto simp: worker_step.simps pf_rank_def)
  next
    case W_Done
    then show ?thesis using step alive by (simp add: worker_step.simps)
  qed
qed

lemma caller_step_rank:
  "caller_step pa b st = Some st' \<Longrightarrow> pf_rank pa st' < pf_rank pa st"
  by (auto simp: caller_step.simps pf_rank_def split: if_splits caller.splits)

lemma pf_step_rank:
  assumes "pf_args_ok L raw pa" and "mapped L w raw" and "sig_inv w"
    and "pf_reach L t pa w st" and "pf_step L t pa st st'"
  shows "pf_rank pa st' < pf_rank pa st"
  using assms(5)
proof (rule pf_stepE)
  assume "worker_step L t pa st = Some st'"
  then show ?thesis by (rule worker_step_rank [OF assms(1,2) pf_reach_inv [OF assms(1-4)]])
qed (rule caller_step_rank)

lemma pf_progress:
  assumes "pf_dead st = None" and "\<And>r. pf_caller st \<noteq> C_Returned r"
  shows "\<exists>st'. pf_step L t pa st st'"
proof (cases "pf_worker st = W_Done")
  case True
  with assms have "\<exists>st'. caller_step pa True st = Some st'"
    by (cases "pf_caller st") (auto simp: caller_step.simps)
  then show ?thesis by (auto intro: pf_step.caller)
next
  case False
  with assms have "\<exists>st'. worker_step L t pa st = Some st'"
    by (cases "pf_worker st") (auto simp: worker_step.simps)
  then show ?thesis by (auto intro: pf_step.worker)
qed

section \<open>Runs\<close>

lemma pf_choose_step: "pf_choose L t pa c st = Some st' \<Longrightarrow> pf_step L t pa st st'"
  by (cases c) (auto intro: pf_step.intros)

lemma pf_run_reach: "pf_reach L t pa w st \<Longrightarrow> pf_reach L t pa w (pf_run L t pa cs st)"
proof (induction cs arbitrary: st)
  case (Cons c cs)
  have "pf_reach L t pa w st'" if "pf_choose L t pa c st = Some st'" for st'
    using Cons.prems pf_choose_step [OF that] by (rule pf_reach.step)
  with Cons show ?case by (auto split: option.split)
qed simp

lemma pf_run_append: "pf_run L t pa (cs @ ds) st = pf_run L t pa ds (pf_run L t pa cs st)"
  by (induction cs arbitrary: st) (auto split: option.split)

text \<open>
  A fair schedule: it can be cut into rounds in each of which both threads get at least one turn,
  in any order and number; the boolean of a turn is what the wait of the caller reports.
\<close>

definition both_turn :: "sched list \<Rightarrow> bool" where
  "both_turn cs \<longleftrightarrow> Worker \<in> set cs \<and> (\<exists>b. Caller b \<in> set cs)"

definition fair_rounds :: "nat \<Rightarrow> sched list \<Rightarrow> bool" where
  "fair_rounds n sch \<longleftrightarrow> (\<exists>css. sch = concat css \<and> length css = n \<and> (\<forall>cs \<in> set css. both_turn cs))"

definition ended :: "'os prefetch \<Rightarrow> bool" where
  "ended st \<longleftrightarrow> pf_dead st \<noteq> None \<or> (\<exists>r. pf_caller st = C_Returned r)"

lemma pf_run_stuck: "(\<And>c. c \<in> set cs \<Longrightarrow> pf_choose L t pa c st = None) \<Longrightarrow> pf_run L t pa cs st = st"
  by (induction cs) simp_all

text \<open>Any turns lower the rank, unless none of the threads that got a turn could take a step.\<close>

lemma pf_run_rank:
  assumes ok: "pf_args_ok L raw pa" "mapped L w raw" "sig_inv w"
  shows "pf_reach L t pa w st \<Longrightarrow> pf_rank pa (pf_run L t pa cs st) < pf_rank pa st
     \<or> (\<forall>c \<in> set cs. pf_choose L t pa c st = None)"
proof (induction cs arbitrary: st)
  case (Cons c cs)
  show ?case
  proof (cases "pf_choose L t pa c st")
    case None
    then show ?thesis using Cons by simp
  next
    case (Some st1)
    have reach: "pf_reach L t pa w st1"
      using Cons.prems pf_choose_step [OF Some] by (rule pf_reach.step)
    have "pf_rank pa st1 < pf_rank pa st"
      by (rule pf_step_rank [OF ok Cons.prems pf_choose_step [OF Some]])
    moreover have "pf_rank pa (pf_run L t pa cs st1) \<le> pf_rank pa st1"
      using Cons.IH [OF reach] pf_run_stuck [of cs L t pa st1] by auto
    ultimately show ?thesis using Some by simp
  qed
qed simp

lemma stuck_ended:
  assumes w: "worker_step L t pa st = None" and c: "caller_step pa b st = None"
  shows "ended st"
proof (cases "pf_dead st = None")
  case True
  then have "pf_worker st = W_Done" using w by (cases "pf_worker st") (auto simp: worker_step.simps)
  with True c show ?thesis by (cases "pf_caller st") (auto simp: caller_step.simps ended_def)
qed (simp add: ended_def)

lemma ended_stays:
  assumes "pf_reach L t pa w st" and "ended st"
  shows "pf_run L t pa cs st = st"
proof (rule pf_run_stuck)
  fix c show "pf_choose L t pa c st = None"
    using joined_before_return [OF assms(1)] assms(2)
    by (cases c) (auto simp: ended_def worker_step.simps caller_step.simps)
qed

lemma round_rank:
  assumes ok: "pf_args_ok L raw pa" "mapped L w raw" "sig_inv w" and reach: "pf_reach L t pa w st"
    and cs: "both_turn cs"
  shows "pf_rank pa (pf_run L t pa cs st) < pf_rank pa st \<or> ended st"
proof -
  obtain b where turns: "Worker \<in> set cs" "Caller b \<in> set cs" using cs by (auto simp: both_turn_def)
  have "ended st" if "\<forall>c \<in> set cs. pf_choose L t pa c st = None"
    using bspec [OF that turns(1)] bspec [OF that turns(2)] by (intro stuck_ended) simp_all
  then show ?thesis using pf_run_rank [OF ok reach, of cs] by blast
qed

lemma fair_rounds_end:
  assumes ok: "pf_args_ok L raw pa" "mapped L w raw" "sig_inv w" and reach: "pf_reach L t pa w st"
    and fair: "fair_rounds n sch" and enough: "pf_rank pa st \<le> n"
  shows "ended (pf_run L t pa sch st)"
proof -
  have "ended (pf_run L t pa (concat css) st)"
    if "pf_reach L t pa w st" "pf_rank pa st \<le> length css" "\<forall>cs \<in> set css. both_turn cs" for css
    using that
  proof (induction css arbitrary: st)
    case Nil
    then have "pf_dead st \<noteq> None" by (auto simp: pf_rank_def split: if_splits)
    then show ?case by (simp add: ended_def)
  next
    case (Cons cs css)
    let ?st = "pf_run L t pa cs st"
    have run: "pf_run L t pa (concat (cs # css)) st = pf_run L t pa (concat css) ?st"
      by (simp add: pf_run_append)
    show ?case
    proof (cases "ended st")
      case True
      then show ?thesis using ended_stays [OF Cons.prems(1)] by (simp only: run)
    next
      case False
      then have "pf_rank pa ?st \<le> length css"
        using round_rank [OF ok Cons.prems(1), of cs] Cons.prems(2,3) by auto
      then show ?thesis
        using Cons.IH [OF pf_run_reach [OF Cons.prems(1)]] Cons.prems(3) by (simp only: run) simp
    qed
  qed
  then show ?thesis using reach fair enough by (auto simp: fair_rounds_def)
qed

text \<open>
  The call returns: under every schedule with enough rounds it delivers the result of the pass, or
  a timeout.
\<close>

lemma prefetch_with_deadline_returns:
  fixes L :: "'os libc"
  assumes env: "signal_ok L" "page_pow2 L k" and inv: "sig_inv w" and m: "mapped L w raw"
    and fits: "holds_slice raw off len" and turns: "unat len + 9 \<le> n" "fair_rounds n sch"
    and alive: "fst (pass L raw off len (unat off) (os w)) \<noteq> Died"
  shows "\<exists>r w'. prefetch_with_deadline L t sch (rm_ptr raw) off len timeout w = (Ret r, w')
     \<and> sig_inv w' \<and> regs w' = regs w
     \<and> (r = Inr () \<and> pass L raw off len (unat off) (os w) = (Finished (), os w')
        \<or> (\<exists>a. r = Inl (Sigbus a) \<and> pass L raw off len (unat off) (os w) = (Faulted a, os w'))
        \<or> r = Inl (Timeout off len timeout))"
proof -
  let ?pa = "\<lparr>pa_base = rm_ptr raw, pa_offset = off, pa_len = len, pa_timeout = timeout\<rparr>"
  let ?st = "pf_run L t ?pa sch (prefetch_start w)"
  have ok: "pf_args_ok L raw ?pa" using env fits by (auto simp: pf_args_ok_def)
  have reach: "pf_reach L t ?pa w ?st" by (rule pf_run_reach [OF pf_reach.start])
  have pi: "pf_inv L raw off len w ?st" using pf_reach_inv [OF ok m inv reach] by simp
  with alive have nd: "pf_dead ?st = None" by (auto simp: pf_inv_def split: if_splits)
  have "pf_rank ?pa (prefetch_start w) \<le> n"
    using turns by (simp add: pf_rank_def prefetch_start_def)
  from fair_rounds_end [OF ok m inv pf_reach.start turns(2) this, of t] nd obtain r where r: "pf_caller ?st = C_Returned r"
    by (auto simp: ended_def)
  have "prefetch_with_deadline L t sch (rm_ptr raw) off len timeout w = (Ret r, pf_world ?st)"
    using nd r by (simp add: prefetch_with_deadline_def Let_def)
  moreover have "sig_inv (pf_world ?st)" "regs (pf_world ?st) = regs w"
    using pi nd by (simp_all add: pf_inv_def)
  ultimately show ?thesis using prefetch_result [OF ok m inv reach r nd] by auto
qed

section \<open>Which pages a pass touches\<close>

definition probed_pages :: "nat \<Rightarrow> nat \<Rightarrow> nat \<Rightarrow> nat set" where
  "probed_pages p off len = (\<lambda>x. x div p) ` set (stride p off (off + len))"

lemma probed_pages_eq:
  assumes "0 < p" and "0 < len"
  shows "probed_pages p off len = {off div p..off div p + (len - 1) div p}"
proof (rule set_eqI)
  fix q
  have d: "(off + i * p) div p = off div p + i" for i using assms(1) by simp
  have m: "off + i * p < off + len \<longleftrightarrow> i \<le> (len - 1) div p" for i
    using assms less_eq_div_iff_mult_less_eq [of p i "len - 1"] by auto
  have "q \<in> probed_pages p off len \<longleftrightarrow> (\<exists>i. q = (off + i * p) div p \<and> off + i * p < off + len)"
    using set_stride [OF assms(1), of _ off "off + len"] by (fastforce simp: probed_pages_def image_iff)
  also have "\<dots> \<longleftrightarrow> (\<exists>i. q = off div p + i \<and> i \<le> (len - 1) div p)"
    by (simp only: d m)
  also have "\<dots> \<longleftrightarrow> q \<in> {off div p..off div p + (len - 1) div p}"
    by (auto intro: exI [of _ "q - off div p"])
  finally show "q \<in> probed_pages p off len \<longleftrightarrow> q \<in> {off div p..off div p + (len - 1) div p}" .
qed

lemma touched_pages_eq:
  assumes "0 < p" and "0 < len"
  shows "touched_pages p off len = {off div p..(off + len - 1) div p}"
proof (rule set_eqI)
  fix q
  have "q \<in> touched_pages p off len \<longleftrightarrow> page_floor p off \<le> q * p \<and> q * p < page_ceil p (off + len)"
    using rounded_range_touched [OF assms, of off "q * p"] assms(1) by simp
  also have "page_floor p off \<le> q * p \<longleftrightarrow> off div p \<le> q"
    using assms(1) by (simp add: page_floor_def)
  also have "q * p < page_ceil p (off + len) \<longleftrightarrow> q \<le> (off + len - 1) div p"
  proof -
    have "off + len + p - 1 = (off + len - 1) + p" using assms(2) by simp
    then have "(off + len + p - 1) div p = (off + len - 1) div p + 1"
      using assms(1) by (simp only: div_add_self2)
    then show ?thesis
      unfolding page_ceil_def using assms(1) by (simp only: mult_less_cancel2) auto
  qed
  finally show "q \<in> touched_pages p off len \<longleftrightarrow> q \<in> {off div p..(off + len - 1) div p}" by simp
qed

text \<open>The last page of a range is beyond the reach of the pass just when the in-page offsets add up.\<close>

lemma reached_iff:
  assumes "0 < p" and "0 < len" and "q \<in> touched_pages p off len"
  shows "q \<in> probed_pages p off len
     \<longleftrightarrow> off mod p + (len - 1) mod p < p \<or> q < (off + len - 1) div p"
proof -
  let ?r = "off mod p + (len - 1) mod p"
  have "off + len - 1 = off + (len - 1)" using assms(2) by simp
  then have last: "(off + len - 1) div p = off div p + (len - 1) div p + ?r div p"
    using div_add1_eq [of off "len - 1" p] by (simp only:)
  have "?r < 2 * p" using assms(1) mod_less_divisor [of p off] mod_less_divisor [of p "len - 1"] by linarith
  then have "?r div p < 2" using assms(1) by (simp add: div_less_iff_less_mult)
  moreover have "?r div p = 0 \<longleftrightarrow> ?r < p" using assms(1) by (simp add: div_eq_0_iff)
  moreover have "off div p \<le> q" "q \<le> (off + len - 1) div p"
    using assms(3) touched_pages_eq [OF assms(1,2), of off] by simp_all
  ultimately show ?thesis unfolding probed_pages_eq [OF assms(1,2)] last atLeastAtMost_iff by linarith
qed

text \<open>One page of the mapping, number \<open>q\<close>, has lost its backing store for good.\<close>

definition lost_page :: "'os libc \<Rightarrow> raw_mmap \<Rightarrow> nat \<Rightarrow> nat \<Rightarrow> bool" where
  "lost_page L raw p q \<longleftrightarrow>
     (\<forall>x s. x < unat (rm_len raw) \<longrightarrow>
        fst (mem_load L (rm_ptr raw + of_nat x) s) \<noteq> SegFault
        \<and> (fst (mem_load L (rm_ptr raw + of_nat x) s) = BusError \<longleftrightarrow> x div p = q))"

lemma exec_touch_lost:
  assumes "lost_page L raw p q" and "\<forall>x \<in> set xs. x < unat (rm_len raw)"
  shows "fst (exec L (touch (map (\<lambda>x. rm_ptr raw + of_nat x) xs)) s)
     = (case find (\<lambda>x. x div p = q) xs of
          None \<Rightarrow> Finished () | Some x \<Rightarrow> Faulted (rm_ptr raw + of_nat x))"
  using assms(2)
proof (induction xs arbitrary: s)
  case (Cons x xs)
  obtain v s' where l: "mem_load L (rm_ptr raw + of_nat x) s = (v, s')" by fastforce
  then have "v \<noteq> SegFault" "v = BusError \<longleftrightarrow> x div p = q"
    using assms(1) Cons.prems unfolding lost_page_def by (metis fst_conv list.set_intros(1))+
  with l Cons show ?case by (cases v) auto
qed simp

text \<open>
  C31: \<open>probe\<close> on a range whose page \<open>q\<close> is lost reports a fault in that page, except when \<open>q\<close> is the
  last page of the range and the in-page offsets of the range's start and of its last byte
  relative to the start reach a page together: then the lost page is skipped and \<open>probe\<close> returns
  success.
\<close>

theorem probe_reports_lost_page:
  assumes pg: "page_pow2 L k" and inv: "mm_inv L (m, w)" and np: "\<not> poisoned m"
    and fits: "holds_slice (sm_raw m) off len" and len: "len \<noteq> 0"
    and lost: "lost_page L (sm_raw m) (2 ^ k) q"
    and q: "q \<in> touched_pages (2 ^ k) (unat off) (unat len)"
  shows "if unat off mod 2 ^ k + (unat len - 1) mod 2 ^ k < 2 ^ k \<or> q < (unat off + unat len - 1) div 2 ^ k
     then \<exists>x. x div 2 ^ k = q \<and>
       fst (safe_mmap_probe L t off len (m, w)) = Ret (Inl (Sigbus (rm_ptr (sm_raw m) + of_nat x)))
     else fst (safe_mmap_probe L t off len (m, w)) = Ret (Inr ())"
proof -
  let ?xs = "stride (2 ^ k) (unat off) (unat off + unat len)"
  let ?E = "exec L (probe_program (sm_raw m) (2 ^ k) (unat off) (unat off + unat len)) (os w)"
  have pos: "0 < (2 ^ k :: nat)" "0 < unat len" using len by (simp_all add: unat_gt_0)
  have "\<forall>x \<in> set ?xs. x < unat (rm_len (sm_raw m))"
    using fits set_stride [OF pos(1)] by (fastforce simp: holds_slice_def)
  note E = exec_touch_lost [OF lost this, of "os w", folded probe_program_def]
  note rec = safe_mmap_probe_recovers [OF pg inv np fits, of t, unfolded recovers_def]
  show ?thesis
  proof (cases "find (\<lambda>x. x div 2 ^ k = q) ?xs")
    case None
    then have "fst ?E = Finished ()" using E by simp
    then have "fst (safe_mmap_probe L t off len (m, w)) = Ret (Inr ())"
      using rec by (cases ?E) auto
    moreover have "q \<notin> probed_pages (2 ^ k) (unat off) (unat len)"
      using None by (auto simp: find_None_iff probed_pages_def)
    ultimately show ?thesis using reached_iff [OF pos q] by simp
  next
    case (Some x)
    then have "fst ?E = Faulted (rm_ptr (sm_raw m) + of_nat x)" using E by simp
    then have "fst (safe_mmap_probe L t off len (m, w)) = Ret (Inl (Sigbus (rm_ptr (sm_raw m) + of_nat x)))"
      using rec by (cases ?E) auto
    moreover have x: "x div 2 ^ k = q" "x \<in> set ?xs"
      using Some by (auto simp: find_Some_iff)
    moreover have "q \<in> probed_pages (2 ^ k) (unat off) (unat len)"
      using x by (auto simp: probed_pages_def)
    ultimately show ?thesis using reached_iff [OF pos q] by auto
  qed
qed

section \<open>prefetch\_with\_timeout\<close>

interpretation pwt: poison_gated "prefetch_with_timeout L t cs off len timeout"
  for L t cs off len timeout
  by unfold_locales (simp add: prefetch_with_timeout_def)

text \<open>
  C15: \<open>prefetch_with_timeout\<close> returns under every fair schedule that is long enough, one that can be
  cut into at least \<open>len + 9\<close> rounds in each of which both threads get a turn, in any order and
  number: success only after a complete pass, the address of the first lost page, counted and reported
  like any fault, or a timeout, reported to the callback as such and not counted.
\<close>

theorem prefetch_with_timeout_ok:
  assumes inv: "mm_inv L (m, w)" and np: "\<not> poisoned m" and pg: "page_pow2 L k"
    and fits: "holds_slice (sm_raw m) off len" and turns: "unat len + 9 \<le> n" "fair_rounds n sch"
    and alive: "fst (pass L (sm_raw m) off len (unat off) (os w)) \<noteq> Died"
  shows "\<exists>r m' w' w1. prefetch_with_timeout L t sch off len timeout (m, w) = (Ret r, (m', w'))
     \<and> mm_inv L (m', w') \<and> regs w1 = regs w
     \<and> (r = Inr () \<and> m' = m \<and> w' = w1 \<and> pass L (sm_raw m) off len (unat off) (os w) = (Finished (), os w1)
        \<or> (\<exists>a. r = Inl (Sigbus a) \<and> m' = faulted m
               \<and> pass L (sm_raw m) off len (unat off) (os w) = (Faulted a, os w1)
               \<and> notify m (fault_events m a) w1 = (Ret (), w'))
        \<or> r = Inl (Timeout off len timeout) \<and> m' = m
           \<and> notify m [PrefetchTimeoutEvent off len] w1 = (Ret (), w'))"
proof -
  have env: "signal_ok L" "sig_inv w" "mapped L w (sm_raw m)" and cb: "callback_ok L m"
    using inv by (simp_all add: mm_inv_def env_inv_def)
  obtain r w1 where d: "prefetch_with_deadline L t sch (rm_ptr (sm_raw m)) off len timeout w = (Ret r, w1)"
      "sig_inv w1" "regs w1 = regs w"
    and r: "r = Inr () \<and> pass L (sm_raw m) off len (unat off) (os w) = (Finished (), os w1)
        \<or> (\<exists>a. r = Inl (Sigbus a) \<and> pass L (sm_raw m) off len (unat off) (os w) = (Faulted a, os w1))
        \<or> r = Inl (Timeout off len timeout)"
    using prefetch_with_deadline_returns [OF env(1) pg env(2,3) fits turns alive, of t timeout] by blast
  have inv1: "mm_inv L (m, w1)" using mm_inv_world [OF inv d(2,3)] .
  let ?op = "prefetch_with_timeout L t sch off len timeout (m, w)"
  have op: "?op = and_then (case r of
                 Inl (Sigbus a) \<Rightarrow> record_sigbus_from L (Sigbus a)
               | Inl (Timeout _ _ _) \<Rightarrow> emit_event (PrefetchTimeoutEvent off len)
               | _ \<Rightarrow> ret ()) (\<lambda>_. ret r) (m, w1)"
    using np fits d(1) by (simp add: prefetch_with_timeout_def check_bounds_apply)
  from r show ?thesis
  proof (elim disjE conjE exE)
    assume "r = Inr ()" "pass L (sm_raw m) off len (unat off) (os w) = (Finished (), os w1)"
    with op inv1 d(3) show ?thesis by auto
  next
    fix a assume "r = Inl (Sigbus a)" "pass L (sm_raw m) off len (unat off) (os w) = (Faulted a, os w1)"
    with op d(3) record_ok [OF inv1 np, of a] show ?thesis by auto
  next
    assume rt: "r = Inl (Timeout off len timeout)"
    have mp: "mapped L w1 (sm_raw m)" using mapped_cong [OF env(3) d(3)] .
    obtain w2 where w2: "notify m [PrefetchTimeoutEvent off len] w1 = (Ret (), w2)" "sig_inv w2"
        "mapped L w2 (sm_raw m)"
      using notify_ok [OF cb d(2) mp] by blast
    then have "?op = (Ret r, (m, w2))"
      using op rt by (simp add: and_then_def emit_event_notify on_world_apply)
    moreover have "mm_inv L (m, w2)"
      using inv w2 by (simp add: mm_inv_def env_inv_def)
    ultimately show ?thesis using rt d(3) w2(1) by blast
  qed
qed

section \<open>Properties of the prefetch\<close>

text \<open>
  C13: in every interleaving, what the caller gets is explained by the pass over the pages:
  success only if the whole pass succeeded, a fault address only if it is the first fault of the
  pass, and a timeout only after the worker was cancelled.
\<close>

theorem prefetch_outcome:
  assumes "pf_args_ok L raw pa" and "mapped L w raw" and "sig_inv w"
    and "pf_reach L t pa w st" and "pf_caller st = C_Returned r" and "pf_dead st = None"
  shows "r = Inr () \<and> pass L raw (pa_offset pa) (pa_len pa) (unat (pa_offset pa)) (os w)
                       = (Finished (), os (pf_world st))
     \<or> (\<exists>a. r = Inl (Sigbus a) \<and> pass L raw (pa_offset pa) (pa_len pa) (unat (pa_offset pa)) (os w)
                       = (Faulted a, os (pf_world st)))
     \<or> r = Inl (Timeout (pa_offset pa) (pa_len pa) (pa_timeout pa)) \<and> pf_cancelled st"
  using prefetch_result [OF assms] .

text \<open>
  C32: the caller returns only after the worker thread has ended, also when the deadline has
  expired; a worker stalled in a page fault therefore delays the timeout.
\<close>

theorem prefetch_waits_for_worker:
  assumes "pf_reach L t pa w st" and "pf_caller st = C_Returned r"
  shows "pf_worker st = W_Done"
  using joined_before_return [OF assms(1)] assms(2) by blast

text \<open>
  C14: the two threads neither deadlock nor run forever: every step lowers a rank that starts below
  the length of the range plus ten, and a state in which no step is possible is one where the
  caller has returned or the process has died of a segmentation fault of the pass.
\<close>

theorem prefetch_terminates:
  assumes "pf_args_ok L raw pa" and "mapped L w raw" and "sig_inv w" and "pf_reach L t pa w st"
  shows "(\<forall>st'. pf_step L t pa st st' \<longrightarrow> pf_rank pa st' < pf_rank pa st)
     \<and> pf_rank pa (prefetch_start w) < unat (pa_len pa) + 10
     \<and> ((\<nexists>st'. pf_step L t pa st st') \<longrightarrow>
          (\<exists>r. pf_caller st = C_Returned r)
          \<or> fst (pass L raw (pa_offset pa) (pa_len pa) (unat (pa_offset pa)) (os w)) = Died)"
proof (intro conjI allI impI)
  show "pf_rank pa st' < pf_rank pa st" if "pf_step L t pa st st'" for st'
    by (rule pf_step_rank [OF assms that])
  show "pf_rank pa (prefetch_start w) < unat (pa_len pa) + 10"
    by (simp add: pf_rank_def prefetch_start_def)
  assume stuck: "\<nexists>st'. pf_step L t pa st st'"
  show "(\<exists>r. pf_caller st = C_Returned r)
      \<or> fst (pass L raw (pa_offset pa) (pa_len pa) (unat (pa_offset pa)) (os w)) = Died"
  proof (cases "pf_dead st = None")
    case True
    then show ?thesis using stuck pf_progress by blast
  next
    case False
    then show ?thesis using pf_reach_inv [OF assms] by (simp add: pf_inv_def)
  qed
qed

text \<open>
  C33: a poisoned mapping refuses every checked accessor, the prefetch included, with the fault
  count, and touches neither the mapping nor the process state.
\<close>

theorem poisoned_refuses:
  assumes "poisoned m"
  shows "safe_mmap_read L t start stop f (m, w) = (Ret (Inl (Poisoned (sigbus_count m))), (m, w))
    \<and> safe_mmap_write L t off data n (m, w) = (Ret (Inl (Poisoned (sigbus_count m))), (m, w))
    \<and> safe_mmap_read_into L t off data n (m, w) = (Ret (Inl (Poisoned (sigbus_count m))), (m, w))
    \<and> safe_mmap_probe L t off n (m, w) = (Ret (Inl (Poisoned (sigbus_count m))), (m, w))
    \<and> prefetch_with_timeout L t cs off n timeout (m, w) = (Ret (Inl (Poisoned (sigbus_count m))), (m, w))"
  using accessor_gates [OF assms] pwt.gate [OF assms] by simp

end
