(* ===== verification/Signal_Steps.thy ===== *)
theory Signal_Steps
  imports Signal_Protect
begin

text \<open>
  \<open>with_sigbus_protection\<close> cut into the steps between which other threads can run: installation, the
  thread's state, the flag, the checkpoint, every single memory access of the closure, the handler
  up to its load of the snapshot pointer, the handler from there on, and the way out. The steps run
  one after the other are the whole call.
\<close>

section \<open>The handler in two steps\<close>

text \<open>
  Between loading the snapshot pointer and dereferencing it other threads can change the registry.
  The first half gives the thread's state, the jump buffer in it and the pointer.
\<close>

definition lookup_in :: "usize \<Rightarrow> nat option \<Rightarrow> (registry, bool) comp" where
  "lookup_in addr snapshot_ptr =
     (case snapshot_ptr of
        None \<Rightarrow> ret False
      | Some p \<Rightarrow> and_then (deref_snapshot p) (\<lambda>regions. ret (list_ex (in_region addr) regions)))"

definition handler_load :: "tid \<Rightarrow> ('os world, nat \<times> nat option \<times> nat option) comp" where
  "handler_load t =
     and_then (gets sigbus_action) (\<lambda>act.
     case act of
       SIG_DFL \<Rightarrow> halt (Killed SIGBUS)
     | SIGBUS_HANDLER \<Rightarrow>
         and_then key (\<lambda>k.
         and_then (gets (\<lambda>w. slots w t k)) (\<lambda>state_ptr.
         case state_ptr of
           Null \<Rightarrow> restore_default_and_reraise
         | Foreign \<Rightarrow> halt Undefined
         | Ours p \<Rightarrow>
             and_then (read_state p) (\<lambda>state.
             if \<not> in_protected state then restore_default_and_reraise
             else and_then (on_regs (gets snapshot)) (\<lambda>snapshot_ptr.
               ret (p, jmp_buf state, snapshot_ptr))))))"

definition handler_finish :: "usize \<Rightarrow> nat \<times> nat option \<times> nat option \<Rightarrow> ('os world, 'a) comp" where
  "handler_finish addr = (\<lambda>(p, env, snapshot_ptr).
     and_then (on_regs (lookup_in addr snapshot_ptr)) (\<lambda>found.
     if \<not> found then restore_default_and_reraise
     else and_then (update_state p (\<lambda>ts. ts\<lparr>fault_addr := addr, in_protected := False\<rparr>))
            (\<lambda>_. mmap_guard_siglongjmp env)))"

text \<open>The handler never returns to the faulting access.\<close>

lemma and_then_halts:
  "and_then (halt (Killed sig)) k = halt (Killed sig)" "and_then (halt (LongJmp fr)) k = halt (LongJmp fr)"
  "and_then (halt Undefined) k = halt Undefined"
  by (simp_all add: fun_eq_iff and_then_def)

lemma reraise_never_returns: "and_then restore_default_and_reraise k = restore_default_and_reraise"
  by (simp add: restore_default_and_reraise_def and_then_assoc and_then_halts)

lemma longjmp_never_returns: "and_then (mmap_guard_siglongjmp env) k = mmap_guard_siglongjmp env"
  by (cases env) (simp_all add: mmap_guard_siglongjmp_def and_then_halts)

lemma and_then_if: "and_then (if b then m else n) k = (if b then and_then m k else and_then n k)"
  by simp

lemma finish_never_returns: "and_then (handler_finish addr h) k = handler_finish addr h"
  unfolding handler_finish_def
  by (simp add: split_beta and_then_assoc and_then_if reraise_never_returns longjmp_never_returns
      cong: if_cong)

lemmas finish_on_ret = finish_never_returns [THEN fun_cong, unfolded and_then_apply]

lemma on_regs_and_then: "on_regs (and_then m k) = and_then (on_regs m) (\<lambda>x. on_regs (k x))"
proof
  fix w :: "'a world"
  obtain out r where "m (regs w) = (out, r)" by fastforce
  then show "on_regs (and_then m k) w = and_then (on_regs m) (\<lambda>x. on_regs (k x)) w"
    by (cases out) (simp_all add: on_regs_def zoom_def and_then_def split: prod.split)
qed

lemma contains_split: "contains addr = and_then (gets snapshot) (lookup_in addr)"
  by (simp add: contains_def lookup_in_def [abs_def])

lemma handler_finish_apply:
  "handler_finish addr (p, env, snapshot_ptr) =
     and_then (on_regs (lookup_in addr snapshot_ptr)) (\<lambda>found.
     if \<not> found then restore_default_and_reraise
     else and_then (update_state p (\<lambda>ts. ts\<lparr>fault_addr := addr, in_protected := False\<rparr>))
            (\<lambda>_. mmap_guard_siglongjmp env))"
  by (simp add: handler_finish_def)

lemma deliver_split: "deliver_sigbus t a = and_then (handler_load t) (handler_finish a)"
  unfolding deliver_sigbus_def handler_load_def sigbus_handler_def
  by (simp add: and_then_assoc disposition.case_distrib [of "\<lambda>m. and_then m (handler_finish a)"]
      slot.case_distrib [of "\<lambda>m. and_then m (handler_finish a)"] and_then_if and_then_halts
      reraise_never_returns contains_split on_regs_and_then handler_finish_apply
      cong: disposition.case_cong slot.case_cong if_cong)

text \<open>How the two halves can end.\<close>

lemma handler_load_ends:
  "(\<exists>h. fst (handler_load t w) = Ret h) \<or> fst (handler_load t w) \<in> {Killed SIGBUS, Undefined}"
  by (auto simp: handler_load_def key_def restore_default_and_reraise_def read_state_def and_then_def
      on_regs_def zoom_def split: disposition.split slot.split option.split)

lemma handler_load_cases:
  obtains h w' where "handler_load t w = (Ret h, w')" | w' where "handler_load t w = (Killed SIGBUS, w')"
    | w' where "handler_load t w = (Undefined, w')"
  using handler_load_ends [of t w] by (cases "handler_load t w") auto

lemma handler_finish_ends:
  "handler_finish a h w = (out, w') \<Longrightarrow> (\<exists>fr. out = LongJmp fr) \<or> out \<in> {Killed SIGBUS, Undefined}"
  by (cases h)
    (auto simp: handler_finish_def lookup_in_def deref_snapshot_def restore_default_and_reraise_def
      mmap_guard_siglongjmp_def update_state_def and_then_def on_regs_def zoom_def
      split: option.splits if_splits)

section \<open>A protected call in steps\<close>

text \<open>
  Where a thread stands in \<open>with_sigbus_protection\<close>; \<open>At_Handler\<close> is inside the signal handler, after
  a fault at the given address.
\<close>

datatype 'r call =
    At_Call "'r access"
  | At_Installed "'r access"
  | At_State nat "'r access"
  | At_Checkpoint nat "'r access"
  | At_Body nat nat "'r access"
  | At_Handler nat nat usize "nat \<times> nat option \<times> nat option"
  | At_Return nat c_int "'r option"
  | At_Result nat c_int "'r option"
  | Returned "usize + 'r"
  | Unwound string

text \<open>
  The next access of a closure: what is left of it, its value, or a SIGBUS at an address. A nested
  protected call counts as one step.
\<close>

datatype 'r turn = More "'r access" | Gives 'r | Hit usize

fun body_step :: "'os libc \<Rightarrow> tid \<Rightarrow> 'r access \<Rightarrow> ('os world, 'r turn) comp" where
  "body_step L t (Return r) = ret (Gives r)"
| "body_step L t (Load a k) =
     (\<lambda>w. case mem_load L a (os w) of
            (Value b, s) \<Rightarrow> (Ret (More (k b)), w\<lparr>os := s\<rparr>)
          | (BusError, s) \<Rightarrow> (Ret (Hit a), w\<lparr>os := s\<rparr>)
          | (SegFault, s) \<Rightarrow> (Killed SIGSEGV, w\<lparr>os := s\<rparr>))"
| "body_step L t (Store a b k) =
     (\<lambda>w. case mem_store L a b (os w) of
            (Value _, s) \<Rightarrow> (Ret (More k), w\<lparr>os := s\<rparr>)
          | (BusError, s) \<Rightarrow> (Ret (Hit a), w\<lparr>os := s\<rparr>)
          | (SegFault, s) \<Rightarrow> (Killed SIGSEGV, w\<lparr>os := s\<rparr>))"
| "body_step L t (Panic msg) = halt (Panicked msg)"
| "body_step L t (Protected p k) = and_then (protected L t p) (\<lambda>r. ret (More (k r)))"

text \<open>A jump to the checkpoint of this call makes the shim return 1.\<close>

definition catch_jump :: "nat \<Rightarrow> nat \<Rightarrow> ('os world, 'r call) comp \<Rightarrow> ('os world, 'r call) comp" where
  "catch_jump p fr m =
     (\<lambda>w. case m w of
            (LongJmp fr', w') \<Rightarrow>
              (if fr' = fr then (Ret (At_Return p 1 None), w') else (LongJmp fr', w'))
          | (out, w') \<Rightarrow> (out, w'))"

definition shim_step :: "'os libc \<Rightarrow> tid \<Rightarrow> nat \<Rightarrow> nat \<Rightarrow> 'r access \<Rightarrow> ('os world, 'r call) comp" where
  "shim_step L t p fr q =
     catch_jump p fr (
     and_then (trampoline (body_step L t q)) (\<lambda>turn.
     case turn of
       More q' \<Rightarrow> ret (At_Body p fr q')
     | Gives r \<Rightarrow> ret (At_Return p 0 (Some r))
     | Hit a \<Rightarrow> and_then (handler_load t) (\<lambda>h. ret (At_Handler p fr a h))))"

fun call_step :: "'os libc \<Rightarrow> tid \<Rightarrow> 'r call \<Rightarrow> ('os world, 'r call) comp option" where
  "call_step L t (At_Call q) = Some (and_then (install L) (\<lambda>_. ret (At_Installed q)))"
| "call_step L t (At_Installed q) = Some (and_then (get_or_init L t) (\<lambda>p. ret (At_State p q)))"
| "call_step L t (At_State p q) =
     Some (and_then (update_state p (\<lambda>ts. ts\<lparr>in_protected := True\<rparr>)) (\<lambda>_. ret (At_Checkpoint p q)))"
| "call_step L t (At_Checkpoint p q) =
     Some (\<lambda>w. let fr = next_frame w in
       and_then (update_state p (\<lambda>ts. ts\<lparr>jmp_buf := Some fr\<rparr>)) (\<lambda>_. ret (At_Body p fr q))
         (w\<lparr>next_frame := Suc fr\<rparr>))"
| "call_step L t (At_Body p fr q) = Some (shim_step L t p fr q)"
| "call_step L t (At_Handler p fr a h) = Some (catch_jump p fr (handler_finish a h))"
| "call_step L t (At_Return p jump_result result) =
     Some (and_then (update_state p (\<lambda>ts. ts\<lparr>in_protected := False\<rparr>))
       (\<lambda>_. ret (At_Result p jump_result result)))"
| "call_step L t (At_Result p jump_result result) =
     Some (if jump_result \<noteq> 0
           then and_then (read_state p) (\<lambda>ts. ret (Returned (Inl (fault_addr ts))))
           else (case result of
                   None \<Rightarrow> halt (Panicked ''trampoline completed but result missing'')
                 | Some r \<Rightarrow> ret (Returned (Inr r))))"
| "call_step L t (Returned r) = None"
| "call_step L t (Unwound msg) = None"

section \<open>The steps make up the whole call\<close>

text \<open>What is left of the call at each point.\<close>

definition finish_call :: "nat \<Rightarrow> c_int \<Rightarrow> 'r option \<Rightarrow> ('os world, usize + 'r) comp" where
  "finish_call p jump_result result =
     (if jump_result \<noteq> 0 then and_then (read_state p) (\<lambda>ts. ret (Inl (fault_addr ts)))
      else (case result of
              None \<Rightarrow> halt (Panicked ''trampoline completed but result missing'')
            | Some r \<Rightarrow> ret (Inr r)))"

definition leave_call :: "nat \<Rightarrow> c_int \<Rightarrow> 'r option \<Rightarrow> ('os world, usize + 'r) comp" where
  "leave_call p jump_result result =
     and_then (update_state p (\<lambda>ts. ts\<lparr>in_protected := False\<rparr>)) (\<lambda>_. finish_call p jump_result result)"

definition finish_body :: "nat \<Rightarrow> nat \<Rightarrow> ('os world, 'r) comp \<Rightarrow> ('os world, usize + 'r) comp" where
  "finish_body p fr body =
     (\<lambda>w. case trampoline body w of
            (Ret r, w') \<Rightarrow> leave_call p 0 (Some r) w'
          | (LongJmp fr', w') \<Rightarrow> (if fr' = fr then leave_call p 1 None w' else (LongJmp fr', w'))
          | (out, w') \<Rightarrow> on_ret out (\<lambda>_. halt Undefined) w')"

primrec resume :: "'os libc \<Rightarrow> tid \<Rightarrow> 'r call \<Rightarrow> ('os world, usize + 'r) comp" where
  "resume L t (At_Call q) = protected L t q"
| "resume L t (At_Installed q) =
     and_then (get_or_init L t) (\<lambda>p.
     and_then (update_state p (\<lambda>ts. ts\<lparr>in_protected := True\<rparr>)) (\<lambda>_. checkpoint p (run L t q)))"
| "resume L t (At_State p q) =
     and_then (update_state p (\<lambda>ts. ts\<lparr>in_protected := True\<rparr>)) (\<lambda>_. checkpoint p (run L t q))"
| "resume L t (At_Checkpoint p q) = checkpoint p (run L t q)"
| "resume L t (At_Body p fr q) = finish_body p fr (run L t q)"
| "resume L t (At_Handler p fr a h) = finish_body p fr (handler_finish a h)"
| "resume L t (At_Return p jump_result result) = leave_call p jump_result result"
| "resume L t (At_Result p jump_result result) = finish_call p jump_result result"
| "resume L t (Returned r) = ret r"
| "resume L t (Unwound msg) = halt (Panicked msg)"

lemma run_body_step:
  "run L t q = and_then (body_step L t q)
     (\<lambda>turn. case turn of More q' \<Rightarrow> run L t q' | Gives r \<Rightarrow> ret r | Hit a \<Rightarrow> deliver_sigbus t a)"
proof (cases q)
  case (Protected p k)
  then show ?thesis by (simp add: protected_def and_then_assoc)
qed (auto simp: fun_eq_iff and_then_apply split: prod.splits mem_result.splits)

lemma checkpoint_resume:
  "checkpoint p (run L t q) w =
     (let fr = next_frame w in
      and_then (update_state p (\<lambda>ts. ts\<lparr>jmp_buf := Some fr\<rparr>)) (\<lambda>_. finish_body p fr (run L t q))
        (w\<lparr>next_frame := Suc fr\<rparr>))"
  by (auto simp: checkpoint_def mmap_guard_protected_call_def Let_def and_then_def update_state_def
      finish_body_def leave_call_def finish_call_def
      split: option.splits prod.splits outcome.splits)

lemma finish_body_cong: "body w = body' w' \<Longrightarrow> finish_body p fr body w = finish_body p fr body' w'"
  by (simp add: finish_body_def trampoline_def)

lemma finish_body_deliver:
  "finish_body p fr (deliver_sigbus t a) w
     = and_then (handler_load t) (\<lambda>h. finish_body p fr (handler_finish a h)) w"
proof -
  have d: "(deliver_sigbus t a :: ('os world, 'r) comp) w = and_then (handler_load t) (handler_finish a) w" for w :: "'os world"
    by (simp add: deliver_split)
  show ?thesis
    by (cases rule: handler_load_cases [of t w])
      (simp_all add: finish_body_def trampoline_def d and_then_def)
qed

lemma finish_body_step:
  "finish_body p fr (run L t q) w = and_then (shim_step L t p fr q) (resume L t) w"
proof -
  obtain out w' where b: "body_step L t q w = (out, w')" by fastforce
  have r: "run L t q w = on_ret out
      (\<lambda>turn. case turn of More q' \<Rightarrow> run L t q' | Gives r \<Rightarrow> ret r | Hit a \<Rightarrow> deliver_sigbus t a) w'"
    using b by (subst run_body_step) (simp add: and_then_def)
  show ?thesis
  proof (cases out)
    case (Ret turn)
    show ?thesis
    proof (cases turn)
      case (Hit a)
      then have "finish_body p fr (run L t q) w = finish_body p fr (deliver_sigbus t a) w'"
        using r Ret by (intro finish_body_cong) simp
      also have "\<dots> = and_then (handler_load t) (\<lambda>h. resume L t (At_Handler p fr a h)) w'"
        by (simp add: finish_body_deliver)
      also have "\<dots> = and_then (shim_step L t p fr q) (resume L t) w"
        using b Ret Hit
        by (cases rule: handler_load_cases [of t w'])
          (simp_all add: shim_step_def catch_jump_def trampoline_def and_then_def)
      finally show ?thesis .
    qed (use b r Ret in \<open>simp_all add: finish_body_def shim_step_def catch_jump_def trampoline_def and_then_def\<close>)
  qed (use b r in \<open>simp_all add: finish_body_def shim_step_def catch_jump_def trampoline_def and_then_def\<close>)
qed

lemma finish_body_jump:
  fixes L :: "'os libc" and w :: "'os world"
  shows "finish_body p fr (handler_finish a h :: ('os world, 'r) comp) w = and_then (catch_jump p fr (handler_finish a h)) (resume L t) w"
proof -
  obtain out w' where o: "(handler_finish a h :: ('os world, 'r call) comp) w = (out, w')" by fastforce
  then have "(handler_finish a h :: ('os world, 'r) comp) w = on_ret out (\<lambda>_. halt Undefined) w'"
    using finish_on_ret [where k = "\<lambda>_ :: 'r call. halt Undefined :: ('os world, 'r) comp", of a h w] by simp
  then show ?thesis
    using handler_finish_ends [OF o] o
    by (auto simp: finish_body_def catch_jump_def trampoline_def and_then_def)
qed

text \<open>Every step followed by the rest is what was left before it.\<close>

lemma resume_step: "call_step L t pc = Some c \<Longrightarrow> resume L t pc = and_then c (resume L t)"
proof -
  have "case call_step L t pc of None \<Rightarrow> True | Some c \<Rightarrow> resume L t pc = and_then c (resume L t)"
  proof (cases pc)
    case (At_Call q)
    then show ?thesis
      by (simp add: protected_def with_sigbus_protection_split enter_def and_then_assoc)
  next
    case (At_Checkpoint p q)
    then show ?thesis
      by (auto simp: fun_eq_iff checkpoint_resume Let_def and_then_def update_state_def split: option.splits)
  next
    case (At_Body p fr q)
    then show ?thesis by (simp add: fun_eq_iff finish_body_step)
  next
    case (At_Handler p fr a h)
    then show ?thesis by (simp add: fun_eq_iff finish_body_jump)
  next
    case (At_Result p j res)
    then show ?thesis
    proof (cases "j = 0")
      case True
      with At_Result show ?thesis by (cases res) (simp_all add: finish_call_def fun_eq_iff)
    next
      case False
      with At_Result show ?thesis
        by (simp add: finish_call_def fun_eq_iff and_then_def read_state_def split: option.splits)
    qed
  qed (simp_all add: and_then_assoc leave_call_def)
  then show "call_step L t pc = Some c \<Longrightarrow> resume L t pc = and_then c (resume L t)" by simp
qed

text \<open>A thread that runs alone.\<close>

fun call_run :: "'os libc \<Rightarrow> tid \<Rightarrow> nat \<Rightarrow> 'r call \<Rightarrow> ('os world, usize + 'r) comp" where
  "call_run L t 0 pc = halt NoFuel"
| "call_run L t (Suc n) pc =
     (case call_step L t pc of
        Some c \<Rightarrow> and_then c (call_run L t n)
      | None \<Rightarrow> (case pc of Unwound msg \<Rightarrow> halt (Panicked msg) | Returned r \<Rightarrow> ret r | _ \<Rightarrow> halt Undefined))"

lemma call_run_move:
  assumes c: "call_step L t pc = Some c"
    and rest: "\<And>pc' w'. c w = (Ret pc', w') \<Longrightarrow> \<exists>n. call_run L t n pc' w' = resume L t pc' w'"
  shows "\<exists>n. call_run L t n pc w = resume L t pc w"
proof -
  obtain out w' where w': "c w = (out, w')" by fastforce
  show ?thesis
  proof (cases "\<exists>pc'. out = Ret pc'")
    case True
    with w' rest obtain n pc' where "out = Ret pc'" "call_run L t n pc' w' = resume L t pc' w'" by blast
    with c w' show ?thesis by (intro exI [of _ "Suc n"]) (simp add: resume_step [OF c])
  next
    case False
    with w' c show ?thesis
      by (intro exI [of _ "Suc 0"], cases out) (simp_all add: resume_step [OF c] and_then_def)
  qed
qed

lemma call_run_result: "\<exists>n. call_run L t n (At_Result p j res) w = resume L t (At_Result p j res) w"
proof (rule call_run_move [OF call_step.simps(8)])
  fix pc' w'
  assume "(if j \<noteq> 0 then and_then (read_state p) (\<lambda>ts. ret (Returned (Inl (fault_addr ts))))
      else (case res of None \<Rightarrow> halt (Panicked ''trampoline completed but result missing'')
                      | Some r \<Rightarrow> ret (Returned (Inr r)))) w = (Ret pc', w')"
  then obtain r where "pc' = Returned r"
    by (auto split: if_splits option.splits elim!: and_then_RetE)
  then show "\<exists>n. call_run L t n pc' w' = resume L t pc' w'" by (intro exI [of _ "Suc 0"]) simp
qed

lemma call_run_return: "\<exists>n. call_run L t n (At_Return p j res) w = resume L t (At_Return p j res) w"
  by (rule call_run_move [OF call_step.simps(7)]) (auto elim!: and_then_RetE intro: call_run_result)

lemma call_run_handler: "\<exists>n. call_run L t n (At_Handler p fr a h) w = resume L t (At_Handler p fr a h) w"
proof (rule call_run_move [OF call_step.simps(6)])
  fix pc' w' assume "catch_jump p fr (handler_finish a h) w = (Ret pc', w')"
  then obtain j res where "pc' = At_Return p j res"
    using handler_finish_ends [of a h w]
    by (auto simp: catch_jump_def split: prod.splits outcome.splits if_splits)
  then show "\<exists>n. call_run L t n pc' w' = resume L t pc' w'" using call_run_return by simp
qed

lemma shim_step_next:
  assumes "shim_step L t p fr q w = (Ret pc', w')"
  shows "(\<exists>q'. pc' = At_Body p fr q' \<and> body_step L t q w = (Ret (More q'), w'))
     \<or> (\<exists>j res. pc' = At_Return p j res) \<or> (\<exists>a h. pc' = At_Handler p fr a h)"
proof -
  obtain out w1 where b: "body_step L t q w = (out, w1)" by fastforce
  note defs = shim_step_def catch_jump_def trampoline_def and_then_def
  show ?thesis
  proof (cases "\<exists>a. out = Ret (Hit a)")
    case True
    then show ?thesis
      using assms b by (cases rule: handler_load_cases [of t w1]) (auto simp: defs)
  next
    case False
    then show ?thesis
      using assms b by (cases out) (auto simp: defs split: turn.splits if_splits)
  qed
qed

lemma call_run_body: "\<exists>n. call_run L t n (At_Body p fr q) w = resume L t (At_Body p fr q) w"
proof (induction q arbitrary: w)
  case (Load a k)
  have "body_step L t (Load a k) w = (Ret (More q'), w') \<Longrightarrow> q' \<in> range k" for q' w'
    by (auto split: prod.splits mem_result.splits)
  with Load show ?case
    by (intro call_run_move [OF call_step.simps(5)])
      (auto dest!: shim_step_next intro: call_run_return call_run_handler)
next
  case (Store a b k)
  have "body_step L t (Store a b k) w = (Ret (More q'), w') \<Longrightarrow> q' = k" for q' w'
    by (auto split: prod.splits mem_result.splits)
  with Store show ?case
    by (intro call_run_move [OF call_step.simps(5)])
      (auto dest!: shim_step_next intro: call_run_return call_run_handler)
next
  case (Protected p' k)
  have "body_step L t (Protected p' k) w = (Ret (More q'), w') \<Longrightarrow> q' \<in> range k" for q' w'
    by (auto elim!: and_then_RetE)
  with Protected show ?case
    by (intro call_run_move [OF call_step.simps(5)])
      (auto dest!: shim_step_next intro: call_run_return call_run_handler)
qed (intro call_run_move [OF call_step.simps(5)],
    (auto dest!: shim_step_next intro: call_run_return call_run_handler)[1])+

lemma call_run_checkpoint:
  "\<exists>n. call_run L t n (At_Checkpoint p q) w = resume L t (At_Checkpoint p q) w"
  by (intro call_run_move [OF call_step.simps(4)]) (auto simp: Let_def elim!: and_then_RetE intro: call_run_body)

lemma call_run_state: "\<exists>n. call_run L t n (At_State p q) w = resume L t (At_State p q) w"
  by (intro call_run_move [OF call_step.simps(3)]) (auto elim!: and_then_RetE intro: call_run_checkpoint)

lemma call_run_installed: "\<exists>n. call_run L t n (At_Installed q) w = resume L t (At_Installed q) w"
  by (intro call_run_move [OF call_step.simps(2)]) (auto elim!: and_then_RetE intro: call_run_state)

text \<open>
  The steps of a protected call are the call: a thread that runs alone through them, for any
  closure, ends after finitely many steps exactly as \<open>with_sigbus_protection\<close> does.
\<close>

theorem call_steps_complete: "\<exists>n. call_run L t n (At_Call q) w = protected L t q w"
proof -
  have "\<exists>n. call_run L t n (At_Call q) w = resume L t (At_Call q) w"
    by (intro call_run_move [OF call_step.simps(1)]) (auto elim!: and_then_RetE intro: call_run_installed)
  then show ?thesis by simp
qed

end
