(* ===== verification/Signal_Concurrent.thy ===== *)
theory Signal_Concurrent
  imports Signal_Steps
begin

text \<open>
  Protected calls of many threads at once: their steps interleave with each other and with the
  two halves of every change of the registry, which may fall between the two halves of a signal
  handler. Such runs refine threads that access memory directly and stop at their first fault, as
  long as no handler is overtaken by more than four halves.
\<close>

section \<open>Many threads\<close>

text \<open>
  \<open>cc_change\<close> is the change of the registry that holds its mutex, \<open>cc_age\<close> counts the halves of changes
  since the last step of a thread, from 1 when that step was in the middle of one.
\<close>

record ('os, 'r) conc =
  cc_world :: "'os world"
  cc_pc :: "tid \<Rightarrow> 'r call"
  cc_change :: "reg_op option"
  cc_age :: "tid \<Rightarrow> nat"
  cc_dead :: "unit outcome option"

definition conc_start :: "'os world \<Rightarrow> (tid \<Rightarrow> 'r access) \<Rightarrow> ('os, 'r) conc" where
  "conc_start w progs =
     \<lparr>cc_world = w, cc_pc = (\<lambda>t. At_Call (progs t)), cc_change = None, cc_age = (\<lambda>_. 0),
      cc_dead = None\<rparr>"

text \<open>A panic ends the thread, anything else but a return ends the process.\<close>

definition conc_after :: "tid \<Rightarrow> 'r call outcome \<times> 'os world \<Rightarrow> ('os, 'r) conc \<Rightarrow> ('os, 'r) conc" where
  "conc_after t res st =
     (case res of
        (Ret pc, w) \<Rightarrow>
          st\<lparr>cc_world := w, cc_pc := (cc_pc st)(t := pc),
             cc_age := (cc_age st)(t := age_at_load (cc_change st))\<rparr>
      | (Panicked msg, w) \<Rightarrow> st\<lparr>cc_world := w, cc_pc := (cc_pc st)(t := Unwound msg)\<rparr>
      | (out, w) \<Rightarrow> st\<lparr>cc_world := w, cc_dead := Some (fst (on_ret out (\<lambda>_. halt Undefined) ()))\<rparr>)"

definition conc_move :: "'os libc \<Rightarrow> tid \<Rightarrow> ('os, 'r) conc \<Rightarrow> ('os, 'r) conc option" where
  "conc_move L t st =
     (if cc_dead st \<noteq> None then None
      else map_option (\<lambda>c. conc_after t (c (cc_world st)) st) (call_step L t (cc_pc st t)))"

text \<open>The program a thread still has to run, and whether it is inside the handler.\<close>

fun pending :: "'r call \<Rightarrow> 'r access option" where
  "pending (At_Call q) = Some q"
| "pending (At_Installed q) = Some q"
| "pending (At_State p q) = Some q"
| "pending (At_Checkpoint p q) = Some q"
| "pending (At_Body p fr q) = Some q"
| "pending _ = None"

fun in_handler :: "'r call \<Rightarrow> bool" where
  "in_handler (At_Handler p fr a h) = True"
| "in_handler _ = False"

text \<open>
  A change of the registry by some other thread, in two steps: under the mutex it rotates the
  generations, then it publishes a new snapshot.
\<close>

definition conc_rotate :: "reg_op \<Rightarrow> ('os, 'r) conc \<Rightarrow> ('os, 'r) conc" where
  "conc_rotate x st =
     (let w = cc_world st in
      st\<lparr>cc_world := w\<lparr>regs := snd (rotate_retired (regs w))\<rparr>, cc_change := Some x,
         cc_age := (\<lambda>t. Suc (cc_age st t))\<rparr>)"

definition conc_publish :: "'os libc \<Rightarrow> reg_op \<Rightarrow> ('os, 'r) conc \<Rightarrow> ('os, 'r) conc" where
  "conc_publish L x st =
     (let w = cc_world st in
      st\<lparr>cc_world := w\<lparr>regs := snd (reg_rest (overflow_checks L) x (regs w))\<rparr>, cc_change := None,
         cc_age := (\<lambda>t. Suc (cc_age st t))\<rparr>)"

definition conc_mutate :: "'os libc \<Rightarrow> reg_op \<Rightarrow> ('os, 'r) conc \<Rightarrow> ('os, 'r) conc" where
  "conc_mutate L x st = conc_publish L x (conc_rotate x st)"

text \<open>
  A mapping is not dropped while a thread reads it (the reader borrows it), so every address a
  pending program uses stays recoverable. A new change does not start while a handler has been
  overtaken by \<open>lag\<close> halves.
\<close>

definition respects_borrows :: "'os libc \<Rightarrow> ('os, 'r) conc \<Rightarrow> ('os, 'r) conc \<Rightarrow> bool" where
  "respects_borrows L st st' \<longleftrightarrow>
     (\<forall>t q. pending (cc_pc st t) = Some q \<longrightarrow> within (recoverable L (cc_world st')) q)"

inductive conc_step :: "'os libc \<Rightarrow> nat \<Rightarrow> ('os, 'r) conc \<Rightarrow> ('os, 'r) conc \<Rightarrow> bool" for L lag where
  thread: "conc_move L t st = Some st' \<Longrightarrow> conc_step L lag st st'"
| rotate: "cc_dead st = None \<Longrightarrow> cc_change st = None \<Longrightarrow> op_fits x \<Longrightarrow>
    (\<And>t. in_handler (cc_pc st t) \<Longrightarrow> cc_age st t < lag) \<Longrightarrow>
    conc_step L lag st (conc_rotate x st)"
| publish: "cc_dead st = None \<Longrightarrow> cc_change st = Some x \<Longrightarrow>
    respects_borrows L st (conc_publish L x st) \<Longrightarrow> conc_step L lag st (conc_publish L x st)"

inductive_cases conc_stepE: "conc_step L lag st st'"

section \<open>The reference: threads without signals\<close>

datatype 'r job = Running "'r access" | Ended "usize + 'r"

fun access_step :: "'os libc \<Rightarrow> 'r access \<Rightarrow> 'os \<Rightarrow> 'r job option \<times> 'os" where
  "access_step L (Return r) s = (Some (Ended (Inr r)), s)"
| "access_step L (Load a k) s =
     (case mem_load L a s of
        (Value b, s') \<Rightarrow> (Some (Running (k b)), s')
      | (BusError, s') \<Rightarrow> (Some (Ended (Inl a)), s')
      | (SegFault, s') \<Rightarrow> (None, s'))"
| "access_step L (Store a b k) s =
     (case mem_store L a b s of
        (Value _, s') \<Rightarrow> (Some (Running k), s')
      | (BusError, s') \<Rightarrow> (Some (Ended (Inl a)), s')
      | (SegFault, s') \<Rightarrow> (None, s'))"
| "access_step L _ s = (None, s)"

text \<open>Kernel state, threads, and whether a segmentation fault has killed the process.\<close>

type_synonym ('os, 'r) par = "'os \<times> (tid \<Rightarrow> 'r job) \<times> bool"

fun par_move :: "'os libc \<Rightarrow> tid \<Rightarrow> ('os, 'r) par \<Rightarrow> ('os, 'r) par option" where
  "par_move L t (s, js, dead) =
     (case (dead, js t) of
        (False, Running q) \<Rightarrow>
          (case access_step L q s of
             (Some j, s') \<Rightarrow> Some (s', js(t := j), False)
           | (None, s') \<Rightarrow> Some (s', js, True))
      | _ \<Rightarrow> None)"

definition par_step :: "'os libc \<Rightarrow> ('os, 'r) par \<Rightarrow> ('os, 'r) par \<Rightarrow> bool" where
  "par_step L s s' \<longleftrightarrow> (\<exists>t. par_move L t s = Some s')"

section \<open>Simulation\<close>

text \<open>
  A machine whose steps, seen through \<open>abs\<close>, are steps of another one or invisible, as long as an
  invariant holds.
\<close>

locale stuttering_simulation =
  fixes cstep :: "'c \<Rightarrow> 'c \<Rightarrow> bool" and astep :: "'a \<Rightarrow> 'a \<Rightarrow> bool"
    and abs :: "'c \<Rightarrow> 'a" and inv :: "'c \<Rightarrow> bool"
  assumes keeps: "inv c \<Longrightarrow> cstep c c' \<Longrightarrow> inv c'"
    and simulates: "inv c \<Longrightarrow> cstep c c' \<Longrightarrow> abs c' = abs c \<or> astep (abs c) (abs c')"
begin

lemma runs_simulate: "cstep\<^sup>*\<^sup>* c c' \<Longrightarrow> inv c \<Longrightarrow> inv c' \<and> astep\<^sup>*\<^sup>* (abs c) (abs c')"
proof (induction rule: rtranclp_induct)
  case (step y z)
  then have "inv y" "astep\<^sup>*\<^sup>* (abs c) (abs y)" by simp_all
  moreover have "inv z" using keeps [OF \<open>inv y\<close> step.hyps(2)] .
  ultimately show ?case using simulates [OF \<open>inv y\<close> step.hyps(2)] by (auto intro: rtranclp.rtrancl_into_rtrancl)
qed simp

end

text \<open>What a point of the call says about the thread's job.\<close>

fun job_of :: "'os world \<Rightarrow> 'r call \<Rightarrow> 'r job" where
  "job_of w (At_Call q) = Running q"
| "job_of w (At_Installed q) = Running q"
| "job_of w (At_State p q) = Running q"
| "job_of w (At_Checkpoint p q) = Running q"
| "job_of w (At_Body p fr q) = Running q"
| "job_of w (At_Handler p fr a h) = Ended (Inl a)"
| "job_of w (At_Return p j (Some r)) = Ended (Inr r)"
| "job_of w (At_Return p j None) = Ended (Inl (case tstates w p of Some ts \<Rightarrow> fault_addr ts | None \<Rightarrow> 0))"
| "job_of w (At_Result p j (Some r)) = Ended (Inr r)"
| "job_of w (At_Result p j None) = Ended (Inl (case tstates w p of Some ts \<Rightarrow> fault_addr ts | None \<Rightarrow> 0))"
| "job_of w (Returned r) = Ended r"
| "job_of w (Unwound msg) = Ended (Inl 0)"

definition conc_abs :: "('os, 'r) conc \<Rightarrow> ('os, 'r) par" where
  "conc_abs st =
     (os (cc_world st), (\<lambda>t. job_of (cc_world st) (cc_pc st t)), cc_dead st \<noteq> None)"

section \<open>Invariant of the calls\<close>

definition prog_ok :: "'os libc \<Rightarrow> 'os world \<Rightarrow> 'r access \<Rightarrow> bool" where
  "prog_ok L w q \<longleftrightarrow> flat q \<and> within (recoverable L w) q"

definition owns :: "'os world \<Rightarrow> tid \<Rightarrow> nat \<Rightarrow> bool" where
  "owns w t p \<longleftrightarrow> sigbus_action w = SIGBUS_HANDLER \<and> slots w t (thread_state_key w) = Ours p"

text \<open>The snapshot a handler holds is allocated and lists the fault address.\<close>

definition holds_snapshot :: "registry \<Rightarrow> nat \<Rightarrow> usize \<Rightarrow> nat option \<Rightarrow> bool" where
  "holds_snapshot r n a sp \<longleftrightarrow>
     n \<le> 4 \<and> (\<exists>p rs. sp = Some p \<and> held_at r n p \<and> snaps r p = Some rs \<and> list_ex (in_region a) rs)"

fun call_ok :: "'os libc \<Rightarrow> 'os world \<Rightarrow> tid \<Rightarrow> nat \<Rightarrow> 'r call \<Rightarrow> bool" where
  "call_ok L w t n (At_Call q) \<longleftrightarrow> prog_ok L w q"
| "call_ok L w t n (At_Installed q) \<longleftrightarrow> prog_ok L w q \<and> sigbus_action w = SIGBUS_HANDLER"
| "call_ok L w t n (At_State p q) \<longleftrightarrow> prog_ok L w q \<and> owns w t p"
| "call_ok L w t n (At_Checkpoint p q) \<longleftrightarrow>
     prog_ok L w q \<and> owns w t p \<and> (\<exists>ts. tstates w p = Some ts \<and> in_protected ts)"
| "call_ok L w t n (At_Body p fr q) \<longleftrightarrow> prog_ok L w q \<and> owns w t p
     \<and> (\<exists>ts. tstates w p = Some ts \<and> in_protected ts \<and> jmp_buf ts = Some fr)"
| "call_ok L w t n (At_Handler p fr a h) \<longleftrightarrow> owns w t p
     \<and> (\<exists>sp. h = (p, Some fr, sp) \<and> holds_snapshot (regs w) n a sp)"
| "call_ok L w t n (At_Return p j res) \<longleftrightarrow> owns w t p \<and> (j = 0 \<longleftrightarrow> res \<noteq> None)"
| "call_ok L w t n (At_Result p j res) \<longleftrightarrow> owns w t p \<and> (j = 0 \<longleftrightarrow> res \<noteq> None)"
| "call_ok L w t n (Returned r) \<longleftrightarrow> True"
| "call_ok L w t n (Unwound msg) \<longleftrightarrow> False"

definition conc_inv :: "'os libc \<Rightarrow> ('os, 'r) conc \<Rightarrow> bool" where
  "conc_inv L st \<longleftrightarrow>
     (case cc_dead st of
        None \<Rightarrow> sig_inv (cc_world st)
          \<and> (\<forall>x. cc_change st = Some x \<longrightarrow> op_fits x \<and> current (regs (cc_world st)) = [])
          \<and> (\<forall>t. call_ok L (cc_world st) t (cc_age st t) (cc_pc st t)
               \<and> (in_handler (cc_pc st t) \<longrightarrow> (even (cc_age st t) \<longleftrightarrow> cc_change st = None)))
      | Some d \<Rightarrow> d = Killed SIGSEGV)"

text \<open>What a step of one thread leaves alone for another thread.\<close>

definition undisturbed :: "'os world \<Rightarrow> 'os world \<Rightarrow> tid \<Rightarrow> bool" where
  "undisturbed w w' t \<longleftrightarrow>
     (sigbus_action w = SIGBUS_HANDLER \<longrightarrow> sigbus_action w' = SIGBUS_HANDLER) \<and> regs w' = regs w
     \<and> (\<forall>p. slots w t (thread_state_key w) = Ours p \<longrightarrow>
            slots w' t (thread_state_key w') = Ours p \<and> tstates w' p = tstates w p)"

lemma prog_ok_cong: "regs w' = regs w \<Longrightarrow> prog_ok L w' q = prog_ok L w q"
  using recoverable_cong [of w' w L] by (simp add: prog_ok_def)

lemma prog_ok_update [simp]:
  "prog_ok L (w\<lparr>next_frame := n\<rparr>) q = prog_ok L w q"
  "prog_ok L (w\<lparr>tstates := m\<rparr>) q = prog_ok L w q"
  "prog_ok L (w\<lparr>os := s\<rparr>) q = prog_ok L w q"
  by (rule prog_ok_cong; simp)+

lemma call_ok_undisturbed: "call_ok L w t n pc \<Longrightarrow> undisturbed w w' t \<Longrightarrow> call_ok L w' t n pc"
  using prog_ok_cong [of w' w L] by (cases pc) (auto simp: undisturbed_def owns_def)

lemma job_of_undisturbed:
  "call_ok L w t n pc \<Longrightarrow> undisturbed w w' t \<Longrightarrow> job_of w' pc = job_of w pc"
  by (cases "(w, pc)" rule: job_of.cases) (auto simp: undisturbed_def owns_def)

lemma sig_inv_own_state:
  assumes "sig_inv w" and "owns w t p"
  obtains ts where "tstates w p = Some ts"
  using assms thread_inv_ours [of w t "thread_state_key w" p] by (auto simp: sig_inv_def owns_def)

text \<open>A thread that changes only its own state disturbs nobody.\<close>

lemma undisturbed_update:
  assumes inv: "sig_inv w" and own: "owns w t p" and "t' \<noteq> t"
  shows "undisturbed w (w\<lparr>os := s, next_frame := n, tstates := (tstates w)(p \<mapsto> ts)\<rparr>) t'"
proof -
  have "slots w t' (thread_state_key w) \<noteq> Ours p"
    using assms thread_inv_inj [of w t "thread_state_key w" p t'] by (auto simp: sig_inv_def owns_def)
  then show ?thesis by (auto simp: undisturbed_def)
qed

lemma undisturbed_os: "undisturbed w (w\<lparr>os := s\<rparr>) t"
  by (simp add: undisturbed_def)

lemma undisturbed_install:
  "undisturbed w (w\<lparr>handler_once := c, sigbus_action := SIGBUS_HANDLER\<rparr>) t"
  by (simp add: undisturbed_def)

section \<open>A step of one thread\<close>

text \<open>
  The step is invisible, or an access of the thread's program; or it is a segmentation fault.
\<close>

definition explained :: "'os libc \<Rightarrow> tid \<Rightarrow> 'os world \<Rightarrow> 'r call \<Rightarrow> 'r call outcome \<times> 'os world \<Rightarrow> bool" where
  "explained L t w pc res \<longleftrightarrow>
     (\<exists>pc' w'. res = (Ret pc', w') \<and> sig_inv w' \<and> call_ok L w' t 0 pc'
        \<and> (\<forall>t'. t' \<noteq> t \<longrightarrow> undisturbed w w' t')
        \<and> (os w' = os w \<and> job_of w' pc' = job_of w pc
           \<or> (\<exists>q. job_of w pc = Running q \<and> access_step L q (os w) = (Some (job_of w' pc'), os w'))))
     \<or> (\<exists>s q. res = (Killed SIGSEGV, w\<lparr>os := s\<rparr>) \<and> job_of w pc = Running q
        \<and> access_step L q (os w) = (None, s))"

lemma explained_silent:
  assumes "sig_inv w'" and "call_ok L w' t 0 pc'" and "\<And>t'. t' \<noteq> t \<Longrightarrow> undisturbed w w' t'"
    and "os w' = os w" and "job_of w' pc' = job_of w pc"
  shows "explained L t w pc (Ret pc', w')"
  unfolding explained_def using assms by blast

lemma explained_install:
  assumes env: "signal_ok L" and inv: "sig_inv w" and ok: "call_ok L w t n (At_Call q)"
  shows "explained L t w (At_Call q) (and_then (install L) (\<lambda>_. ret (At_Installed q)) w)"
proof -
  let ?w = "w\<lparr>handler_once := Complete, sigbus_action := SIGBUS_HANDLER\<rparr>"
  have "install L w = (Ret (), ?w)"
    using env inv by (simp add: install_ok signal_ok_def sig_inv_def)
  moreover have "sig_inv ?w"
    using inv thread_inv_cong [of w ?w] by (simp add: sig_inv_def handler_inv_def)
  moreover have "prog_ok L ?w q" using ok prog_ok_cong [of ?w w L q] by simp
  ultimately show ?thesis
    by (auto intro!: explained_silent undisturbed_install)
qed

lemma explained_get_state:
  assumes env: "signal_ok L" and inv: "sig_inv w" and ok: "call_ok L w t n (At_Installed q)"
  shows "explained L t w (At_Installed q) (and_then (get_or_init L t) (\<lambda>p. ret (At_State p q)) w)"
proof -
  have ti: "thread_inv w" and pt: "pthread_ok L"
    using env inv by (simp_all add: sig_inv_def signal_ok_def)
  obtain p w' where g: "get_or_init L t w = (Ret p, w')" "thread_inv w'"
      "slots w' t (thread_state_key w') = Ours p" "same_but_threads w w'"
    using get_or_init_ok [OF pt ti, of t] by blast
  have same: "os w' = os w" "regs w' = regs w" "sigbus_action w' = sigbus_action w"
      "handler_once w' = handler_once w"
    using g(4) by (simp_all add: same_but_threads_def)
  have "sig_inv w'" using inv g(2) same by (simp add: sig_inv_def handler_inv_def)
  moreover have "prog_ok L w' q"
    using ok prog_ok_cong [OF same(2), of L q] by simp
  moreover have "undisturbed w w' t'" if "t' \<noteq> t" for t'
    using get_or_init_others [OF pt ti g(1) that] same by (auto simp: undisturbed_def)
  ultimately show ?thesis
    using g(1,3) same ok by (auto intro!: explained_silent simp: owns_def)
qed

text \<open>A step that only writes the thread's own state.\<close>

lemma explained_update:
  assumes inv: "sig_inv w" and own: "owns w t p" and ts: "tstates w p = Some ts"
    and w': "w' = w\<lparr>os := os w, next_frame := m, tstates := (tstates w)(p \<mapsto> ts')\<rparr>"
    and ok: "call_ok L w' t 0 pc'" and job: "job_of w' pc' = job_of w pc"
  shows "explained L t w pc (Ret pc', w')"
proof (rule explained_silent)
  show "sig_inv w'" unfolding w' by (rule sig_inv_update [OF inv ts])
  show "undisturbed w w' t'" if "t' \<noteq> t" for t'
    unfolding w' by (rule undisturbed_update [OF inv own that])
qed (use ok job in \<open>simp_all add: w'\<close>)

lemma explained_arm:
  assumes inv: "sig_inv w" and ok: "call_ok L w t n (At_State p q)"
  shows "explained L t w (At_State p q)
     (and_then (update_state p (\<lambda>ts. ts\<lparr>in_protected := True\<rparr>)) (\<lambda>_. ret (At_Checkpoint p q)) w)"
proof -
  have own: "owns w t p" using ok by simp
  obtain ts where ts: "tstates w p = Some ts" using sig_inv_own_state [OF inv own] .
  let ?w = "w\<lparr>os := os w, next_frame := next_frame w,
      tstates := (tstates w)(p \<mapsto> ts\<lparr>in_protected := True\<rparr>)\<rparr>"
  have "explained L t w (At_State p q) (Ret (At_Checkpoint p q), ?w)"
    by (rule explained_update [OF inv own ts refl]) (use ok in \<open>simp_all add: owns_def\<close>)
  then show ?thesis using ts by (simp add: update_state_def and_then_def)
qed

lemma explained_checkpoint:
  assumes inv: "sig_inv w" and ok: "call_ok L w t n (At_Checkpoint p q)"
  shows "explained L t w (At_Checkpoint p q)
     (let fr = next_frame w in
      and_then (update_state p (\<lambda>ts. ts\<lparr>jmp_buf := Some fr\<rparr>)) (\<lambda>_. ret (At_Body p fr q))
        (w\<lparr>next_frame := Suc fr\<rparr>))"
proof -
  have own: "owns w t p" using ok by simp
  obtain ts where ts: "tstates w p = Some ts" "in_protected ts" using ok by auto
  let ?w = "w\<lparr>os := os w, next_frame := Suc (next_frame w),
      tstates := (tstates w)(p \<mapsto> ts\<lparr>jmp_buf := Some (next_frame w)\<rparr>)\<rparr>"
  have "explained L t w (At_Checkpoint p q) (Ret (At_Body p (next_frame w) q), ?w)"
    by (rule explained_update [OF inv own ts(1) refl]) (use ok ts in \<open>simp_all add: owns_def\<close>)
  then show ?thesis using ts by (simp add: update_state_def and_then_def Let_def)
qed

lemma explained_leave:
  assumes inv: "sig_inv w" and ok: "call_ok L w t n (At_Return p j res)"
  shows "explained L t w (At_Return p j res)
     (and_then (update_state p (\<lambda>ts. ts\<lparr>in_protected := False\<rparr>)) (\<lambda>_. ret (At_Result p j res)) w)"
proof -
  have own: "owns w t p" using ok by simp
  obtain ts where ts: "tstates w p = Some ts" using sig_inv_own_state [OF inv own] .
  let ?w = "w\<lparr>os := os w, next_frame := next_frame w,
      tstates := (tstates w)(p \<mapsto> ts\<lparr>in_protected := False\<rparr>)\<rparr>"
  have "explained L t w (At_Return p j res) (Ret (At_Result p j res), ?w)"
    by (rule explained_update [OF inv own ts refl]) (use ok ts in \<open>cases res; simp add: owns_def\<close>)+
  then show ?thesis using ts by (simp add: update_state_def and_then_def)
qed

lemma explained_result:
  assumes inv: "sig_inv w" and ok: "call_ok L w t n (At_Result p j res)"
  shows "explained L t w (At_Result p j res)
     ((if j \<noteq> 0 then and_then (read_state p) (\<lambda>ts. ret (Returned (Inl (fault_addr ts))))
       else (case res of
               None \<Rightarrow> halt (Panicked ''trampoline completed but result missing'')
             | Some r \<Rightarrow> ret (Returned (Inr r)))) w)"
proof -
  obtain ts where ts: "tstates w p = Some ts" using sig_inv_own_state [OF inv] ok by auto
  have u: "undisturbed w w t'" for t' by (simp add: undisturbed_def)
  show ?thesis
    using ok ts inv u
    by (cases res) (auto simp: read_state_def and_then_def intro!: explained_silent)
qed

text \<open>An access in the body: it succeeds, it faults and the handler jumps back, or it is fatal.\<close>

lemma explained_access:
  assumes inv: "sig_inv w" and ok: "call_ok L w t n (At_Body p fr q)"
    and own: "owns w t p" and "access_step L q (os w) = (Some (Running q'), s)"
    and "body_step L t q w = (Ret (More q'), w\<lparr>os := s\<rparr>)" and "prog_ok L w q'"
  shows "explained L t w (At_Body p fr q) (shim_step L t p fr q w)"
proof -
  have "shim_step L t p fr q w = (Ret (At_Body p fr q'), w\<lparr>os := s\<rparr>)"
    using assms(5) by (simp add: shim_step_def catch_jump_def trampoline_def)
  moreover have "call_ok L (w\<lparr>os := s\<rparr>) t 0 (At_Body p fr q')"
    using ok assms(6) by (auto simp: owns_def)
  ultimately show ?thesis
    using inv assms(4) by (auto simp: explained_def undisturbed_os)
qed

lemma handler_load_armed:
  assumes "armed w t p ts fr"
  shows "handler_load t w = (Ret (p, Some fr, snapshot (regs w)), w)"
  using assms by (simp add: armed_def handler_load_def key_def read_state_def and_then_def on_regs_def zoom_def)

lemma registered_snapshot:
  "registered w a \<Longrightarrow> holds_snapshot (regs w) 0 a (snapshot (regs w))"
  by (cases "snapshot (regs w)"; cases "snaps (regs w) (the (snapshot (regs w)))")
    (auto simp: held_at_def registered_def holds_snapshot_def regions_of_def list_ex_iff)

lemma explained_fault:
  assumes inv: "sig_inv w" and ok: "call_ok L w t n (At_Body p fr q)"
    and a: "access_step L q (os w) = (Some (Ended (Inl a)), s)"
    and d: "body_step L t q w = (Ret (Hit a), w\<lparr>os := s\<rparr>)" and reg: "registered w a"
  shows "explained L t w (At_Body p fr q) (shim_step L t p fr q w)"
proof -
  obtain ts where ts: "tstates w p = Some ts" "in_protected ts" "jmp_buf ts = Some fr" and own: "owns w t p"
    using ok by auto
  let ?pc = "At_Handler p fr a (p, Some fr, snapshot (regs w))"
  have "armed (w\<lparr>os := s\<rparr>) t p ts fr"
    using ts own inv by (simp add: armed_def owns_def sig_inv_def usable_def)
  then have "shim_step L t p fr q w = (Ret ?pc, w\<lparr>os := s\<rparr>)"
    using d handler_load_armed [of "w\<lparr>os := s\<rparr>" t p ts fr]
    by (simp add: shim_step_def catch_jump_def trampoline_def)
  moreover have "call_ok L (w\<lparr>os := s\<rparr>) t 0 ?pc"
    using own registered_snapshot [OF reg] by (simp add: owns_def)
  ultimately show ?thesis
    using inv a by (auto simp: explained_def undisturbed_os)
qed

lemma explained_handler:
  assumes inv: "sig_inv w" and ok: "call_ok L w t n (At_Handler p fr a h :: 'r call)"
  shows "explained L t w (At_Handler p fr a h :: 'r call) (catch_jump p fr (handler_finish a h) w)"
proof -
  obtain sp rs where own: "owns w t p" and h: "h = (p, Some fr, Some sp)"
    and rs: "snaps (regs w) sp = Some rs" "list_ex (in_region a) rs"
    using ok by (auto simp: holds_snapshot_def)
  obtain ts where ts: "tstates w p = Some ts" using sig_inv_own_state [OF inv own] .
  let ?w = "w\<lparr>os := os w, next_frame := next_frame w,
      tstates := (tstates w)(p \<mapsto> ts\<lparr>fault_addr := a, in_protected := False\<rparr>)\<rparr>"
  have "on_regs (lookup_in a (Some sp)) w = (Ret True, w)"
    using rs by (simp add: lookup_in_def deref_snapshot_def and_then_def on_regs_def zoom_def)
  then have "catch_jump p fr (handler_finish a h) w = (Ret (At_Return p 1 None :: 'r call), ?w)"
    using ts by (simp add: catch_jump_def h handler_finish_apply and_then_def update_state_def
        mmap_guard_siglongjmp_def)
  moreover have "explained L t w (At_Handler p fr a h) (Ret (At_Return p 1 None :: 'r call), ?w)"
    by (rule explained_update [OF inv own ts refl]) (use own in \<open>simp_all add: owns_def\<close>)
  ultimately show ?thesis by simp
qed

lemma explained_segv:
  assumes "access_step L q (os w) = (None, s)" and "body_step L t q w = (Killed SIGSEGV, w\<lparr>os := s\<rparr>)"
  shows "explained L t w (At_Body p fr q) (shim_step L t p fr q w)"
  using assms by (simp add: explained_def shim_step_def catch_jump_def trampoline_def and_then_def)

lemma explained_body:
  assumes inv: "sig_inv w" and ok: "call_ok L w t n (At_Body p fr q)"
  shows "explained L t w (At_Body p fr q) (shim_step L t p fr q w)"
proof (cases q)
  case (Return r)
  have "shim_step L t p fr q w = (Ret (At_Return p 0 (Some r)), w)"
    using Return by (simp add: shim_step_def catch_jump_def trampoline_def)
  moreover have "undisturbed w w t'" for t' by (simp add: undisturbed_def)
  ultimately show ?thesis using Return inv ok by (auto simp: explained_def)
next
  case (Load a k)
  then have rec: "recoverable L w a" and sub: "prog_ok L w (k b)" and own: "owns w t p" for b
    using ok by (auto simp: prog_ok_def)
  obtain res s where m: "mem_load L a (os w) = (res, s)" by fastforce
  show ?thesis
  proof (cases res)
    case (Value b)
    then show ?thesis
      by (intro explained_access [OF inv ok own, of "k b" s]) (use Load m sub in simp_all)
  next
    case BusError
    then show ?thesis
      by (intro explained_fault [OF inv ok, of a s]) (use Load m recoverable_load [OF rec] in auto)
  next
    case SegFault
    then show ?thesis by (intro explained_segv [of L q w s]) (use Load m in simp_all)
  qed
next
  case (Store a b k)
  then have rec: "recoverable L w a" and sub: "prog_ok L w k" and own: "owns w t p"
    using ok by (auto simp: prog_ok_def)
  obtain res s where m: "mem_store L a b (os w) = (res, s)" by fastforce
  show ?thesis
  proof (cases res)
    case (Value v)
    then show ?thesis
      by (intro explained_access [OF inv ok own, of k s]) (use Store m sub in simp_all)
  next
    case BusError
    then show ?thesis
      by (intro explained_fault [OF inv ok, of a s]) (use Store m recoverable_store [OF rec] in auto)
  next
    case SegFault
    then show ?thesis by (intro explained_segv [of L q w s]) (use Store m in simp_all)
  qed
qed (use ok in \<open>simp_all add: prog_ok_def\<close>)

lemma call_step_explained:
  assumes env: "signal_ok L" and inv: "sig_inv w" and ok: "call_ok L w t n pc"
    and c: "call_step L t pc = Some c"
  shows "explained L t w pc (c w)"
  using ok c
  by (cases pc)
    (auto simp only: call_step.simps option.inject option.distinct
      intro: explained_install [OF env inv] explained_get_state [OF env inv] explained_arm [OF inv]
        explained_checkpoint [OF inv] explained_body [OF inv] explained_leave [OF inv]
        explained_result [OF inv] explained_handler [OF inv])

section \<open>All interleavings\<close>

lemma call_ok_young: "call_ok L w t 0 pc \<Longrightarrow> call_ok L w t (age_at_load c) pc"
  by (cases pc) (auto simp: holds_snapshot_def held_at_def age_at_load_def)

lemma explained_keeps_inv:
  assumes inv: "conc_inv L st" and live: "cc_dead st = None"
    and e: "explained L t (cc_world st) (cc_pc st t) res"
  shows "conc_inv L (conc_after t res st)"
proof -
  have oks: "call_ok L (cc_world st) t' (cc_age st t') (cc_pc st t')"
      "in_handler (cc_pc st t') \<Longrightarrow> even (cc_age st t') \<longleftrightarrow> cc_change st = None" for t'
    using inv live by (simp_all add: conc_inv_def)
  from e consider
      pc' w' where "res = (Ret pc', w')" "sig_inv w'" "call_ok L w' t 0 pc'"
        "\<forall>t'. t' \<noteq> t \<longrightarrow> undisturbed (cc_world st) w' t'"
    | w' where "res = (Killed SIGSEGV, w')"
    unfolding explained_def by blast
  then show ?thesis
  proof cases
    case (1 pc' w')
    let ?age = "(cc_age st)(t := age_at_load (cc_change st))" and ?pc = "(cc_pc st)(t := pc')"
    have "call_ok L w' t' (?age t') (?pc t')" for t'
      using 1(4) call_ok_undisturbed [OF oks(1)] call_ok_young [OF 1(3)] by simp
    moreover have "in_handler (?pc t') \<longrightarrow> (even (?age t') \<longleftrightarrow> cc_change st = None)" for t'
      using oks(2) [of t'] by (simp add: age_at_load_def)
    moreover have "regs w' = regs (cc_world st)"
      using 1(4) [rule_format, of "Suc t"] by (simp add: undisturbed_def)
    ultimately show ?thesis using 1 live inv by (simp add: conc_inv_def conc_after_def)
  next
    case (2 w')
    then show ?thesis by (simp add: conc_inv_def conc_after_def)
  qed
qed

lemma explained_simulates:
  assumes inv: "conc_inv L st" and live: "cc_dead st = None"
    and e: "explained L t (cc_world st) (cc_pc st t) res"
  shows "conc_abs (conc_after t res st) = conc_abs st \<or> par_step L (conc_abs st) (conc_abs (conc_after t res st))"
proof -
  let ?w = "cc_world st"
  have oks: "call_ok L ?w t' (cc_age st t') (cc_pc st t')" for t'
    using inv live by (simp add: conc_inv_def)
  show ?thesis
    using e unfolding explained_def
  proof (elim disjE)
    assume "\<exists>pc' w'. res = (Ret pc', w') \<and> sig_inv w' \<and> call_ok L w' t 0 pc'
        \<and> (\<forall>t'. t' \<noteq> t \<longrightarrow> undisturbed ?w w' t')
        \<and> (os w' = os ?w \<and> job_of w' pc' = job_of ?w (cc_pc st t)
           \<or> (\<exists>q. job_of ?w (cc_pc st t) = Running q \<and> access_step L q (os ?w) = (Some (job_of w' pc'), os w')))"
    then obtain pc' w' where r: "res = (Ret pc', w')" and u: "\<forall>t'. t' \<noteq> t \<longrightarrow> undisturbed ?w w' t'"
      and k: "os w' = os ?w \<and> job_of w' pc' = job_of ?w (cc_pc st t)
           \<or> (\<exists>q. job_of ?w (cc_pc st t) = Running q \<and> access_step L q (os ?w) = (Some (job_of w' pc'), os w'))"
      by blast
    have "job_of w' (if t' = t then pc' else cc_pc st t')
        = ((\<lambda>t'. job_of ?w (cc_pc st t'))(t := job_of w' pc')) t'" for t'
      using u job_of_undisturbed [OF oks] by simp
    then have a: "conc_abs (conc_after t res st)
        = (os w', (\<lambda>t'. job_of ?w (cc_pc st t'))(t := job_of w' pc'), False)"
      using live r by (simp add: conc_abs_def conc_after_def fun_eq_iff)
    from k show ?thesis
    proof
      assume "os w' = os ?w \<and> job_of w' pc' = job_of ?w (cc_pc st t)"
      then show ?thesis unfolding a using live by (simp add: conc_abs_def fun_upd_idem)
    next
      assume "\<exists>q. job_of ?w (cc_pc st t) = Running q \<and> access_step L q (os ?w) = (Some (job_of w' pc'), os w')"
      then have "par_move L t (conc_abs st) = Some (conc_abs (conc_after t res st))"
        unfolding a using live by (auto simp: conc_abs_def)
      then show ?thesis by (auto simp: par_step_def)
    qed
  next
    assume "\<exists>s q. res = (Killed SIGSEGV, ?w\<lparr>os := s\<rparr>) \<and> job_of ?w (cc_pc st t) = Running q
        \<and> access_step L q (os ?w) = (None, s)"
    then obtain s q where r: "res = (Killed SIGSEGV, ?w\<lparr>os := s\<rparr>)" "job_of ?w (cc_pc st t) = Running q"
      "access_step L q (os ?w) = (None, s)"
      by blast
    have "job_of (?w\<lparr>os := s\<rparr>) (cc_pc st t') = job_of ?w (cc_pc st t')" for t'
      by (rule job_of_undisturbed [OF oks undisturbed_os])
    then have "par_move L t (conc_abs st) = Some (conc_abs (conc_after t res st))"
      using r live by (simp add: conc_abs_def conc_after_def)
    then show ?thesis by (auto simp: par_step_def)
  qed
qed

text \<open>
  The halves of a change of the registry: what a handler of the right age holds is kept, and a
  pending program keeps its addresses.
\<close>

lemma holds_rotated:
  assumes inv: "reg_inv r" and h: "holds_snapshot r n a sp" and n: "even n" "n \<le> 3"
  shows "holds_snapshot (rotated r) (Suc n) a sp"
proof -
  obtain p rs where p: "sp = Some p" "held_at r n p" "snaps r p = Some rs" "list_ex (in_region a) rs"
    using h by (auto simp: holds_snapshot_def)
  have held: "held_at (rotated r) (Suc n) p" by (rule rotation_ages [OF inv n(1) p(2)])
  then have "snaps (rotated r) p \<noteq> None"
    using held_live_iff [OF rotated_inv [OF inv]] n(2) by simp
  then have "snaps (rotated r) p = Some rs" using rotated_snaps p(3) by metis
  with p held n(2) show ?thesis by (simp add: holds_snapshot_def)
qed

lemma holds_published:
  assumes inv: "reg_inv r" and h: "holds_snapshot r n a sp" and n: "odd n"
    and r': "(\<exists>rs. r' = published rs r) \<or> snapshot r = None \<and> r' = r"
  shows "holds_snapshot r' (Suc n) a sp"
proof -
  obtain p rs where p: "sp = Some p" "held_at r n p" "snaps r p = Some rs" "list_ex (in_region a) rs"
      and "n \<le> 4"
    using h by (auto simp: holds_snapshot_def)
  have "n \<le> 3" using n \<open>n \<le> 4\<close> by presburger
  moreover have "held_at r' (Suc n) p" by (rule publication_ages [OF inv n p(2) r'])
  moreover have "snaps r' p = Some rs" using r' published_snaps [OF inv, of p] p(3) by auto
  ultimately show ?thesis using p by (simp add: holds_snapshot_def)
qed

lemma call_ok_mutate:
  assumes ok: "call_ok L w t n pc"
    and borrow: "\<And>q. pending pc = Some q \<Longrightarrow> within (recoverable L (w\<lparr>regs := r'\<rparr>)) q"
    and held: "\<And>a sp. in_handler pc \<Longrightarrow> holds_snapshot (regs w) n a sp \<Longrightarrow> holds_snapshot r' m a sp"
  shows "call_ok L (w\<lparr>regs := r'\<rparr>) t m pc"
  using ok borrow held by (cases pc) (auto simp: prog_ok_def owns_def)

lemma job_of_regs [simp]: "job_of (w\<lparr>regs := r\<rparr>) pc = job_of w pc"
  by (cases "(w, pc)" rule: job_of.cases) simp_all

lemma conc_inv_alive:
  assumes "conc_inv L st" and "cc_dead st = None"
  shows "sig_inv (cc_world st)" and "usable (regs (cc_world st))" and "reg_inv (regs (cc_world st))"
    and "cc_change st = Some x \<Longrightarrow> op_fits x \<and> current (regs (cc_world st)) = []"
    and "call_ok L (cc_world st) t (cc_age st t) (cc_pc st t)"
    and "in_handler (cc_pc st t) \<Longrightarrow> even (cc_age st t) \<longleftrightarrow> cc_change st = None"
  using assms by (simp_all add: conc_inv_def sig_inv_def usable_def)

lemma call_ok_pending: "call_ok L w t n pc \<Longrightarrow> pending pc = Some q \<Longrightarrow> within (recoverable L w) q"
  by (cases pc) (auto simp: prog_ok_def)

lemma rotation_keeps_inv:
  assumes inv: "conc_inv L st" and live: "cc_dead st = None" and idle: "cc_change st = None" and x: "op_fits x"
    and late: "\<And>t. in_handler (cc_pc st t) \<Longrightarrow> cc_age st t \<le> 3"
  shows "conc_inv L (conc_rotate x st) \<and> conc_abs (conc_rotate x st) = conc_abs st"
proof -
  let ?w = "cc_world st" and ?r = "rotated (regs (cc_world st))"
  note alive = conc_inv_alive [OF inv live]
  have m: "conc_rotate x st = st\<lparr>cc_world := ?w\<lparr>regs := ?r\<rparr>, cc_change := Some x, cc_age := (\<lambda>t. Suc (cc_age st t))\<rparr>"
    by (simp add: conc_rotate_def Let_def rotate_retired_ok [OF alive(3)])
  have "recoverable L (?w\<lparr>regs := ?r\<rparr>) = recoverable L ?w"
    by (simp add: fun_eq_iff recoverable_def registered_def regions_of_rotated [OF alive(3)])
  then have "call_ok L (?w\<lparr>regs := ?r\<rparr>) t (Suc (cc_age st t)) (cc_pc st t)" for t
    using alive(6) [of t] late [of t] idle call_ok_pending [OF alive(5)] holds_rotated [OF alive(3)]
    by (intro call_ok_mutate [OF alive(5)]) auto
  then show ?thesis
    using live alive(6) idle x sig_inv_regs [OF alive(1) rotated_usable [OF alive(2)]]
    by (simp add: m conc_inv_def conc_abs_def)
qed

lemma publication_keeps_inv:
  assumes inv: "conc_inv L st" and live: "cc_dead st = None" and x: "cc_change st = Some x"
    and borrow: "respects_borrows L st (conc_publish L x st)"
  shows "conc_inv L (conc_publish L x st) \<and> conc_abs (conc_publish L x st) = conc_abs st"
proof -
  let ?w = "cc_world st"
  note alive = conc_inv_alive [OF inv live]
  obtain r' where r': "reg_rest (overflow_checks L) x (regs ?w) = (Ret (), r')" "usable r'"
      "(\<exists>rs. r' = published rs (regs ?w)) \<or> snapshot (regs ?w) = None \<and> r' = regs ?w"
    using reg_rest_ok [OF alive(2)] alive(4) [OF x] by blast
  have m: "conc_publish L x st = st\<lparr>cc_world := ?w\<lparr>regs := r'\<rparr>, cc_change := None, cc_age := (\<lambda>t. Suc (cc_age st t))\<rparr>"
    by (simp add: conc_publish_def Let_def r')
  have "call_ok L (?w\<lparr>regs := r'\<rparr>) t (Suc (cc_age st t)) (cc_pc st t)" for t
    using borrow alive(6) [of t] x holds_published [OF alive(3) _ _ r'(3)]
    by (intro call_ok_mutate [OF alive(5)]) (auto simp: respects_borrows_def m)
  then show ?thesis
    using live alive(6) x sig_inv_regs [OF alive(1) r'(2)] by (simp add: m conc_inv_def conc_abs_def)
qed

interpretation conc: stuttering_simulation "conc_step L lag" "par_step L" conc_abs
    "\<lambda>st. signal_ok L \<and> lag \<le> 4 \<and> conc_inv L st" for L :: "'os libc" and lag
proof
  fix st st' :: "('os, 'r) conc"
  assume inv: "signal_ok L \<and> lag \<le> 4 \<and> conc_inv L st" and step: "conc_step L lag st st'"
  from step have "conc_inv L st' \<and> (conc_abs st' = conc_abs st \<or> par_step L (conc_abs st) (conc_abs st'))"
  proof cases
    case (thread t)
    then obtain c where live: "cc_dead st = None" and c: "call_step L t (cc_pc st t) = Some c"
      and st': "st' = conc_after t (c (cc_world st)) st"
      by (auto simp: conc_move_def split: if_splits)
    have "explained L t (cc_world st) (cc_pc st t) (c (cc_world st))"
      using inv live c conc_inv_alive(1,5) [of L st] by (intro call_step_explained) auto
    then show ?thesis
      unfolding st' using inv live explained_keeps_inv explained_simulates by blast
  next
    case (rotate x)
    have "cc_age st t \<le> 3" if "in_handler (cc_pc st t)" for t
      using rotate(5) [OF that] inv by linarith
    then show ?thesis using rotation_keeps_inv [OF _ rotate(2-4)] inv rotate(1) by blast
  next
    case (publish x)
    then show ?thesis using publication_keeps_inv [OF _ publish(2-4)] inv by blast
  qed
  with inv show "signal_ok L \<and> lag \<le> 4 \<and> conc_inv L st'"
    and "conc_abs st' = conc_abs st \<or> par_step L (conc_abs st) (conc_abs st')"
    by blast+
qed

lemma conc_start_ok:
  "sig_inv w \<Longrightarrow> (\<And>t. prog_ok L w (progs t)) \<Longrightarrow> conc_inv L (conc_start w progs)"
  by (simp add: conc_inv_def conc_start_def)

lemma conc_abs_start: "conc_abs (conc_start w progs) = (os w, (\<lambda>t. Running (progs t)), False)"
  by (simp add: conc_abs_def conc_start_def)

text \<open>Running a given schedule.\<close>

fun conc_run :: "'os libc \<Rightarrow> tid list \<Rightarrow> ('os, 'r) conc \<Rightarrow> ('os, 'r) conc" where
  "conc_run L [] st = st"
| "conc_run L (t # ts) st = conc_run L ts (case conc_move L t st of Some st' \<Rightarrow> st' | None \<Rightarrow> st)"

lemma conc_run_reach: "(conc_step L lag)\<^sup>*\<^sup>* st (conc_run L ts st)"
proof (induction ts arbitrary: st)
  case (Cons t ts)
  show ?case
  proof (cases "conc_move L t st")
    case (Some st')
    then have "conc_step L lag st st'" by (rule conc_step.thread)
    then show ?thesis using Some Cons [of st'] by (simp add: converse_rtranclp_into_rtranclp)
  qed (simp add: Cons)
qed simp

text \<open>
  C3: protected calls of any number of threads, interleaved step by step and with the
  halves of registrations and unregistrations of mappings, at most four of which overtake a running
  handler, refine threads that access memory directly and stop at their first fault with its
  address: no call is lost, mixed up with another, or left armed, and the process dies of nothing
  but a segmentation fault of one of the programs.
\<close>

theorem concurrent_calls_refine:
  assumes env: "signal_ok L" and inv: "sig_inv w" and lag: "lag \<le> 4"
    and progs: "\<And>t. flat (progs t) \<and> within (recoverable L w) (progs t)"
    and reach: "(conc_step L lag)\<^sup>*\<^sup>* (conc_start w progs) st"
  shows "(par_step L)\<^sup>*\<^sup>* (os w, (\<lambda>t. Running (progs t)), False) (conc_abs st)
     \<and> (case cc_dead st of None \<Rightarrow> sig_inv (cc_world st) | Some d \<Rightarrow> d = Killed SIGSEGV)"
proof -
  have "conc_inv L (conc_start w progs)"
    by (rule conc_start_ok [OF inv]) (use progs in \<open>simp add: prog_ok_def\<close>)
  then have "conc_inv L st \<and> (par_step L)\<^sup>*\<^sup>* (conc_abs (conc_start w progs)) (conc_abs st)"
    using conc.runs_simulate [OF reach] env lag by blast
  then show ?thesis by (auto simp: conc_abs_start conc_inv_def split: option.splits)
qed

section \<open>A handler overtaken too often\<close>

lemma mutation_ages_handlers:
  assumes u: "usable (regs (cc_world st))" and x: "op_fits x" and n: "even n" and h: "held_at (regs (cc_world st)) n sp"
  shows "usable (regs (cc_world (conc_mutate L x st)))"
    and "held_at (regs (cc_world (conc_mutate L x st))) (n + 2) sp"
    and "cc_pc (conc_mutate L x st) = cc_pc st" and "cc_dead (conc_mutate L x st) = cc_dead st"
proof -
  let ?r = "rotated (regs (cc_world st))"
  have inv: "reg_inv (regs (cc_world st))" using u by (simp add: usable_def)
  obtain r' where r': "reg_rest (overflow_checks L) x ?r = (Ret (), r')" "usable r'"
      "(\<exists>rs. r' = published rs ?r) \<or> snapshot ?r = None \<and> r' = ?r"
    using reg_rest_ok [OF rotated_usable [OF u] _ x, of "overflow_checks L"] by auto
  have "held_at r' (Suc (Suc n)) sp"
    by (rule publication_ages [OF rotated_inv [OF inv] _ rotation_ages [OF inv n h] r'(3)]) (use n in simp)
  with r' show "usable (regs (cc_world (conc_mutate L x st)))"
    and "held_at (regs (cc_world (conc_mutate L x st))) (n + 2) sp"
    and "cc_pc (conc_mutate L x st) = cc_pc st" and "cc_dead (conc_mutate L x st) = cc_dead st"
    by (simp_all add: conc_mutate_def conc_publish_def conc_rotate_def Let_def rotate_retired_ok [OF inv])
qed

lemma mutations_age_handlers:
  fixes st :: "('os, 'r) conc" and L :: "'os libc"
  assumes "usable (regs (cc_world st))" and "list_all op_fits xs" and "even n"
    and "held_at (regs (cc_world st)) n sp"
  defines "st' \<equiv> fold (conc_mutate L) xs st"
  shows "usable (regs (cc_world st')) \<and> held_at (regs (cc_world st')) (n + 2 * length xs) sp
     \<and> cc_pc st' = cc_pc st \<and> cc_dead st' = cc_dead st"
  using assms(1-4) unfolding st'_def
proof (induction xs arbitrary: st n)
  case (Cons x xs)
  then have x: "op_fits x" and xs: "list_all op_fits xs" by simp_all
  note m = mutation_ages_handlers [OF Cons.prems(1) x Cons.prems(3,4), of L]
  show ?case using Cons.IH [OF m(1) xs _ m(2)] Cons.prems(3) m(3,4) by simp
qed simp

text \<open>
  C21: the bound on what overtakes a handler is sharp: once three registrations or unregistrations,
  in any mixture, have run while a handler stands between its load of the snapshot pointer and the
  lookup, the lookup reads freed memory.
\<close>

theorem overtaken_handler_undefined:
  assumes inv: "conc_inv L st" and live: "cc_dead st = None" and idle: "cc_change st = None"
    and pc: "cc_pc st t = At_Handler p fr a h"
    and xs: "list_all op_fits xs" and late: "4 < cc_age st t + 2 * length xs"
  shows "\<exists>st'. conc_move L t (fold (conc_mutate L) xs st) = Some st' \<and> cc_dead st' = Some Undefined"
proof -
  let ?st = "fold (conc_mutate L) xs st" and ?n = "cc_age st t + 2 * length xs"
  note alive = conc_inv_alive [OF inv live]
  obtain sp where h: "h = (p, Some fr, Some sp)" "held_at (regs (cc_world st)) (cc_age st t) sp"
    using alive(5) [of t] by (auto simp: pc holds_snapshot_def)
  have "even (cc_age st t)" using alive(6) [of t] pc idle by simp
  from mutations_age_handlers [OF alive(2) xs this h(2), of L]
  have st': "usable (regs (cc_world ?st))" "held_at (regs (cc_world ?st)) ?n sp"
      "cc_pc ?st t = At_Handler p fr a h" "cc_dead ?st = None"
    using pc live by simp_all
  then have "snaps (regs (cc_world ?st)) sp = None"
    using held_live_iff [of "regs (cc_world ?st)" ?n sp] late by (simp add: usable_def)
  then have "fst (catch_jump p fr (handler_finish a h) (cc_world ?st) :: 'b call outcome \<times> 'a world) = Undefined"
    by (simp add: catch_jump_def h(1) handler_finish_apply and_then_def lookup_in_def deref_snapshot_def
        on_regs_def zoom_def)
  then show ?thesis
    using st' by (auto simp: conc_move_def conc_after_def split: prod.splits outcome.splits)
qed

section \<open>Fault addresses are private\<close>

fun job_within :: "(usize \<Rightarrow> bool) \<Rightarrow> 'r job \<Rightarrow> bool" where
  "job_within P (Running q) \<longleftrightarrow> flat q \<and> within P q"
| "job_within P (Ended (Inl a)) \<longleftrightarrow> P a"
| "job_within P (Ended (Inr r)) \<longleftrightarrow> True"

lemma access_step_within:
  "flat q \<Longrightarrow> within P q \<Longrightarrow> access_step L q s = (Some j, s') \<Longrightarrow> job_within P j"
  by (cases q) (auto split: prod.splits mem_result.splits)

lemma par_step_within:
  assumes "par_step L (s, js, d) (s', js', d')" and "\<And>t. job_within (P t) (js t)"
  shows "job_within (P t) (js' t)"
proof -
  obtain u where "par_move L u (s, js, d) = Some (s', js', d')" using assms(1) by (auto simp: par_step_def)
  then obtain q where q: "js u = Running q"
    and "js' = js \<or> (\<exists>j s1. access_step L q s = (Some j, s1) \<and> js' = js(u := j))"
    by (auto split: bool.splits job.splits prod.splits option.splits)
  then show ?thesis
    using assms(2) [of t] assms(2) [of u] access_step_within by (auto simp: q)
qed

lemma par_reach_within:
  "(par_step L)\<^sup>*\<^sup>* p p' \<Longrightarrow> (\<And>t. job_within (P t) (fst (snd p) t)) \<Longrightarrow> job_within (P t) (fst (snd p') t)"
proof (induction arbitrary: t rule: rtranclp_induct)
  case (step y z)
  then show ?case
    using par_step_within [of L "fst y" "fst (snd y)" "snd (snd y)" "fst z" "fst (snd z)" "snd (snd z)" P t]
    by simp
qed simp

text \<open>
  C20: in every interleaving, a fault address returned to a thread is an address of that thread's
  own program: no thread receives the fault of another.
\<close>

theorem fault_addresses_private:
  assumes env: "signal_ok L" and inv: "sig_inv w" and lag: "lag \<le> 4"
    and progs: "\<And>t. flat (progs t) \<and> within (recoverable L w) (progs t) \<and> within (P t) (progs t)"
    and reach: "(conc_step L lag)\<^sup>*\<^sup>* (conc_start w progs) st"
    and ret: "cc_pc st t = Returned (Inl a)"
  shows "P t a"
proof -
  have "conc_inv L (conc_start w progs)"
    by (rule conc_start_ok [OF inv]) (use progs in \<open>simp add: prog_ok_def\<close>)
  then have "(par_step L)\<^sup>*\<^sup>* (os w, (\<lambda>t. Running (progs t)), False) (conc_abs st)"
    using conc.runs_simulate [OF reach] env lag by (simp add: conc_abs_start)
  then have "job_within (P t) (fst (snd (conc_abs st)) t)"
    by (rule par_reach_within) (use progs in simp)
  then show ?thesis using ret by (simp add: conc_abs_def)
qed

end
