(* ===== verification/Signal_Sound.thy ===== *)
theory Signal_Sound
  imports Signal_Protect
begin

text \<open>
  Soundness of protected calls for arbitrary closures: closures may panic, nest protected calls to
  any depth and access any address. Started in a well-formed state, a protected call never runs
  into undefined behaviour, never jumps to a checkpoint that is gone, and returns in a well-formed
  state.
\<close>

section \<open>Inside a protected call\<close>

text \<open>
  The thread has its state and, while it is armed, the checkpoint of the innermost call that is
  still running.
\<close>

definition inside :: "'os world \<Rightarrow> tid \<Rightarrow> nat \<Rightarrow> nat \<Rightarrow> bool" where
  "inside w t p fr \<longleftrightarrow>
     sig_inv w \<and> sigbus_action w = SIGBUS_HANDLER \<and> slots w t (thread_state_key w) = Ours p
     \<and> (\<exists>ts. tstates w p = Some ts \<and> (in_protected ts \<longrightarrow> jmp_buf ts = Some fr))"

text \<open>Whether a program can reach a panic.\<close>

primrec may_panic :: "'r access \<Rightarrow> bool" where
  "may_panic (Return r) \<longleftrightarrow> False"
| "may_panic (Load a k) \<longleftrightarrow> (\<exists>b. may_panic (k b))"
| "may_panic (Store a b k) \<longleftrightarrow> may_panic k"
| "may_panic (Panic msg) \<longleftrightarrow> True"
| "may_panic (Protected q k) \<longleftrightarrow> may_panic q \<or> (\<exists>r. may_panic (k r))"

text \<open>How a closure, and a whole call, may end.\<close>

definition run_sound :: "bool \<Rightarrow> 'os world \<Rightarrow> tid \<Rightarrow> nat \<Rightarrow> nat \<Rightarrow> 'a outcome \<times> 'os world \<Rightarrow> bool" where
  "run_sound panics w t p fr res \<longleftrightarrow>
     (case res of
        (Ret _, w') \<Rightarrow> inside w' t p fr \<and> regs w' = regs w
      | (LongJmp fr', w') \<Rightarrow> fr' = fr \<and> inside w' t p fr \<and> regs w' = regs w
          \<and> (\<exists>ts. tstates w' p = Some ts \<and> registered w (fault_addr ts))
      | (Panicked msg, w') \<Rightarrow> panics
      | (Aborted, w') \<Rightarrow> panics
      | (Killed sig, w') \<Rightarrow> True
      | (Undefined, w') \<Rightarrow> False
      | (NoFuel, w') \<Rightarrow> False)"

definition call_sound :: "bool \<Rightarrow> 'os world \<Rightarrow> tid \<Rightarrow> nat \<Rightarrow> (usize + 'r) outcome \<times> 'os world \<Rightarrow> bool" where
  "call_sound panics w t p res \<longleftrightarrow>
     (case res of
        (Ret r, w') \<Rightarrow> (\<forall>fr. inside w' t p fr) \<and> unprotected w' t \<and> regs w' = regs w
          \<and> (\<forall>a. r = Inl a \<longrightarrow> registered w a)
      | (Aborted, w') \<Rightarrow> panics
      | (Killed sig, w') \<Rightarrow> True
      | _ \<Rightarrow> False)"

lemma run_sound_weaken: "run_sound b w t p fr res \<Longrightarrow> (b \<Longrightarrow> b') \<Longrightarrow> run_sound b' w t p fr res"
  by (auto simp: run_sound_def split: prod.splits outcome.splits)

lemma run_sound_regs:
  "run_sound b w1 t p fr res \<Longrightarrow> regs w1 = regs w \<Longrightarrow> run_sound b w t p fr res"
  using registered_cong [of w1 w] by (auto simp: run_sound_def split: prod.splits outcome.splits)

lemma inside_os [simp]: "inside (w\<lparr>os := s\<rparr>) t p fr = inside w t p fr"
  by (simp add: inside_def)

lemma deliver_sound:
  assumes "inside w t p fr"
  shows "run_sound b w t p fr (deliver_sigbus t a w)"
proof -
  obtain ts where i: "sig_inv w" "sigbus_action w = SIGBUS_HANDLER" "slots w t (thread_state_key w) = Ours p"
      "tstates w p = Some ts" "in_protected ts \<longrightarrow> jmp_buf ts = Some fr"
    using assms by (auto simp: inside_def)
  have inv: "reg_inv (regs w)" using i(1) by (simp add: sig_inv_def usable_def)
  let ?w = "w\<lparr>tstates := (tstates w)(p \<mapsto> ts\<lparr>fault_addr := a, in_protected := False\<rparr>)\<rparr>"
  have "sig_inv ?w"
    using sig_inv_update [OF i(1,4), where s = "os w" and n = "next_frame w"] by simp
  then show ?thesis
    using i by (simp add: deliver_sigbus_def sigbus_handler_protected [OF inv i(3,4)]
        mmap_guard_siglongjmp_def run_sound_def inside_def)
qed

section \<open>A nested call\<close>

lemma get_or_init_again:
  assumes "thread_inv w" and "slots w t (thread_state_key w) = Ours p"
  shows "get_or_init L t w = (Ret p, w)"
proof -
  have "key_once w = Complete" using assms by (cases "key_once w") (auto simp: thread_inv_def)
  then show ?thesis using assms(2) by (simp add: get_or_init_def init_key_def call_once_def key_def)
qed

lemma enter_inside:
  assumes env: "signal_ok L" and "inside w t p fr"
  shows "\<exists>ts w1. enter L t w = (Ret p, w1) \<and> sig_inv w1 \<and> sigbus_action w1 = SIGBUS_HANDLER
     \<and> slots w1 t (thread_state_key w1) = Ours p \<and> tstates w1 p = Some ts \<and> in_protected ts
     \<and> regs w1 = regs w"
proof -
  have inv: "sig_inv w" and sl: "slots w t (thread_state_key w) = Ours p"
    using assms(2) by (simp_all add: inside_def)
  let ?w = "w\<lparr>handler_once := Complete, sigbus_action := SIGBUS_HANDLER\<rparr>"
  have "install L w = (Ret (), ?w)"
    using env inv by (simp add: install_ok signal_ok_def sig_inv_def)
  moreover have "thread_inv ?w"
    by (rule thread_inv_cong [of w]) (use inv in \<open>simp_all add: sig_inv_def\<close>)
  then have "get_or_init L t ?w = (Ret p, ?w)" using sl by (intro get_or_init_again) simp_all
  ultimately have "fst (enter L t w) = Ret p \<or> fst (enter L t w) = Undefined"
    by (auto simp: enter_def and_then_def update_state_def split: option.split)
  with enter_ok [OF env inv, of t] show ?thesis by auto
qed

lemma disarmed:
  assumes "inside w t p fr" and "tstates w p = Some ts"
  defines "w' \<equiv> w\<lparr>tstates := (tstates w)(p \<mapsto> ts\<lparr>in_protected := False\<rparr>)\<rparr>"
  shows "inside w' t p fr'" and "unprotected w' t"
  using assms sig_inv_update [of w p ts "ts\<lparr>in_protected := False\<rparr>" , where s = "os w" and n = "next_frame w"]
  by (auto simp: inside_def unprotected_def)

text \<open>The checkpoint of a call, around a closure that is sound in itself.\<close>

lemma checkpoint_sound:
  assumes inv: "sig_inv w" and act: "sigbus_action w = SIGBUS_HANDLER"
    and sl: "slots w t (thread_state_key w) = Ours p" and ts: "tstates w p = Some ts"
    and f: "\<And>w fr. inside w t p fr \<Longrightarrow> run_sound b w t p fr (f w)"
  shows "call_sound b w t p (checkpoint p f w)"
proof -
  let ?fr = "next_frame w"
  let ?w = "w\<lparr>next_frame := Suc ?fr, tstates := (tstates w)(p \<mapsto> ts\<lparr>jmp_buf := Some ?fr\<rparr>)\<rparr>"
  have "sig_inv ?w" using sig_inv_update [OF inv ts, where s = "os w"] by simp
  then have "inside ?w t p ?fr" using act sl by (simp add: inside_def)
  then have snd: "run_sound b w t p ?fr (f ?w)" by (intro run_sound_regs [OF f]) simp_all
  obtain out w1 where o: "f ?w = (out, w1)" by fastforce
  note call = checkpoint_def mmap_guard_protected_call_def trampoline_def Let_def and_then_def
    update_state_def read_state_def ts o
  show ?thesis
  proof (cases out)
    case (Ret r)
    then obtain ts1 where "inside w1 t p ?fr" "tstates w1 p = Some ts1" "regs w1 = regs w"
      using snd o by (auto simp: run_sound_def inside_def)
    with Ret disarmed show ?thesis by (auto simp: call call_sound_def)
  next
    case (LongJmp fr')
    then obtain ts1 where "fr' = ?fr" "inside w1 t p ?fr" "tstates w1 p = Some ts1" "regs w1 = regs w"
        "registered w (fault_addr ts1)"
      using snd o by (auto simp: run_sound_def)
    with LongJmp disarmed show ?thesis by (auto simp: call call_sound_def)
  qed (use snd o in \<open>auto simp: call call_sound_def run_sound_def\<close>)
qed

section \<open>Every closure\<close>

lemma call_then_sound:
  assumes c: "call_sound b w t p res" and b: "b \<Longrightarrow> b'"
    and k: "\<And>r w'. inside w' t p fr \<Longrightarrow> run_sound b' w' t p fr (k r w')"
  shows "run_sound b' w t p fr (case res of (out, w') \<Rightarrow> on_ret out k w')"
proof (cases res)
  case (Pair out w')
  show ?thesis
  proof (cases out)
    case (Ret r)
    then have "inside w' t p fr" "regs w' = regs w" using c Pair by (simp_all add: call_sound_def)
    then show ?thesis using k [of w' r] run_sound_regs Pair Ret by fastforce
  qed (use c b Pair in \<open>simp_all add: call_sound_def run_sound_def\<close>)
qed

lemma call_inside_sound:
  assumes env: "signal_ok L" and w: "inside w t p fr"
    and f: "\<And>w fr. inside w t p fr \<Longrightarrow> run_sound b w t p fr (f w)"
  shows "call_sound b w t p (with_sigbus_protection L t f w)"
proof -
  obtain ts w1 where e: "enter L t w = (Ret p, w1)" "sig_inv w1" "sigbus_action w1 = SIGBUS_HANDLER"
      "slots w1 t (thread_state_key w1) = Ours p" "tstates w1 p = Some ts" "regs w1 = regs w"
    using enter_inside [OF env w] by blast
  have "call_sound b w1 t p (checkpoint p f w1)" by (rule checkpoint_sound [OF e(2-5) f])
  then show ?thesis
    using e(1,6) registered_cong [OF e(6)]
    by (auto simp: with_sigbus_protection_split call_sound_def split: prod.splits outcome.splits)
qed

text \<open>A single access: it gives a value, is fatal, or enters the handler.\<close>

lemma access_sound:
  assumes w: "inside w t p fr"
    and k: "\<And>b w'. inside w' t p fr \<Longrightarrow> run_sound (panics b) w' t p fr (k b w')" and b: "\<And>b. panics b \<Longrightarrow> b'"
  shows "run_sound b' w t p fr
     (case m of
        (Value b, s) \<Rightarrow> k b (w\<lparr>os := s\<rparr>)
      | (BusError, s) \<Rightarrow> deliver_sigbus t a (w\<lparr>os := s\<rparr>)
      | (SegFault, s) \<Rightarrow> (Killed SIGSEGV, w\<lparr>os := s\<rparr>))"
proof -
  have regs: "run_sound b' (w\<lparr>os := s\<rparr>) t p fr res \<Longrightarrow> run_sound b' w t p fr res" for s and res :: "'b outcome \<times> 'a world"
    by (erule run_sound_regs) simp
  have "run_sound b' (w\<lparr>os := s\<rparr>) t p fr (k x (w\<lparr>os := s\<rparr>))" for x s
    using run_sound_weaken [OF k b] w by simp
  then show ?thesis
    using w by (auto intro!: regs deliver_sound split: prod.split mem_result.split) (simp add: run_sound_def)
qed

lemma closure_sound:
  assumes env: "signal_ok L"
  shows "inside w t p fr \<Longrightarrow> run_sound (may_panic q) w t p fr (run L t q w)"
proof (induction q arbitrary: w fr)
  case (Return r)
  then show ?case by (simp add: run_sound_def)
next
  case (Load a k)
  show ?case
    unfolding run.simps by (rule access_sound [OF Load.prems Load.IH [OF rangeI]]) auto
next
  case (Store a b k)
  show ?case
    unfolding run.simps by (rule access_sound [OF Store.prems Store.IH]) auto
next
  case (Panic msg)
  then show ?case by (simp add: run_sound_def)
next
  case (Protected q k)
  have "call_sound (may_panic q) w t p (with_sigbus_protection L t (run L t q) w)"
    by (rule call_inside_sound [OF env Protected.prems Protected.IH(1)])
  moreover have "run_sound (may_panic (Protected q k)) w' t p fr (run L t (k r) w')" if "inside w' t p fr" for r w'
    by (rule run_sound_weaken [OF Protected.IH(2) [OF rangeI that]]) auto
  ultimately show ?case by (simp add: and_then_def call_then_sound)
qed

text \<open>
  C5: type soundness of protected calls: whatever the closure does, accessing any address, nesting
  protected calls and panicking, a protected call started in a well-formed state never meets
  undefined behaviour and never leaves a jump to a checkpoint that is gone. It returns in a
  well-formed state with the thread unprotected and the registry unchanged, a fault address it
  returns is registered; or the process is killed by a signal, or it is aborted because the closure
  can panic.
\<close>

theorem protected_sound:
  assumes env: "signal_ok L" and inv: "sig_inv w"
  shows "case protected L t q w of
       (Ret r, w') \<Rightarrow> sig_inv w' \<and> unprotected w' t \<and> regs w' = regs w \<and> (\<forall>a. r = Inl a \<longrightarrow> registered w a)
     | (Killed sig, w') \<Rightarrow> True
     | (Aborted, w') \<Rightarrow> may_panic q
     | _ \<Rightarrow> False"
proof -
  obtain p ts w1 where e: "enter L t w = (Ret p, w1)" "sig_inv w1" "sigbus_action w1 = SIGBUS_HANDLER"
      "slots w1 t (thread_state_key w1) = Ours p" "tstates w1 p = Some ts" "regs w1 = regs w"
    using enter_ok [OF env inv, of t] by blast
  have "call_sound (may_panic q) w1 t p (checkpoint p (run L t q) w1)"
    by (rule checkpoint_sound [OF e(2-5) closure_sound [OF env]])
  then show ?thesis
    using e(1,6) registered_cong [OF e(6)]
    by (auto simp: protected_def with_sigbus_protection_split call_sound_def inside_def
        split: prod.splits outcome.splits)
qed

end
