(* ===== verification/Demo_Witnesses.thy ===== *)
theory Demo_Witnesses
  imports Demo_Kernel Mmap_Prefetch Signal_Concurrent Signal_Sound
begin

text \<open>
  The theorems applied at concrete inputs on the environment of \<open>Demo_Kernel\<close>: each witness
  discharges every hypothesis of its theorem there.
\<close>

section \<open>System layer\<close>

theorem advise_flush_exact_witness:
  "\<exists>a n. covers_pages (2 ^ 12) 4000 200 a n
     \<and> advise_range demo_libc WillNeed demo_raw 4000 200
       = checked_syscall demo_libc (sys_madvise demo_libc (rm_ptr demo_raw + a) n (advice_as_libc demo_libc WillNeed))
     \<and> raw_flush demo_libc False demo_raw 4000 200
       = checked_syscall demo_libc (sys_msync demo_libc (rm_ptr demo_raw + a) n
           (if False then MS_ASYNC demo_libc else MS_SYNC demo_libc))"
  by (rule advise_flush_exact [OF demo_page demo_raw_ok]) simp_all

theorem mincore_exact_witness:
  "\<exists>a n. covers_pages (2 ^ 12) 4000 200 a n \<and>
     raw_mincore demo_libc demo_raw 4000 200
     = and_then (syscall (sys_mincore demo_libc (rm_ptr demo_raw + a) n)) (\<lambda>(code, bytes).
         os_result demo_libc code
           (map (\<lambda>b. b AND 1 \<noteq> 0)
             (overwrite (replicate (card (touched_pages (2 ^ 12) (unat (4000 :: usize)) (unat (200 :: usize)))) 0)
                bytes)))"
  by (rule mincore_exact [OF demo_page demo_raw_ok]) simp_all

theorem map_validates_witness:
  "\<exists>msg. mmap_options_map demo_libc (mmap_options_new 0) (\<lambda>_. 0)
     = (Ret (Inl (Custom InvalidInput msg)), \<lambda>_. 0)"
  using map_validates [of demo_libc "mmap_options_new 0" "\<lambda>_. 0"]
  by (simp add: mmap_options_new_def)

theorem detect_linux_result_witness:
  "\<exists>stat. sys_statfs demo_libc ''x'' (\<lambda>_. 0) = ((0, stat), \<lambda>_. 0) \<and> (\<forall>x. Nfs \<noteq> Unknown x)
     \<and> (is_network Nfs \<longleftrightarrow> f_type stat \<in> {NFS_SUPER_MAGIC, CIFS_MAGIC, EFS_SUPER_MAGIC})
     \<and> (Nfs = Fuse \<longleftrightarrow> f_type stat = FUSE_SUPER_MAGIC)"
  by (rule detect_linux_result)
    (simp_all add: detect_def path_to_cstring_def detect_linux_def try_then_def and_then_def
      statfs_apply magic_defs)

theorem detect_errors_witness:
  "detect demo_libc [CHR 0x00] (\<lambda>_. 0)
     = (Ret (Inl (Custom InvalidInput ''path contains null byte'')), \<lambda>_. 0)"
  using detect_errors [of "[CHR 0x00]" demo_libc "\<lambda>_. 0"] by simp

definition demo_reader :: pread_reader where
  "demo_reader = \<lparr>pr_file = 3, pr_len = 4, pr_path = ''data.bin''\<rparr>"

lemma demo_pread_law: "pread_law demo_libc 3 demo_file"
proof -
  have "take 1 (drop k demo_file) = [demo_file ! k]" if "k < 4" for k
    using that by (simp add: demo_file_def less_Suc_eq numeral_eq_Suc) auto
  then show ?thesis
    by (auto simp: pread_law_def demo_pread_def not_le demo_file_def unat_gt_0 Suc_le_eq
        simp flip: unat_gt_0)
qed

lemma demo_pread_progress: "pread_progress demo_libc 3 demo_file"
  by (auto simp: pread_progress_def demo_pread_def demo_file_def)

theorem pread_reader_read_ok_witness:
  "\<exists>s'. pread_reader_read demo_libc demo_reader 1 3 (\<lambda>b. ret (b :: u8 list)) (\<lambda>_. 0) = (Ret (Inr [8, 9]), s')"
  using pread_reader_read_ok [of demo_libc demo_reader demo_file 1 3 "\<lambda>b. b" "\<lambda>_. 0"]
    demo_pread_law demo_pread_progress
  by (auto simp: demo_reader_def demo_file_def)

theorem pread_reader_reversed_witness:
  "pread_reader_read demo_libc demo_reader 3 1 (\<lambda>b. ret (b :: u8 list)) (\<lambda>_. 0)
     = (Panicked ''attempt to subtract with overflow'', \<lambda>_. 0)"
  using pread_reader_reversed [of 1 3 demo_libc demo_reader "\<lambda>b. ret b" "\<lambda>_. 0"] by simp

section \<open>Signal layer\<close>

theorem reg_run_refines_witness:
  "\<exists>s'. reg_run True [Register 4096 4096, Register 65536 8192, Unregister 4096] registry_init = (Ret (), s')
     \<and> usable s' \<and> regions_of s'
       = fold spec_step [Register 4096 4096, Register 65536 8192, Unregister 4096] (regions_of registry_init)"
  by (rule reg_run_refines [OF usable_init]) simp

theorem live_snapshots_bounded_witness:
  "\<exists>s'. reg_run True [Register 4096 4096, Register 65536 8192, Unregister 4096] registry_init = (Ret (), s')
     \<and> finite (dom (snaps s')) \<and> card (dom (snaps s')) \<le> 3"
  by (rule live_snapshots_bounded) simp

text \<open>A region is registered; a handler starts in the middle of the next registration.\<close>

definition demo_rcu_held :: rcu where
  "demo_rcu_held = \<lparr>rc_reg = rotated (published [\<lparr>r_start = 65536, r_end = 73728\<rparr>] registry_init),
     rc_change = Some (Register 131072 4096), rc_held = (\<lambda>_. None)(0 := Some 0), rc_age = (\<lambda>_. 3)(0 := 1)\<rparr>"

lemma demo_rcu_reach: "rcu_reach True demo_rcu_held"
proof -
  let ?r = "published [\<lparr>r_start = 65536, r_end = 73728\<rparr>] registry_init"
  have inv: "reg_inv ?r" by (rule published_inv) (use reg_inv_init in \<open>simp_all add: registry_init_def\<close>)
  have s: "snapshot (rotated ?r) = Some 0"
    by (simp add: published_def publish_def registry_init_def Let_def)
  let ?s0 = "\<lparr>rc_reg = registry_init, rc_change = None, rc_held = (\<lambda>_. None), rc_age = (\<lambda>_. 0)\<rparr>"
  let ?s1 = "?s0\<lparr>rc_reg := registry_init, rc_change := Some (Register 65536 8192), rc_age := (\<lambda>t. Suc (rc_age ?s0 t))\<rparr>"
  let ?s2 = "?s1\<lparr>rc_reg := ?r, rc_change := None, rc_age := (\<lambda>t. Suc (rc_age ?s1 t))\<rparr>"
  let ?s3 = "?s2\<lparr>rc_reg := rotated ?r, rc_change := Some (Register 131072 4096), rc_age := (\<lambda>t. Suc (rc_age ?s2 t))\<rparr>"
  have "rcu_step True ?s0 ?s1"
    by (rule rcu_step.rotate) (simp_all add: registry_init_def rotate_retired_def and_then_def)
  moreover have "rcu_step True ?s1 ?s2"
    by (rule rcu_step.publish [of _ "Register 65536 8192"])
      (simp_all add: registry_init_def usize_add_def and_then_def publish_apply)
  moreover have "rcu_step True ?s2 ?s3"
    by (rule rcu_step.rotate) (simp_all add: rotate_retired_ok [OF inv], simp add: registry_init_def)
  moreover have "rcu_step True ?s3 (?s3\<lparr>rc_held := (rc_held ?s3)(0 := Some 0),
      rc_age := (rc_age ?s3)(0 := age_at_load (rc_change ?s3))\<rparr>)"
    by (rule rcu_step.load) (use s in simp_all)
  moreover have "?s3\<lparr>rc_held := (rc_held ?s3)(0 := Some 0),
      rc_age := (rc_age ?s3)(0 := age_at_load (rc_change ?s3))\<rparr> = demo_rcu_held"
    by (simp add: demo_rcu_held_def age_at_load_def numeral_3_eq_3)
  ultimately show ?thesis by (metis rcu_reach.start rcu_reach.step)
qed

theorem reader_snapshot_live_iff_witness:
  "snaps (rc_reg demo_rcu_held) 0 \<noteq> None \<longleftrightarrow> rc_age demo_rcu_held 0 \<le> 4"
  by (rule reader_snapshot_live_iff [OF demo_rcu_reach]) (simp add: demo_rcu_held_def)

theorem register_lookup_roundtrip_witness:
  "\<exists>s'. register True 4096 4096 demo_regs = (Ret (), s') \<and> contains 5000 s' = (Ret True, s')"
  using register_lookup_roundtrip [OF demo_usable, of 4096 4096 True] by auto

theorem register_overflow_poisons_witness:
  "\<exists>s'. register True (- 4096) 8192 demo_regs = (Panicked ''attempt to add with overflow'', s')
     \<and> register False 4096 4096 s' = (Panicked ''region mutex poisoned'', s')
     \<and> unregister 4096 s' = (Panicked ''region mutex poisoned'', s')
     \<and> contains 65536 s' = (Ret (\<exists>r \<in> set (regions_of demo_regs). in_region 65536 r), s')"
  by (rule register_overflow_poisons [OF demo_usable]) simp

lemma demo_thread_inv: "thread_inv demo_world"
  using demo_sig_inv by (simp add: sig_inv_def)

lemma demo_pthread_ok: "pthread_ok demo_libc"
  using demo_signal_ok by (simp add: signal_ok_def)

theorem thread_states_private_witness:
  "\<exists>p w1. get_or_init demo_libc 1 demo_world = (Ret p, w1) \<and> thread_inv w1 \<and> tstates w1 p \<noteq> None
     \<and> get_or_init demo_libc 1 w1 = (Ret p, w1)
     \<and> (\<forall>t'. t' \<noteq> 1 \<longrightarrow> (\<exists>p' w2. get_or_init demo_libc t' w1 = (Ret p', w2) \<and> thread_inv w2 \<and> p' \<noteq> p))"
  by (rule thread_states_private [OF demo_pthread_ok demo_thread_inv])

text \<open>The process after thread 1 has obtained its state.\<close>

definition demo_world1 :: "demo world" where
  "demo_world1 = snd (get_or_init demo_libc 1 demo_world)"

lemma demo_world1_facts:
  "thread_inv demo_world1" "key_once demo_world1 = Complete"
  "slots demo_world1 1 (thread_state_key demo_world1) = Ours 0"
proof -
  obtain p w' where w': "get_or_init demo_libc 1 demo_world = (Ret p, w')" "thread_inv w'"
      "key_once w' = Complete" "slots w' 1 (thread_state_key w') = Ours p"
    using get_or_init_ok [OF demo_pthread_ok demo_thread_inv, of 1] by blast
  moreover have "fst (get_or_init demo_libc 1 demo_world) = Ret 0"
    by (simp add: demo_world_def world_init_def get_or_init_def init_key_def call_once_def key_def
        and_then_def Let_def)
  ultimately show "thread_inv demo_world1" "key_once demo_world1 = Complete"
    "slots demo_world1 1 (thread_state_key demo_world1) = Ours 0"
    by (auto simp: demo_world1_def)
qed

theorem thread_exit_frees_witness:
  "\<exists>w'. thread_exit 1 demo_world1 = (Ret (), w') \<and> thread_inv w' \<and> tstates w' 0 = None
     \<and> slots w' 1 (thread_state_key demo_world1) = Null
     \<and> (\<forall>t' q. t' \<noteq> 1 \<longrightarrow> slots demo_world1 t' (thread_state_key demo_world1) = Ours q \<longrightarrow>
           slots w' t' (thread_state_key demo_world1) = Ours q \<and> tstates w' q = tstates demo_world1 q)"
  by (rule thread_exit_frees [OF demo_world1_facts])

lemma demo_reg_inv: "reg_inv (regs demo_world)"
  using demo_usable by (simp add: usable_def)

text \<open>Thread 1 stands inside a protected call, with its checkpoint in frame 7.\<close>

definition demo_armed :: "demo world" where
  "demo_armed = demo_world\<lparr>slots := (\<lambda>t k. if t = 1 then Ours 0 else Null),
     tstates := [0 \<mapsto> \<lparr>jmp_buf = Some 7, in_protected = True, fault_addr = 0\<rparr>]\<rparr>"

theorem handler_recovers_iff_witness:
  "fst (sigbus_handler 1 70000 demo_armed :: unit outcome \<times> demo world) = LongJmp 7"
proof -
  have "reg_inv (regs demo_armed)" using demo_reg_inv by (simp add: demo_armed_def)
  from handler_recovers_iff [OF this, of 1 70000 7] show ?thesis
    by (simp add: demo_armed_def registered_def demo_regions in_region_def)
qed

theorem handler_before_key_reads_foreign_slot_witness:
  "fst (deliver_sigbus 1 70000 (snd (install demo_libc (world_init (\<lambda>t k. k = 0) (\<lambda>_. 0))))
      :: unit outcome \<times> demo world) = Undefined"
  by (rule handler_before_key_reads_foreign_slot) simp_all

theorem install_once_witness:
  "\<exists>w'. install demo_libc demo_world = (Ret (), w') \<and> sigbus_action w' = SIGBUS_HANDLER
      \<and> install demo_libc w' = (Ret (), w')"
proof -
  have "handler_inv demo_world" "handler_once demo_world = Incomplete"
    by (simp_all add: handler_inv_def demo_world_def world_init_def)
  from install_once [OF this, of demo_libc] show ?thesis by simp
qed

lemma demo_registered: "registered demo_world 69632"
  by (simp add: registered_def demo_regions in_region_def)

theorem protected_faults_become_values_witness:
  "\<exists>w'. protected demo_libc 1 (Load 69632 Return) demo_world = (Ret (Inl 69632), w') \<and> sig_inv w'
     \<and> regs w' = demo_regs \<and> unprotected w' 1"
  using protected_faults_become_values [OF demo_signal_ok demo_sig_inv, of "Load 69632 Return" 1]
  by (auto simp: recoverable_def demo_registered demo_bad_def)

text \<open>
  Two threads take turns in a protected load from the lost page each, at different addresses. When
  both are in the handler, a third thread registers a mapping and starts to unregister it; the
  handlers go on in the middle of that.
\<close>

definition demo_progs :: "tid \<Rightarrow> u8 access" where
  "demo_progs t = Load (if t = 1 then 69632 else 69700) Return"

definition demo_handlers :: "(demo, u8) conc" where
  "demo_handlers = conc_run demo_libc [1, 2, 1, 2, 1, 2, 1, 2, 1, 2] (conc_start demo_world demo_progs)"

definition demo_overtaken :: "(demo, u8) conc" where
  "demo_overtaken = conc_mutate demo_libc (Register 131072 4096) demo_handlers"

definition demo_conc :: "(demo, u8) conc" where
  "demo_conc = conc_run demo_libc [1, 2, 1, 2, 1, 2]
     (conc_rotate (Unregister 131072) demo_overtaken)"

lemma demo_progs_ok: "flat (demo_progs t) \<and> within (recoverable demo_libc demo_world) (demo_progs t)"
  by (simp add: demo_progs_def recoverable_def registered_def demo_regions in_region_def)

lemmas demo_call_defs = conc_start_def conc_move_def conc_after_def demo_world_def world_init_def
  install_def call_once_def and_then_def get_or_init_def init_key_def key_def update_state_def
  read_state_def Let_def thread_state_new_def shim_step_def catch_jump_def trampoline_def demo_bad_def
  handler_load_def handler_finish_def lookup_in_def on_regs_def zoom_def demo_regs_def
  deref_snapshot_def in_region_def mmap_guard_siglongjmp_def age_at_load_def

lemma demo_handlers_state:
  "cc_pc demo_handlers = (\<lambda>t. At_Call (demo_progs t))
     (1 := At_Handler 0 0 69632 (0, Some 0, Some 0), 2 := At_Handler 1 1 69700 (1, Some 1, Some 0))"
  "cc_age demo_handlers = (\<lambda>_. 0)" "cc_change demo_handlers = None" "cc_dead demo_handlers = None" "regs (cc_world demo_handlers) = demo_regs"
  by (simp_all add: demo_handlers_def demo_progs_def demo_call_defs fun_eq_iff)

lemmas demo_mutation_defs = conc_mutate_def conc_rotate_def conc_publish_def rotate_retired_def
  publish_def usize_add_def age_at_load_def

lemma demo_mutated_regions:
  "regions_of (regs (cc_world demo_overtaken)) = [\<lparr>r_start = 65536, r_end = 73728\<rparr>, \<lparr>r_start = 131072, r_end = 135168\<rparr>]"
  by (simp add: demo_overtaken_def demo_mutation_defs demo_handlers_state demo_call_defs regions_of_def)

lemma demo_overtaken_state:
  "cc_pc demo_overtaken = cc_pc demo_handlers" "cc_age demo_overtaken = (\<lambda>_. 2)"
  "cc_dead demo_overtaken = None" "cc_change demo_overtaken = None"
  by (simp_all add: demo_overtaken_def conc_mutate_def conc_rotate_def conc_publish_def Let_def
      demo_handlers_state numeral_2_eq_2)

lemma demo_borrows: "respects_borrows demo_libc (conc_rotate x demo_handlers) demo_overtaken"
proof -
  have "cc_pc (conc_rotate x demo_handlers) = cc_pc demo_handlers" by (simp add: conc_rotate_def Let_def)
  then show ?thesis
    by (auto simp: respects_borrows_def demo_handlers_state demo_progs_def recoverable_def
        registered_def demo_mutated_regions in_region_def)
qed

lemma demo_conc_reach: "(conc_step demo_libc 4)\<^sup>*\<^sup>* (conc_start demo_world demo_progs) demo_conc"
proof -
  let ?st = "conc_rotate (Register 131072 4096) demo_handlers"
  have "(conc_step demo_libc 4)\<^sup>*\<^sup>* (conc_start demo_world demo_progs) demo_handlers"
    unfolding demo_handlers_def by (rule conc_run_reach)
  also have "conc_step demo_libc 4 demo_handlers ?st"
    by (rule conc_step.rotate) (simp_all add: demo_handlers_state)
  also (rtranclp.rtrancl_into_rtrancl) have "conc_step demo_libc 4 ?st demo_overtaken"
    unfolding demo_overtaken_def conc_mutate_def
    by (rule conc_step.publish)
      (use demo_borrows [of "Register 131072 4096"] in
        \<open>simp_all add: demo_overtaken_def conc_mutate_def conc_rotate_def Let_def demo_handlers_state\<close>)
  also (rtranclp.rtrancl_into_rtrancl)
  have "conc_step demo_libc 4 demo_overtaken (conc_rotate (Unregister 131072) demo_overtaken)"
    by (rule conc_step.rotate) (simp_all add: demo_overtaken_state)
  also (rtranclp.rtrancl_into_rtrancl)
  have "(conc_step demo_libc 4)\<^sup>*\<^sup>* (conc_rotate (Unregister 131072) demo_overtaken) demo_conc"
    unfolding demo_conc_def by (rule conc_run_reach)
  finally (rtranclp_trans) show ?thesis .
qed

lemma demo_conc_returned:
  "cc_pc demo_conc 1 = Returned (Inl 69632)"
  "cc_pc demo_conc 2 = Returned (Inl 69700)"
  by (simp_all add: demo_conc_def demo_overtaken_def demo_handlers_def demo_progs_def demo_mutation_defs
      demo_call_defs)

theorem concurrent_calls_refine_witness:
  "(par_step demo_libc)\<^sup>*\<^sup>* (os demo_world, (\<lambda>t. Running (demo_progs t)), False) (conc_abs demo_conc)
     \<and> (case cc_dead demo_conc of None \<Rightarrow> sig_inv (cc_world demo_conc) | Some d \<Rightarrow> d = Killed SIGSEGV)"
  by (rule concurrent_calls_refine [OF demo_signal_ok demo_sig_inv _ demo_progs_ok demo_conc_reach]) simp

theorem fault_addresses_private_witness:
  "cc_pc demo_conc 2 = Returned (Inl 69700) \<and> in_slice 69700 1 69700"
proof
  have "in_slice (if (2 :: tid) = 1 then 69632 else 69700) 1 69700"
    by (rule fault_addresses_private [OF demo_signal_ok demo_sig_inv _ _ demo_conc_reach demo_conc_returned(2)])
      (use demo_progs_ok in \<open>auto simp: demo_progs_def in_slice_def\<close>)
  then show "in_slice 69700 1 69700" by simp
qed (rule demo_conc_returned)

theorem overtaken_handler_undefined_witness:
  "\<exists>st'. conc_move demo_libc 1
       (fold (conc_mutate demo_libc) [Register 131072 4096, Unregister 131072, Register 262144 4096] demo_handlers)
       = Some st' \<and> cc_dead st' = Some Undefined"
proof (rule overtaken_handler_undefined)
  have "conc_inv demo_libc (conc_start demo_world demo_progs)"
    by (rule conc_start_ok [OF demo_sig_inv]) (use demo_progs_ok in \<open>simp add: prog_ok_def\<close>)
  then show "conc_inv demo_libc demo_handlers"
    unfolding demo_handlers_def
    using conc.runs_simulate [OF conc_run_reach [of demo_libc 0]] demo_signal_ok by blast
qed (simp_all add: demo_handlers_state)

text \<open>A protected read of the lost page inside a protected closure.\<close>

lemma demo_nested_returns:
  "fst (protected demo_libc 1 (Protected (Load 69632 Return) (\<lambda>_. Return 7)) demo_world) = Ret (Inr 7)"
  by (simp add: protected_def with_sigbus_protection_def mmap_guard_protected_call_def deliver_split
      demo_call_defs)

theorem protected_sound_witness:
  "\<exists>r w'. protected demo_libc 1 (Protected (Load 69632 Return) (\<lambda>_. Return 7)) demo_world = (Ret r, w')
     \<and> sig_inv w' \<and> unprotected w' 1 \<and> regs w' = demo_regs"
  using protected_sound [OF demo_signal_ok demo_sig_inv, of 1 "Protected (Load 69632 Return) (\<lambda>_. Return 7)"]
    demo_nested_returns
  by (auto split: prod.splits)

theorem foreign_fault_kills_witness:
  "fst (protected demo_libc 1 (Load 4096 (\<lambda>b. Store 69632 b (Return b))) (demo_world\<lparr>regs := registry_init\<rparr>))
       = Killed SIGBUS
   \<and> fst (run demo_libc 1 (Load 4096 (\<lambda>b. Store 69632 b (Return b))) (demo_world\<lparr>regs := registry_init\<rparr>))
       = Killed SIGBUS"
proof -
  let ?q = "Load 4096 (\<lambda>b. Store 69632 b (Return b))" and ?w = "demo_world\<lparr>regs := registry_init\<rparr>"
  have "sig_inv ?w" by (rule sig_inv_regs [OF demo_sig_inv usable_init])
  moreover have "slots ?w 1 (thread_state_key ?w) \<noteq> Foreign" by (simp add: demo_world_def world_init_def)
  ultimately show ?thesis
    using foreign_fault_kills [OF demo_signal_ok, of ?w ?q 69632 "\<lambda>_. 0" 1]
    by (simp add: demo_bad_def registered_def regions_of_def registry_init_def)
qed

theorem closure_panic_aborts_witness:
  "fst (protected demo_libc 1 (Panic ''boom'') demo_world :: (usize + unit) outcome \<times> demo world) = Aborted"
  by (rule closure_panic_aborts [OF demo_signal_ok demo_sig_inv])

theorem nested_call_disarms_witness:
  "fst (protected demo_libc 1 (Protected (Return 0) (\<lambda>_. Load 69632 Return)) demo_world
      :: (usize + u8) outcome \<times> demo world) = Killed SIGBUS"
  by (rule nested_call_disarms [OF demo_signal_ok demo_sig_inv, where e = "Finished 0" and s = "\<lambda>_. 0"])
    (simp_all add: demo_bad_def)

end
