(* ===== verification/Victim_Threads.thy ===== *)
theory Victim_Threads
  imports Signal_Concurrent Mmap_Prefetch
begin

text \<open>
  The test helpers of \<^verbatim>\<open>src/lib.rs\<close>, and the scoped threads of the multi-thread scenario of
  \<^verbatim>\<open>src/bin/sigbus_victim.rs\<close>: each reads a byte through a guard of its own, and their steps
  interleave under an arbitrary schedule.
\<close>

section \<open>signal\_test\_helpers\<close>

definition register_and_install :: "'os libc \<Rightarrow> usize \<Rightarrow> usize \<Rightarrow> ('os world, unit) comp" where
  "register_and_install L start len =
     and_then (install L) (\<lambda>_. on_regs (register (overflow_checks L) start len))"

definition helper_unregister :: "usize \<Rightarrow> ('os world, unit) comp" where
  "helper_unregister start = on_regs (unregister start)"

definition helper_guard :: "'os libc \<Rightarrow> raw_mmap \<Rightarrow> ('os world, read_guard) comp" where
  "helper_guard L raw = read_guard_new L raw"

section \<open>A thread that reads through a guard\<close>

fun is_sigbus :: "access_error + 'a \<Rightarrow> bool" where
  "is_sigbus (Inl (Sigbus a)) = True"
| "is_sigbus _ = False"

text \<open>
  The closure given to \<open>spawn\<close>, in steps: taking the guard and the range check, the protected call,
  the thread-exit destructors. \<open>None\<close> is the result of a thread that panicked.
\<close>

datatype reader = R_Start | R_Call "u8 call" | R_Exit "bool option" | R_Done "bool option"

fun reader_step :: "'os libc \<Rightarrow> raw_mmap \<Rightarrow> usize \<Rightarrow> tid \<Rightarrow> reader \<Rightarrow> ('os world, reader) comp option" where
  "reader_step L raw pos t R_Start =
     Some (and_then (helper_guard L raw) (\<lambda>g.
       ret (if is_none_or (checked_add pos 1) (\<lambda>e. rm_len (rg_raw g) < e) then R_Exit (Some False)
            else R_Call (At_Call (first_byte (rm_ptr (rg_raw g) + pos) 1)))))"
| "reader_step L raw pos t (R_Call pc) =
     (case pc of
        Returned r \<Rightarrow> Some (ret (R_Exit (Some (is_sigbus (map_sum Sigbus (\<lambda>v. v) r)))))
      | _ \<Rightarrow> map_option (\<lambda>c. and_then c (\<lambda>pc'. ret (R_Call pc'))) (call_step L t pc))"
| "reader_step L raw pos t (R_Exit b) = Some (and_then (thread_exit t) (\<lambda>_. ret (R_Done b)))"
| "reader_step L raw pos t (R_Done b) = None"

text \<open>
  All threads under a schedule. A panic ends the thread it happens in, anything else but a return
  ends the process.
\<close>

primrec run_threads ::
    "'os libc \<Rightarrow> raw_mmap \<Rightarrow> usize \<Rightarrow> tid list \<Rightarrow> (tid \<Rightarrow> reader) \<Rightarrow> ('os world, tid \<Rightarrow> reader) comp" where
  "run_threads L raw pos [] rd = ret rd"
| "run_threads L raw pos (t # sch) rd =
     (case reader_step L raw pos t (rd t) of
        None \<Rightarrow> run_threads L raw pos sch rd
      | Some c \<Rightarrow>
          (\<lambda>w. case c w of
                 (Ret r, w') \<Rightarrow> run_threads L raw pos sch (rd(t := r)) w'
               | (Panicked msg, w') \<Rightarrow> run_threads L raw pos sch (rd(t := R_Exit None)) w'
               | (out, w') \<Rightarrow> on_ret out (\<lambda>_. halt Undefined) w'))"

text \<open>\<open>thread::scope\<close>: all threads are joined; \<open>unwrap\<close> panics if one of them has panicked.\<close>

fun joined :: "reader \<Rightarrow> bool option" where
  "joined (R_Done b) = b"
| "joined _ = None"

definition scope :: "'os libc \<Rightarrow> raw_mmap \<Rightarrow> usize \<Rightarrow> tid list \<Rightarrow> tid list \<Rightarrow> ('os world, bool list) comp" where
  "scope L raw pos ts sch =
     and_then (run_threads L raw pos (filter (\<lambda>t. t \<in> set ts) sch) (\<lambda>_. R_Start)) (\<lambda>rd.
     if \<not> list_all (\<lambda>t. \<exists>b. rd t = R_Done b) ts then halt NoFuel
     else if list_ex (\<lambda>t. rd t = R_Done None) ts
     then halt (Panicked ''called `Result::unwrap()` on an `Err` value: Any { .. }'')
     else ret (map (\<lambda>t. the (joined (rd t))) ts))"

section \<open>Every interleaving recovers\<close>

text \<open>
  As long as the kernel state satisfies \<open>B\<close>, the byte at \<open>a\<close> has no backing store, and a failed
  load of it keeps that so.
\<close>

definition lost_byte :: "'os libc \<Rightarrow> ('os \<Rightarrow> bool) \<Rightarrow> usize \<Rightarrow> bool" where
  "lost_byte L B a \<longleftrightarrow>
     (\<forall>s. B s \<longrightarrow> fst (mem_load L a s) = BusError \<and> B (snd (mem_load L a s)))"

lemma lost_byte_load:
  assumes "lost_byte L B a" and "B s"
  obtains s' where "mem_load L a s = (BusError, s')" and "B s'"
  using assms unfolding lost_byte_def by (metis prod.collapse)

text \<open>Every thread has lost its access to the byte or is about to.\<close>

definition reader_ok :: "'os libc \<Rightarrow> usize \<Rightarrow> 'os world \<Rightarrow> tid \<Rightarrow> reader \<Rightarrow> bool" where
  "reader_ok L a w t rd \<longleftrightarrow>
     (case rd of
        R_Start \<Rightarrow> True
      | R_Call pc \<Rightarrow> call_ok L w t 0 pc \<and> job_of w pc \<in> {Running (Load a Return), Ended (Inl a)}
      | R_Exit b \<Rightarrow> b = Some True
      | R_Done b \<Rightarrow> b = Some True)"

fun call_rank :: "'r call \<Rightarrow> nat" where
  "call_rank (At_Call q) = 10"
| "call_rank (At_Installed q) = 9"
| "call_rank (At_State p q) = 8"
| "call_rank (At_Checkpoint p q) = 7"
| "call_rank (At_Body p fr q) = 6"
| "call_rank (At_Handler p fr a h) = 5"
| "call_rank (At_Return p j r) = 4"
| "call_rank (At_Result p j r) = 3"
| "call_rank (Returned r) = 2"
| "call_rank (Unwound msg) = 2"

fun reader_rank :: "reader \<Rightarrow> nat" where
  "reader_rank R_Start = 11"
| "reader_rank (R_Call pc) = call_rank pc"
| "reader_rank (R_Exit b) = 1"
| "reader_rank (R_Done b) = 0"

lemma reader_ok_undisturbed:
  assumes "reader_ok L a w t rd" and "undisturbed w w' t"
  shows "reader_ok L a w' t rd"
proof (cases rd)
  case (R_Call pc)
  then show ?thesis
    using assms call_ok_undisturbed [of L w t 0 pc w'] job_of_undisturbed [of L w t 0 pc w']
    by (auto simp: reader_ok_def)
qed (use assms in \<open>simp_all add: reader_ok_def\<close>)

text \<open>A step of a call on the lost byte brings it closer to its end.\<close>

lemma lost_byte_rank:
  assumes bus: "mem_load L a (os w) = (BusError, s)" and c: "call_step L t pc = Some c"
    and job: "job_of w pc \<in> {Running (Load a Return), Ended (Inl a)}" and r: "c w = (Ret pc', w')"
  shows "call_rank pc' < call_rank pc"
proof (cases pc)
  case (At_Body p fr q)
  have "body_step L t q w \<noteq> (Ret (More q'), w')" for q' using job At_Body bus by simp
  then show ?thesis using shim_step_next [of L t p fr q w pc' w'] c r At_Body by auto
next
  case (At_Handler p fr a' h)
  have "catch_jump p fr (handler_finish a' h) w = (Ret pc', w')" using c r At_Handler by simp
  then have "\<exists>j res. pc' = At_Return p j res"
    using handler_finish_ends [of a' h w]
    by (auto simp: catch_jump_def split: prod.splits outcome.splits if_splits)
  then show ?thesis using At_Handler by auto
qed (use c r in \<open>auto simp: Let_def elim!: and_then_RetE split: if_splits option.splits\<close>)

text \<open>One step of one thread: it returns, the thread gets closer to its end, nobody else is disturbed.\<close>

definition advances ::
    "'os libc \<Rightarrow> ('os \<Rightarrow> bool) \<Rightarrow> usize \<Rightarrow> tid \<Rightarrow> 'os world \<Rightarrow> reader \<Rightarrow> reader outcome \<times> 'os world \<Rightarrow> bool" where
  "advances L B a t w rd res \<longleftrightarrow>
     (\<exists>rd' w'. res = (Ret rd', w') \<and> sig_inv w' \<and> B (os w') \<and> regs w' = regs w \<and> reader_ok L a w' t rd'
        \<and> reader_rank rd' < reader_rank rd \<and> (\<forall>t'. t' \<noteq> t \<longrightarrow> undisturbed w w' t'))"

lemma advances_start:
  assumes env: "signal_ok L" and inv: "sig_inv w" and B: "B (os w)" and m: "mapped L w raw"
    and fits: "unat pos + 1 \<le> unat (rm_len raw)" and c: "reader_step L raw pos t R_Start = Some c"
  shows "advances L B (rm_ptr raw + pos) t w R_Start (c w)"
proof -
  let ?w = "w\<lparr>handler_once := Complete, sigbus_action := SIGBUS_HANDLER\<rparr>" and ?a = "rm_ptr raw + pos"
  have "install L w = (Ret (), ?w)"
    using env inv by (simp add: install_ok signal_ok_def sig_inv_def)
  moreover have "sig_inv ?w"
    using inv thread_inv_cong [of w ?w] by (simp add: sig_inv_def handler_inv_def)
  moreover have "registered ?w ?a"
    using slice_registered [OF m, of pos 1 ?a] fits registered_cong [of ?w w] by (simp add: in_slice_def)
  ultimately show ?thesis
    using c fits B undisturbed_install [of w Complete]
    by (auto simp: advances_def reader_ok_def helper_guard_def read_guard_new_def range_rejected_iff
        and_then_def first_byte_def prog_ok_def recoverable_def)
qed

lemma advances_call:
  assumes env: "signal_ok L" and inv: "sig_inv w" and B: "B (os w)"
    and bus: "lost_byte L B a" and ok: "reader_ok L a w t (R_Call pc)" and c: "call_step L t pc = Some c"
  shows "advances L B a t w (R_Call pc) (and_then c (\<lambda>pc'. ret (R_Call pc')) w)"
proof -
  have pc: "call_ok L w t 0 pc" and job: "job_of w pc \<in> {Running (Load a Return), Ended (Inl a)}"
    using ok by (simp_all add: reader_ok_def)
  obtain s where ld: "mem_load L a (os w) = (BusError, s)" and Bs: "B s" using lost_byte_load [OF bus B] .
  then have acc: "access_step L q (os w) = (Some (Ended (Inl a)), s)" if "job_of w pc = Running q" for q
    using that job by auto
  obtain pc' w' where r: "c w = (Ret pc', w')" "sig_inv w'" "call_ok L w' t 0 pc'"
      "\<forall>t'. t' \<noteq> t \<longrightarrow> undisturbed w w' t'" "job_of w' pc' \<in> {Running (Load a Return), Ended (Inl a)}"
      "os w' = os w \<or> os w' = s"
    using call_step_explained [OF env inv pc c] job acc unfolding explained_def by auto
  have "regs w' = regs w"
    using r(4) [rule_format, of "Suc t"] by (simp add: undisturbed_def)
  moreover have "call_rank pc' < call_rank pc" by (rule lost_byte_rank [OF ld c job r(1)])
  moreover have "B (os w')" using r(6) B Bs by auto
  ultimately show ?thesis using r by (simp add: advances_def reader_ok_def)
qed

lemma thread_exit_undisturbed:
  assumes inv: "sig_inv w" and e: "thread_exit t w = (Ret (), w')" and "t' \<noteq> t"
  shows "undisturbed w w' t'"
proof (cases "key_once w = Complete")
  case True
  have same: "sigbus_action w' = sigbus_action w" "regs w' = regs w" "thread_state_key w' = thread_state_key w"
    using e by (auto simp: thread_exit_def destroy_thread_state_def Let_def
        split: slot.splits option.splits if_splits)
  have "thread_inv w" using inv by (simp add: sig_inv_def)
  from thread_exit_ok [OF this True, of t] e assms(3) same show ?thesis by (auto simp: undisturbed_def)
next
  case False
  then show ?thesis using e by (simp add: thread_exit_def undisturbed_def)
qed

lemma advances_exit:
  assumes inv: "sig_inv w" and B: "B (os w)" and ok: "reader_ok L a w t (R_Exit b)"
  shows "advances L B a t w (R_Exit b) (and_then (thread_exit t) (\<lambda>_. ret (R_Done b)) w)"
proof -
  obtain w' where w': "thread_exit t w = (Ret (), w')" "sig_inv w'" "regs w' = regs w" "os w' = os w"
    using thread_exit_sig_inv [OF inv] by blast
  have "undisturbed w w' t'" if "t' \<noteq> t" for t'
    by (rule thread_exit_undisturbed [OF inv w'(1) that])
  with w' ok B show ?thesis by (simp add: advances_def reader_ok_def)
qed

lemma reader_advances:
  assumes env: "signal_ok L" and inv: "sig_inv w" and B: "B (os w)" and m: "mapped L w raw"
    and fits: "unat pos + 1 \<le> unat (rm_len raw)" and bus: "lost_byte L B (rm_ptr raw + pos)"
    and ok: "reader_ok L (rm_ptr raw + pos) w t rd" and c: "reader_step L raw pos t rd = Some c"
  shows "advances L B (rm_ptr raw + pos) t w rd (c w)"
proof (cases rd)
  case R_Start
  then show ?thesis using advances_start [where B = B, OF env inv B m fits] c by simp
next
  case (R_Call pc)
  show ?thesis
  proof (cases "\<exists>r. pc = Returned r")
    case True
    then show ?thesis
      using R_Call c ok inv B by (auto simp: advances_def reader_ok_def undisturbed_def)
  next
    case False
    then obtain c' where "call_step L t pc = Some c'" "c = and_then c' (\<lambda>pc'. ret (R_Call pc'))"
      using R_Call c by (cases pc) auto
    then show ?thesis using advances_call [where B = B, OF env inv B bus] ok R_Call by simp
  qed
next
  case (R_Exit b)
  then show ?thesis using advances_exit [where B = B, OF inv B] ok c by auto
qed (use c in simp)

lemma run_threads_ok:
  assumes env: "signal_ok L" and fits: "unat pos + 1 \<le> unat (rm_len raw)"
    and bus: "lost_byte L B (rm_ptr raw + pos)"
  shows "sig_inv w \<Longrightarrow> B (os w) \<Longrightarrow> mapped L w raw \<Longrightarrow> (\<And>t. reader_ok L (rm_ptr raw + pos) w t (rd t)) \<Longrightarrow>
    \<exists>rd' w'. run_threads L raw pos sch rd w = (Ret rd', w') \<and> sig_inv w' \<and> regs w' = regs w
      \<and> (\<forall>t. reader_ok L (rm_ptr raw + pos) w' t (rd' t)
           \<and> reader_rank (rd' t) \<le> reader_rank (rd t) - count_list sch t)"
proof (induction sch arbitrary: rd w)
  case (Cons t sch)
  let ?a = "rm_ptr raw + pos"
  show ?case
  proof (cases "reader_step L raw pos t (rd t)")
    case None
    then have "reader_rank (rd t) = 0"
      using Cons.prems(4) [of t] by (cases "(L, raw, pos, t, rd t)" rule: reader_step.cases)
        (auto simp: reader_ok_def split: call.splits)
    then have "reader_rank (rd u) - count_list sch u = reader_rank (rd u) - count_list (t # sch) u" for u
      by auto
    with Cons.IH [OF Cons.prems] None show ?thesis by simp
  next
    case (Some c)
    obtain r' w1 where r: "c w = (Ret r', w1)" "sig_inv w1" "regs w1 = regs w" "reader_ok L ?a w1 t r'"
        "B (os w1)"
        "reader_rank r' < reader_rank (rd t)" "\<forall>t'. t' \<noteq> t \<longrightarrow> undisturbed w w1 t'"
      using reader_advances [where B = B, OF env Cons.prems(1-3) fits bus Cons.prems(4) Some]
      unfolding advances_def by blast
    have "reader_ok L ?a w1 t' ((rd(t := r')) t')" for t'
      using r(4,7) reader_ok_undisturbed [OF Cons.prems(4)] by simp
    from Cons.IH [OF r(2,5) mapped_cong [OF Cons.prems(3) r(3)] this]
    obtain rd' w' where "run_threads L raw pos sch (rd(t := r')) w1 = (Ret rd', w')" "sig_inv w'" "regs w' = regs w1"
      and fin: "\<And>u. reader_ok L ?a w' u (rd' u)"
        "\<And>u. reader_rank (rd' u) \<le> reader_rank ((rd(t := r')) u) - count_list sch u"
      by blast
    moreover have "reader_rank (rd' u) \<le> reader_rank (rd u) - count_list (t # sch) u" for u
      using fin(2) [of u] r(6) by (auto split: if_splits)
    ultimately show ?thesis using Some r(1,3) by auto
  qed
qed simp

lemma scope_recovers:
  assumes env: "signal_ok L" and fits: "unat pos + 1 \<le> unat (rm_len raw)"
    and bus: "lost_byte L B (rm_ptr raw + pos)"
    and inv: "sig_inv w" and B: "B (os w)" and m: "mapped L w raw" and turns: "\<And>t. t \<in> set ts \<Longrightarrow> 11 \<le> count_list sch t"
  shows "\<exists>w'. scope L raw pos ts sch w = (Ret (replicate (length ts) True), w') \<and> sig_inv w' \<and> regs w' = regs w"
proof -
  let ?sch = "filter (\<lambda>t. t \<in> set ts) sch"
  obtain rd w' where run: "run_threads L raw pos ?sch (\<lambda>_. R_Start) w = (Ret rd, w')" "sig_inv w'" "regs w' = regs w"
    and ok: "\<And>t. reader_ok L (rm_ptr raw + pos) w' t (rd t)"
    and rank: "\<And>t. reader_rank (rd t) \<le> 11 - count_list ?sch t"
    using run_threads_ok [where B = B, OF env fits bus inv B m, of "\<lambda>_. R_Start" ?sch] by (auto simp: reader_ok_def)
  have "rd t = R_Done (Some True)" if "t \<in> set ts" for t
  proof -
    have "count_list ?sch t = count_list sch t" using that by (induction sch) auto
    then have "reader_rank (rd t) = 0" using rank [of t] turns [OF that] by simp
    then show ?thesis using ok [of t] by (cases "rd t" rule: reader_rank.cases) (auto simp: reader_ok_def elim!: call_rank.elims)
  qed
  then show ?thesis
    using run by (auto simp: scope_def list_all_iff list_ex_iff map_replicate_const [symmetric] intro!: exI [of _ w'])
qed

end
