(* ===== verification/Victim.thy ===== *)
theory Victim
  imports Victim_Threads
begin

text \<open>
  \<^verbatim>\<open>src/bin/sigbus_victim.rs\<close>, the program that drives the crate end to end. What the program takes from the host besides the
  environment of the crate (writing and removing files, path joining, the temporary directory,
  what may happen while it sleeps, two formatters) is the record \<open>host\<close>. Its state is the
  process with the lines it has printed.
\<close>

section \<open>The host\<close>

record 'os host =
  h_libc :: "'os libc"
  fs_write :: "string \<Rightarrow> u8 list \<Rightarrow> 'os \<Rightarrow> (io_error + unit) \<times> 'os"
  fs_remove :: "string \<Rightarrow> 'os \<Rightarrow> 'os"
  path_join :: "string \<Rightarrow> string \<Rightarrow> string"
  temp_dir :: string
  thread_sleep :: "duration \<Rightarrow> 'os \<Rightarrow> 'os"
  show_io_error :: "io_error \<Rightarrow> string"
  show_dur :: "duration \<Rightarrow> string"

datatype line = Out string | Err string

type_synonym 'os proc = "'os world \<times> line list"

definition on_proc :: "('os world, 'a) comp \<Rightarrow> ('os proc, 'a) comp" where
  "on_proc = zoom fst (\<lambda>w (_, ls). (w, ls))"

definition say :: "line \<Rightarrow> ('os proc, unit) comp" where
  "say l = modify (\<lambda>(w, ls). (w, ls @ [l]))"

text \<open>\<open>Result::expect\<close>.\<close>

definition expect :: "string \<Rightarrow> 'e + 'a \<Rightarrow> ('s, 'a) comp" where
  "expect msg r = (case r of Inl e \<Rightarrow> halt (Panicked msg) | Inr x \<Rightarrow> ret x)"

definition usize_mul :: "bool \<Rightarrow> usize \<Rightarrow> usize \<Rightarrow> ('s, usize) comp" where
  "usize_mul chk a b =
     (if chk \<and> 2 ^ 64 \<le> unat a * unat b then halt (Panicked ''attempt to multiply with overflow'')
      else ret (a * b))"

definition host_os :: "('os \<Rightarrow> 'a \<times> 'os) \<Rightarrow> ('os proc, 'a) comp" where
  "host_os f = on_proc (on_os (syscall f))"

definition remove_file :: "'os host \<Rightarrow> string \<Rightarrow> ('os proc, unit) comp" where
  "remove_file H path = host_os (\<lambda>s. ((), fs_remove H path s))"

definition show_error :: "'os host \<Rightarrow> access_error \<Rightarrow> ('s, string) comp" where
  "show_error H = display_access_error (overflow_checks (h_libc H)) (show_io_error H) (show_dur H)"

section \<open>A mapping that faults\<close>

record test_mapping =
  tm_raw :: raw_mmap
  tm_path :: string
  tm_file :: c_int
  tm_page_size :: usize

definition create_sigbus_mapping ::
    "'os host \<Rightarrow> string \<Rightarrow> string \<Rightarrow> ('os proc, test_mapping) comp" where
  "create_sigbus_mapping H dir name =
     (let L = h_libc H; path = path_join H dir name in
      and_then (host_os (fs_write H path [120])) (\<lambda>r.
      and_then (expect ''write test file'' r) (\<lambda>_.
      and_then (host_os (fs_open L False path)) (\<lambda>r.
      and_then (expect ''open file'' r) (\<lambda>fd.
      and_then (page_size L) (\<lambda>ps.
      and_then (usize_mul (overflow_checks L) ps 2) (\<lambda>map_len.
      and_then (on_proc (on_os (raw_mmap_map L fd 0 map_len))) (\<lambda>r.
      and_then (expect ''mmap'' r) (\<lambda>raw.
      and_then (on_proc (register_and_install L (rm_ptr raw) (rm_len raw))) (\<lambda>_.
      ret \<lparr>tm_raw = raw, tm_path = path, tm_file = fd, tm_page_size = ps\<rparr>))))))))))"

text \<open>Dropping a \<open>TestMapping\<close>: unmap, then close; the region stays registered.\<close>

definition drop_test_mapping :: "'os libc \<Rightarrow> test_mapping \<Rightarrow> ('os proc, unit) comp" where
  "drop_test_mapping L tm =
     on_proc (modify (\<lambda>w. close_file L (tm_file tm) (unmap_raw L (tm_raw tm) w)))"

definition faulting_read :: "'os host \<Rightarrow> tid \<Rightarrow> test_mapping \<Rightarrow> ('os world, access_error + u8) comp" where
  "faulting_read H t tm =
     and_then (helper_guard (h_libc H) (tm_raw tm)) (\<lambda>guard.
     read_guard_read (h_libc H) t guard (tm_page_size tm) 1 first_byte)"

section \<open>Scenarios\<close>

definition scenario_sigbus_basic :: "'os host \<Rightarrow> tid \<Rightarrow> string \<Rightarrow> ('os proc, int) comp" where
  "scenario_sigbus_basic H t dir =
     and_then (create_sigbus_mapping H dir ''sigbus_basic.bin'') (\<lambda>tm.
     and_then (on_proc (faulting_read H t tm)) (\<lambda>r.
     and_then
       (case r of
          Inl (Sigbus a) \<Rightarrow> and_then (say (Out ''recovered'')) (\<lambda>_. ret 0)
        | Inr val \<Rightarrow>
            and_then (say (Err (''unexpected success: got byte '' @ hex (unat val)))) (\<lambda>_. ret 1)
        | Inl e \<Rightarrow>
            and_then (show_error H e) (\<lambda>msg.
            and_then (say (Err (''unexpected error: '' @ msg))) (\<lambda>_. ret 1))) (\<lambda>code.
     and_then (remove_file H (tm_path tm)) (\<lambda>_.
     and_then (drop_test_mapping (h_libc H) tm) (\<lambda>_. ret code)))))"

text \<open>
  The eight scoped threads run interleaved under the schedule \<open>sch\<close>; \<open>tids\<close> are the identities the
  system gives them.
\<close>

definition scenario_multi_thread :: "'os host \<Rightarrow> (nat \<Rightarrow> tid) \<Rightarrow> tid list \<Rightarrow> string \<Rightarrow> ('os proc, int) comp" where
  "scenario_multi_thread H tids sch dir =
     and_then (create_sigbus_mapping H dir ''sigbus_mt.bin'') (\<lambda>tm.
     and_then (on_proc (scope (h_libc H) (tm_raw tm) (tm_page_size tm) (map tids [0..<8]) sch)) (\<lambda>results.
     and_then (remove_file H (tm_path tm)) (\<lambda>_.
     and_then
       (if list_all (\<lambda>r. r) results
        then and_then (say (Out ''recovered'')) (\<lambda>_. ret 0)
        else and_then (say (Err ''not all threads recovered'')) (\<lambda>_. ret 1)) (\<lambda>code.
     and_then (drop_test_mapping (h_libc H) tm) (\<lambda>_. ret code)))))"

text \<open>The loop of the poison scenario: the number of reads that reported SIGBUS.\<close>

primrec count_faults :: "'os host \<Rightarrow> tid \<Rightarrow> test_mapping \<Rightarrow> nat \<Rightarrow> u32 \<Rightarrow> ('os world, u32) comp" where
  "count_faults H t tm 0 count = ret count"
| "count_faults H t tm (Suc n) count =
     and_then (faulting_read H t tm) (\<lambda>r.
     count_faults H t tm n (if is_sigbus r then count + 1 else count))"

definition scenario_poison :: "'os host \<Rightarrow> tid \<Rightarrow> string \<Rightarrow> ('os proc, int) comp" where
  "scenario_poison H t dir =
     (let max_faults = 2 :: u32 in
      and_then (create_sigbus_mapping H dir ''sigbus_poison.bin'') (\<lambda>tm.
      and_then (on_proc (count_faults H t tm (unat max_faults) 0)) (\<lambda>count.
      and_then (remove_file H (tm_path tm)) (\<lambda>_.
      and_then
        (if max_faults \<le> count
         then and_then (say (Out (''poisoned after '' @ decimal (unat count) @ '' faults''))) (\<lambda>_. ret 0)
         else and_then (say (Err (''expected '' @ decimal (unat max_faults) @ '' faults, got ''
                                  @ decimal (unat count)))) (\<lambda>_. ret 1)) (\<lambda>code.
      and_then (drop_test_mapping (h_libc H) tm) (\<lambda>_. ret code))))))"

text \<open>A method call on a mapping held by the scenario.\<close>

definition call_mm :: "'os safe_mmap \<Rightarrow> ('os mm, 'a) comp \<Rightarrow> ('os proc, 'a \<times> 'os safe_mmap) comp" where
  "call_mm m c =
     (\<lambda>(w, ls). case c (m, w) of (out, (m', w')) \<Rightarrow> on_ret out (\<lambda>x. ret (x, m')) (w', ls))"

definition drop_mm :: "'os libc \<Rightarrow> 'os safe_mmap \<Rightarrow> ('os proc, unit) comp" where
  "drop_mm L m = on_proc (safe_mmap_drop L m)"

definition scenario_prefetch_sigbus ::
    "'os host \<Rightarrow> tid \<Rightarrow> sched list \<Rightarrow> string \<Rightarrow> ('os proc, int) comp" where
  "scenario_prefetch_sigbus H t cs dir =
     (let L = h_libc H; path = path_join H dir ''sigbus_prefetch.bin'' in
      and_then (page_size L) (\<lambda>ps.
      and_then (usize_mul (overflow_checks L) ps 4) (\<lambda>len.
      and_then (host_os (fs_write H path (replicate (unat len) 0xDD))) (\<lambda>r.
      and_then (expect ''write test file'' r) (\<lambda>_.
      and_then (on_proc (safe_mmap_open L path)) (\<lambda>r.
      and_then (expect ''open mmap'' r) (\<lambda>m.
      and_then (call_mm m (prefetch_with_timeout L t cs 0 len 5000000000)) (\<lambda>(result, m).
      and_then (remove_file H path) (\<lambda>_.
      and_then
        (case result of
           Inr _ \<Rightarrow> and_then (say (Out ''prefetch_ok'')) (\<lambda>_. ret 0)
         | Inl e \<Rightarrow>
             and_then (show_error H e) (\<lambda>msg.
             and_then (say (Err (''unexpected error: '' @ msg))) (\<lambda>_. ret 1))) (\<lambda>code.
      and_then (drop_mm L m) (\<lambda>_. ret code)))))))))))"

text \<open>\<open>|b| b.iter().map(|&x| x as u64).sum::<u64>()\<close>.\<close>

primrec sum_bytes :: "usize \<Rightarrow> nat \<Rightarrow> u64 \<Rightarrow> u64 access" where
  "sum_bytes p 0 acc = Return acc"
| "sum_bytes p (Suc n) acc = Load p (\<lambda>b. sum_bytes (p + 1) n (acc + ucast b))"

definition scenario_nfs_read :: "'os host \<Rightarrow> tid \<Rightarrow> string option \<Rightarrow> ('os proc, int) comp" where
  "scenario_nfs_read H t file_path =
     (let L = h_libc H in
      case file_path of
        None \<Rightarrow> and_then (say (Err ''--file= required for nfs_read scenario'')) (\<lambda>_. ret 1)
      | Some path \<Rightarrow>
          and_then (on_proc (safe_mmap_open L path)) (\<lambda>r.
          case r of
            Inl e \<Rightarrow>
              and_then (say (Err (''failed to open: '' @ display_mmap_error (show_io_error H) e)))
                (\<lambda>_. ret 1)
          | Inr m \<Rightarrow>
              and_then (call_mm m (safe_mmap_read L t 0 4096 (\<lambda>p n. sum_bytes p (unat n) 0)))
                (\<lambda>(result, m).
              and_then
                (case result of
                   Inr sm \<Rightarrow>
                     and_then (say (Out (''nfs_read_ok sum='' @ decimal (unat sm)))) (\<lambda>_. ret 0)
                 | Inl e \<Rightarrow>
                     and_then (show_error H e) (\<lambda>msg.
                     and_then (say (Err (''nfs read error: '' @ msg))) (\<lambda>_. ret 1))) (\<lambda>code.
              and_then (drop_mm L m) (\<lambda>_. ret code)))))"

text \<open>The loop over the pages after the server is gone: (mapping, successes, faults).\<close>

primrec read_pages ::
    "'os host \<Rightarrow> tid \<Rightarrow> usize \<Rightarrow> usize \<Rightarrow> nat list \<Rightarrow> 'os safe_mmap \<Rightarrow> u32 \<Rightarrow> u32
     \<Rightarrow> ('os proc, 'os safe_mmap \<times> u32 \<times> u32) comp" where
  "read_pages H t page len [] m successes fts = ret (m, successes, fts)"
| "read_pages H t page len (i # is) m successes fts =
     (let L = h_libc H; chk = overflow_checks L; off = of_nat i in
      and_then (usize_sub chk len off) (\<lambda>rest.
      and_then (usize_add chk off (min page rest)) (\<lambda>stop.
      and_then (call_mm m (safe_mmap_read L t off stop first_byte)) (\<lambda>(result, m).
      case result of
        Inr _ \<Rightarrow>
          and_then (u32_add chk successes 1) (\<lambda>successes.
          read_pages H t page len is m successes fts)
      | Inl e \<Rightarrow>
          and_then
            (case e of
               Sigbus a \<Rightarrow>
                 say (Out (''SIGBUS caught at '' @ hex (unat a) @ [CHR 0x20, CHR 0xE2, CHR 0x80, CHR 0x94]
                      @ '' recovered!''))
             | _ \<Rightarrow> and_then (show_error H e) (\<lambda>msg. say (Out (''other error: '' @ msg)))) (\<lambda>_.
          and_then (u32_add chk fts 1) (\<lambda>fts.
          read_pages H t page len is m successes fts))))))"

definition scenario_nfs_failure :: "'os host \<Rightarrow> tid \<Rightarrow> string option \<Rightarrow> ('os proc, int) comp" where
  "scenario_nfs_failure H t file_path =
     (let L = h_libc H in
      case file_path of
        None \<Rightarrow> and_then (say (Err ''--file= required for nfs_failure scenario'')) (\<lambda>_. ret 1)
      | Some path \<Rightarrow>
          and_then (on_proc (safe_mmap_open L path)) (\<lambda>r.
          case r of
            Inl e \<Rightarrow>
              and_then (say (Err (''failed to open: '' @ display_mmap_error (show_io_error H) e)))
                (\<lambda>_. ret 1)
          | Inr m \<Rightarrow>
              let len = safe_mmap_len m in
              and_then (call_mm m (safe_mmap_read L t 0 1 first_byte)) (\<lambda>(first, m).
              case first of
                Inl e \<Rightarrow>
                  and_then (show_error H e) (\<lambda>msg.
                  and_then (say (Err (''initial read failed: '' @ msg))) (\<lambda>_.
                  and_then (drop_mm L m) (\<lambda>_. ret 1)))
              | Inr _ \<Rightarrow>
                  and_then (say (Out ''initial read ok'')) (\<lambda>_.
                  and_then (call_mm m (safe_mmap_evict L 0 len)) (\<lambda>(_, m).
                  and_then (say (Out ''waiting for NFS server to die...'')) (\<lambda>_.
                  and_then (host_os (\<lambda>s. ((), thread_sleep H 5000000000 s))) (\<lambda>_.
                  and_then (say (Out ''attempting read after NFS failure...'')) (\<lambda>_.
                  and_then (page_size L) (\<lambda>page.
                  and_then (read_pages H t page len (stride (unat page) 0 (unat len)) m 0 0)
                    (\<lambda>(m, successes, fts).
                  and_then (say (Out (''results: '' @ decimal (unat successes) @ '' pages ok, ''
                                      @ decimal (unat fts) @ '' faults caught''))) (\<lambda>_.
                  and_then
                    (say (Out (if 0 < fts then ''nfs_failure_recovered''
                               else ''nfs_pages_cached (server down but pages still resident)''))) (\<lambda>_.
                  and_then (drop_mm L m) (\<lambda>_. ret 0)))))))))))))"

section \<open>main\<close>

fun strip_prefix :: "string \<Rightarrow> string \<Rightarrow> string option" where
  "strip_prefix [] s = Some s"
| "strip_prefix (c # cs) [] = None"
| "strip_prefix (c # cs) (d # ds) = (if c = d then strip_prefix cs ds else None)"

fun find_arg :: "string \<Rightarrow> string list \<Rightarrow> string option" where
  "find_arg p [] = None"
| "find_arg p (a # as) = (case strip_prefix p a of Some v \<Rightarrow> Some v | None \<Rightarrow> find_arg p as)"

definition main ::
    "'os host \<Rightarrow> tid \<Rightarrow> (nat \<Rightarrow> tid) \<Rightarrow> tid list \<Rightarrow> sched list \<Rightarrow> string list \<Rightarrow> ('os proc, int) comp" where
  "main H t tids sch cs args =
     (let scenario = (case find_arg ''--scenario='' args of Some s \<Rightarrow> s | None \<Rightarrow> ''sigbus_basic'');
          dir = (case find_arg ''--dir='' args of Some d \<Rightarrow> d | None \<Rightarrow> temp_dir H);
          file_path = find_arg ''--file='' args
      in if scenario = ''sigbus_basic'' then scenario_sigbus_basic H t dir
         else if scenario = ''multi_thread'' then scenario_multi_thread H tids sch dir
         else if scenario = ''poison'' then scenario_poison H t dir
         else if scenario = ''prefetch_sigbus'' then scenario_prefetch_sigbus H t cs dir
         else if scenario = ''nfs_read'' then scenario_nfs_read H t file_path
         else if scenario = ''nfs_failure'' then scenario_nfs_failure H t file_path
         else and_then (say (Err (''unknown scenario: '' @ scenario))) (\<lambda>_. ret 1))"

section \<open>The scenarios recover\<close>

text \<open>
  What the documentation of the host promises about a file that is written, opened and mapped, in
  terms of three observations of the kernel state: the size of the file a path names, the size of
  the file behind a descriptor, and the mapped addresses that have no page of their file.
  Writing a file gives it the length of the bytes; opening it gives a descriptor of the same file;
  the whole pages of a mapping beyond the last page of its file have no page (\<open>mmap(2)\<close>), and an
  access there raises SIGBUS and does not extend the file.
\<close>

record 'os fs_view =
  file_size :: "'os \<Rightarrow> string \<Rightarrow> nat option"
  open_size :: "'os \<Rightarrow> c_int \<Rightarrow> nat option"
  no_page :: "'os \<Rightarrow> usize \<Rightarrow> bool"

definition write_law :: "'os host \<Rightarrow> 'os fs_view \<Rightarrow> bool" where
  "write_law H V \<longleftrightarrow>
     (\<forall>path bytes s u s'. fs_write H path bytes s = (Inr u, s') \<longrightarrow>
        file_size V s' path = Some (length bytes))"

definition open_law :: "'os libc \<Rightarrow> 'os fs_view \<Rightarrow> bool" where
  "open_law L V \<longleftrightarrow>
     (\<forall>path s fd s'. fs_open L False path s = (Inr fd, s') \<longrightarrow> open_size V s' fd = file_size V s path)"

definition eof_law :: "'os libc \<Rightarrow> nat \<Rightarrow> 'os fs_view \<Rightarrow> bool" where
  "eof_law L p V \<longleftrightarrow>
     (\<forall>len prot flags fd s a s' n off.
        sys_mmap L 0 len prot flags fd 0 s = (a, s') \<longrightarrow> a \<noteq> MAP_FAILED L \<longrightarrow>
        flags \<in> {MAP_PRIVATE L, MAP_SHARED L} \<longrightarrow> open_size V s fd = Some n \<longrightarrow>
        page_ceil p n \<le> unat off \<longrightarrow> unat off < unat len \<longrightarrow> no_page V s' (a + off))"

definition victim_env :: "'os host \<Rightarrow> nat \<Rightarrow> 'os fs_view \<Rightarrow> bool" where
  "victim_env H k V \<longleftrightarrow>
     signal_ok (h_libc H) \<and> mmap_law (h_libc H) \<and> page_pow2 (h_libc H) k \<and> k < 62
     \<and> write_law H V \<and> open_law (h_libc H) V \<and> eof_law (h_libc H) (2 ^ k) V
     \<and> (\<forall>a. lost_byte (h_libc H) (\<lambda>s. no_page V s a) a)"

definition test_mapping_ok :: "'os libc \<Rightarrow> nat \<Rightarrow> 'os fs_view \<Rightarrow> 'os world \<Rightarrow> test_mapping \<Rightarrow> bool" where
  "test_mapping_ok L k V w tm \<longleftrightarrow>
     mapped L w (tm_raw tm) \<and> tm_page_size tm = 2 ^ k \<and> unat (rm_len (tm_raw tm)) = 2 ^ k * 2
     \<and> no_page V (os w) (rm_ptr (tm_raw tm) + 2 ^ k)"

lemma on_proc_ret [simp]: "c w = (Ret x, w') \<Longrightarrow> on_proc c (w, ls) = (Ret x, (w', ls))"
  by (simp add: on_proc_def zoom_def)

lemma host_os_apply: "host_os f (w, ls) = (Ret (fst (f (os w))), (w\<lparr>os := snd (f (os w))\<rparr>, ls))"
  by (simp add: host_os_def on_proc_def zoom_def on_os_syscall)

lemma say_apply [simp]: "say l (w, ls) = (Ret (), (w, ls @ [l]))"
  by (simp add: say_def)

lemma and_then_host_os [simp]:
  "and_then (host_os f) k (w, ls) = k (fst (f (os w))) (w\<lparr>os := snd (f (os w))\<rparr>, ls)"
  by (rule and_then_ret) (rule host_os_apply)

lemma two_pages:
  assumes "k < 62"
  shows "unat (2 ^ k * 2 :: usize) = 2 ^ k * 2" and "unat (2 ^ k :: usize) * 2 < 2 ^ 64"
proof -
  have "(2::nat) ^ Suc k < 2 ^ 64" using assms by (intro power_strict_increasing) simp_all
  moreover have u: "unat (2 ^ k :: usize) = 2 ^ k" using assms by (simp add: unat_pow2)
  ultimately show lt: "unat (2 ^ k :: usize) * 2 < 2 ^ 64" by simp
  show "unat (2 ^ k * 2 :: usize) = 2 ^ k * 2"
    using assms unat_pow2 [of "Suc k"] by (simp add: mult.commute)
qed

lemma on_os_RetE:
  assumes "on_os c w = (Ret x, w')"
  obtains s where "c (os w) = (Ret x, s)" and "w' = w\<lparr>os := s\<rparr>"
  using assms by (cases "c (os w)") (simp add: on_os_apply)

lemma on_proc_RetE:
  assumes "on_proc c (w, ls) = (Ret x, pw)"
  obtains w' where "c w = (Ret x, w')" and "pw = (w', ls)"
  using assms by (cases "c w") (auto simp: on_proc_def zoom_def)

lemma expect_Ret [simp]: "expect msg r s = (Ret x, s') \<longleftrightarrow> r = Inr x \<and> s' = s"
  by (auto simp: expect_def split: sum.split)

text \<open>
  The mapping call of \<open>create_sigbus_mapping\<close>, if it succeeds, gives two pages; the second has no
  page of a file that fits the first.
\<close>

lemma map_two_pages:
  assumes env: "victim_env H k V" and size: "open_size V s fd = Some n" "n \<le> 2 ^ k"
    and map: "raw_mmap_map (h_libc H) fd 0 (2 ^ k * 2) s = (Ret (Inr raw), s')"
  shows "raw_ok (h_libc H) raw \<and> rm_len raw = 2 ^ k * 2 \<and> no_page V s' (rm_ptr raw + 2 ^ k)"
proof -
  let ?L = "h_libc H" and ?opts = "mmap_options_offset 0 (mmap_options_fd fd (mmap_options_new (2 ^ k * 2)))"
  have pg: "page_pow2 ?L k" and k: "k < 62" and law: "mmap_law ?L" and eof: "eof_law ?L (2 ^ k) V"
    using env by (simp_all add: victim_env_def)
  have pos: "0 < sint (SC_PAGESIZE ?L)" using pg k by (simp add: page_pow2_def sint_pow2)
  have "raw_ok ?L raw \<and> rm_len raw = 2 ^ k * 2"
    using map_raw_ok [OF law pos, of ?opts s raw s'] map by (simp add: raw_mmap_map_def mmap_options_defs)
  moreover have "no_page V s' (rm_ptr raw + 2 ^ k)"
  proof -
    have "sys_mmap ?L 0 (2 ^ k * 2) (PROT_READ ?L) (MAP_PRIVATE ?L) fd 0 s = (rm_ptr raw, s')"
        "rm_ptr raw \<noteq> MAP_FAILED ?L"
      using map pos
      by (auto simp: raw_mmap_map_def mmap_options_map_def mmap_options_defs map_flags_def page_size_def
          Let_def syscall_def last_os_error_def and_then_def split: if_splits prod.splits)
    moreover have "page_ceil (2 ^ k) n \<le> unat (2 ^ k :: usize)"
    proof -
      have "0 < (2 :: nat) ^ k" by simp
      then have "n + 2 ^ k - 1 < 2 * 2 ^ k" using size(2) by linarith
      then have "(n + 2 ^ k - 1) div 2 ^ k < 2" by (rule less_mult_imp_div_less)
      then have "(n + 2 ^ k - 1) div 2 ^ k \<le> 1" by simp
      then show ?thesis using k mult_le_mono1 [of _ 1 "2 ^ k"] by (simp add: page_ceil_def unat_pow2)
    qed
    moreover have "unat (2 ^ k :: usize) < unat (2 ^ k * 2 :: usize)"
      using two_pages(1) [OF k] k by (simp add: unat_pow2)
    ultimately show ?thesis using eof size(1) unfolding eof_law_def by blast
  qed
  ultimately show ?thesis by simp
qed

lemma register_and_install_ok:
  assumes "signal_ok L" and "sig_inv w" and "raw_ok L raw"
  shows "\<exists>w'. register_and_install L (rm_ptr raw) (rm_len raw) w = (Ret (), w') \<and> sig_inv w'
     \<and> regions_of (regs w') = regions_of (regs w) @ [region_of raw] \<and> os w' = os w"
proof -
  have "(\<lambda>_. ret ()) = (ret :: unit \<Rightarrow> ('a world, unit) comp)" by (simp add: fun_eq_iff)
  then show ?thesis using adopt_ok [OF assms, of "()"] by (auto simp: register_and_install_def)
qed

lemma create_ok:
  fixes H :: "'os host"
  assumes env: "victim_env H k V" and inv: "sig_inv w"
    and create: "create_sigbus_mapping H dir name (w, ls) = (Ret tm, pw)"
  shows "\<exists>w'. pw = (w', ls) \<and> sig_inv w' \<and> test_mapping_ok (h_libc H) k V w' tm"
proof -
  let ?L = "h_libc H" and ?path = "path_join H dir name"
  have pg: "page_pow2 ?L k" and k: "k < 62" and sg: "signal_ok ?L"
    and wl: "write_law H V" and ol: "open_law ?L V"
    using env by (simp_all add: victim_env_def)
  have mul: "usize_mul (overflow_checks ?L) (2 ^ k) 2 = (ret (2 ^ k * 2) :: ('os proc, usize) comp)"
    using two_pages(2) [OF k] by (simp add: usize_mul_def)
  obtain u s1 where wr: "fs_write H ?path [120] (os w) = (Inr u, s1)"
    using create by (cases "fs_write H ?path [120] (os w)")
      (auto simp: create_sigbus_mapping_def Let_def elim: and_then_RetE)
  obtain fd s2 where op: "fs_open ?L False ?path s1 = (Inr fd, s2)"
    using create wr by (cases "fs_open ?L False ?path s1")
      (auto simp: create_sigbus_mapping_def Let_def elim!: and_then_RetE)
  let ?w2 = "w\<lparr>os := s2\<rparr>"
  have rest: "and_then (on_proc (on_os (raw_mmap_map ?L fd 0 (2 ^ k * 2)))) (\<lambda>r.
      and_then (expect ''mmap'' r) (\<lambda>raw.
      and_then (on_proc (register_and_install ?L (rm_ptr raw) (rm_len raw))) (\<lambda>_.
      ret \<lparr>tm_raw = raw, tm_path = ?path, tm_file = fd, tm_page_size = 2 ^ k\<rparr>))) (?w2, ls) = (Ret tm, pw)"
    using create wr op pg by (simp add: create_sigbus_mapping_def Let_def expect_def mul)
  from rest obtain raw s3 where map: "raw_mmap_map ?L fd 0 (2 ^ k * 2) s2 = (Ret (Inr raw), s3)"
    and reg: "and_then (on_proc (register_and_install ?L (rm_ptr raw) (rm_len raw))) (\<lambda>_.
      ret \<lparr>tm_raw = raw, tm_path = ?path, tm_file = fd, tm_page_size = 2 ^ k\<rparr>) (?w2\<lparr>os := s3\<rparr>, ls) = (Ret tm, pw)"
    by (auto elim!: and_then_RetE on_proc_RetE on_os_RetE)
  have "open_size V s2 fd = Some 1"
    using wl ol wr op by (fastforce simp: write_law_def open_law_def)
  then have raw: "raw_ok ?L raw" "rm_len raw = 2 ^ k * 2" "no_page V s3 (rm_ptr raw + 2 ^ k)"
    using map_two_pages [OF env _ _ map] by simp_all
  have "sig_inv (?w2\<lparr>os := s3\<rparr>)" using inv by simp
  then obtain w4 where w4: "register_and_install ?L (rm_ptr raw) (rm_len raw) (?w2\<lparr>os := s3\<rparr>) = (Ret (), w4)"
      "sig_inv w4" "regions_of (regs w4) = regions_of (regs (?w2\<lparr>os := s3\<rparr>)) @ [region_of raw]"
      "os w4 = s3"
    using register_and_install_ok [OF sg _ raw(1)] by fastforce
  then have tm: "tm = \<lparr>tm_raw = raw, tm_path = ?path, tm_file = fd, tm_page_size = 2 ^ k\<rparr>" "pw = (w4, ls)"
    using reg by simp_all
  have "test_mapping_ok ?L k V w4 tm"
    using raw w4(3,4) two_pages(1) [OF k] by (simp add: tm(1) test_mapping_ok_def mapped_def)
  then show ?thesis using w4(2) tm(2) by blast
qed

lemma faulting_read_ok:
  assumes env: "victim_env H k V" and inv: "sig_inv w" and tm: "test_mapping_ok (h_libc H) k V w tm"
  shows "\<exists>w'. faulting_read H t tm w = (Ret (Inl (Sigbus (rm_ptr (tm_raw tm) + 2 ^ k))), w')
     \<and> sig_inv w' \<and> test_mapping_ok (h_libc H) k V w' tm"
proof -
  let ?L = "h_libc H" and ?raw = "tm_raw tm"
  let ?a = "rm_ptr ?raw + 2 ^ k"
  have sg: "signal_ok ?L" and k: "k < 62" and lost: "lost_byte ?L (\<lambda>s. no_page V s ?a) ?a"
    using env by (simp_all add: victim_env_def)
  have mp: "mapped ?L w ?raw" and ps: "tm_page_size tm = 2 ^ k"
    and len: "unat (rm_len ?raw) = 2 ^ k * 2" and np: "no_page V (os w) ?a"
    using tm by (simp_all add: test_mapping_ok_def)
  obtain w1 where w1: "install ?L w = (Ret (), w1)" "sig_inv w1" "regs w1 = regs w" "os w1 = os w"
    using install_sig_inv [OF sg inv] by blast
  have fits: "unat (2 ^ k :: usize) + unat (1 :: usize) \<le> unat (rm_len (rg_raw \<lparr>rg_raw = ?raw\<rparr>))"
    using len k by (simp add: unat_pow2)
  obtain s where ld: "mem_load ?L ?a (os w1) = (BusError, s)" and np': "no_page V s ?a"
    using lost_byte_load [OF lost np] w1(4) by metis
  then have ex: "exec ?L (first_byte ?a 1) (os w1) = (Faulted ?a, s)"
    by (simp add: exec_first_byte)
  have "mapped ?L w1 (rg_raw \<lparr>rg_raw = ?raw\<rparr>)" using mapped_cong [OF mp w1(3)] by simp
  from read_guard_read_exact [OF sg w1(2) this fits, of first_byte t] slice_safe_first_byte ex
  obtain w' where "read_guard_read ?L t \<lparr>rg_raw = ?raw\<rparr> (2 ^ k) 1 first_byte w1
      = (Ret (Inl (Sigbus ?a)), w')" "sig_inv w'" "regs w' = regs w" "os w' = s"
    using w1(3) by auto
  moreover from this mapped_cong [OF mp] tm np' have "test_mapping_ok ?L k V w' tm"
    by (simp add: test_mapping_ok_def)
  ultimately show ?thesis
    using w1(1) ps by (simp add: faulting_read_def helper_guard_def read_guard_new_def)
qed

lemma count_faults_ok:
  assumes env: "victim_env H k V"
  shows "sig_inv w \<Longrightarrow> test_mapping_ok (h_libc H) k V w tm \<Longrightarrow>
    \<exists>w'. count_faults H t tm n c w = (Ret (c + of_nat n), w') \<and> sig_inv w'"
proof (induction n arbitrary: w c)
  case (Suc n)
  obtain w1 where w1: "faulting_read H t tm w = (Ret (Inl (Sigbus (rm_ptr (tm_raw tm) + 2 ^ k))), w1)"
      "sig_inv w1" "test_mapping_ok (h_libc H) k V w1 tm"
    using faulting_read_ok [OF env Suc.prems] by blast
  from Suc.IH [OF w1(2,3), of "c + 1"] w1(1) show ?case by (auto simp: add.assoc)
qed simp

lemma drop_test_mapping_ok:
  "sig_inv w \<Longrightarrow> \<exists>w'. drop_test_mapping L tm (w, ls) = (Ret (), (w', ls)) \<and> sig_inv w'"
  by (simp add: drop_test_mapping_def on_proc_def zoom_def close_file_def unmap_raw_def on_os_apply)

lemma basic_ok:
  assumes env: "victim_env H k V" and inv: "sig_inv w"
    and made: "create_sigbus_mapping H dir ''sigbus_basic.bin'' (w, []) = (Ret tm, pw)"
  shows "\<exists>w'. scenario_sigbus_basic H t dir (w, []) = (Ret 0, (w', [Out ''recovered''])) \<and> sig_inv w'"
proof -
  obtain w1 where c: "pw = (w1, [])" "sig_inv w1" "test_mapping_ok (h_libc H) k V w1 tm"
    using create_ok [OF env inv made] by blast
  obtain w2 where r: "faulting_read H t tm w1 = (Ret (Inl (Sigbus (rm_ptr (tm_raw tm) + 2 ^ k))), w2)" "sig_inv w2"
    using faulting_read_ok [OF env c(2,3)] by blast
  have "sig_inv (w2\<lparr>os := fs_remove H (tm_path tm) (os w2)\<rparr>)" using r(2) by simp
  from drop_test_mapping_ok [OF this, of "h_libc H" tm "[Out ''recovered'']"] made c(1) r(1)
  show ?thesis by (auto simp: scenario_sigbus_basic_def remove_file_def)
qed

lemma multi_thread_ok:
  assumes env: "victim_env H k V" and inv: "sig_inv w" and turns: "\<And>i. i < 8 \<Longrightarrow> 11 \<le> count_list sch (tids i)"
    and made: "create_sigbus_mapping H dir ''sigbus_mt.bin'' (w, []) = (Ret tm, pw)"
  shows "\<exists>w'. scenario_multi_thread H tids sch dir (w, []) = (Ret 0, (w', [Out ''recovered''])) \<and> sig_inv w'"
proof -
  let ?a = "rm_ptr (tm_raw tm) + 2 ^ k"
  have sg: "signal_ok (h_libc H)" and k: "k < 62" and lost: "lost_byte (h_libc H) (\<lambda>s. no_page V s ?a) ?a"
    using env by (simp_all add: victim_env_def)
  obtain w1 where c: "pw = (w1, [])" "sig_inv w1" "test_mapping_ok (h_libc H) k V w1 tm"
    using create_ok [OF env inv made] by blast
  then have tm: "mapped (h_libc H) w1 (tm_raw tm)" "tm_page_size tm = 2 ^ k"
      "unat (2 ^ k :: usize) + 1 \<le> unat (rm_len (tm_raw tm))" "no_page V (os w1) ?a"
    using k by (simp_all add: test_mapping_ok_def unat_pow2)
  have "11 \<le> count_list sch t'" if "t' \<in> set (map tids [0..<8])" for t' using that turns by auto
  then obtain w2 where r: "scope (h_libc H) (tm_raw tm) (2 ^ k) (map tids [0..<8]) sch w1 = (Ret (replicate 8 True), w2)" "sig_inv w2"
    using scope_recovers [where B = "\<lambda>s. no_page V s ?a", OF sg tm(3) lost c(2) tm(4,1), of "map tids [0..<8]" sch]
    by auto
  have "sig_inv (w2\<lparr>os := fs_remove H (tm_path tm) (os w2)\<rparr>)" using r(2) by simp
  from drop_test_mapping_ok [OF this, of "h_libc H" tm "[Out ''recovered'']"] made c(1) r(1) tm(2)
  show ?thesis by (auto simp: scenario_multi_thread_def remove_file_def list_all_length)
qed

lemma poison_ok:
  assumes env: "victim_env H k V" and inv: "sig_inv w"
    and made: "create_sigbus_mapping H dir ''sigbus_poison.bin'' (w, []) = (Ret tm, pw)"
  shows "\<exists>w'. scenario_poison H t dir (w, []) = (Ret 0, (w', [Out ''poisoned after 2 faults''])) \<and> sig_inv w'"
proof -
  obtain w1 where c: "pw = (w1, [])" "sig_inv w1" "test_mapping_ok (h_libc H) k V w1 tm"
    using create_ok [OF env inv made] by blast
  obtain w2 where r: "count_faults H t tm 2 0 w1 = (Ret 2, w2)" "sig_inv w2"
    using count_faults_ok [OF env c(2,3), of t 2 0] by auto
  have "sig_inv (w2\<lparr>os := fs_remove H (tm_path tm) (os w2)\<rparr>)" using r(2) by simp
  from drop_test_mapping_ok [OF this, of "h_libc H" tm "[Out ''poisoned after 2 faults'']"] made c(1) r(1)
  show ?thesis
    by (auto simp: scenario_poison_def remove_file_def Let_def decimal_def digits_in.simps digit_def)
qed

text \<open>
  C37: the end-to-end scenarios do what the test suite expects of them, once their set-up has
  succeeded, that is, no call of \<open>create_sigbus_mapping\<close> has failed: the test file holds one byte,
  so the second page of the mapping has no page of the file, and touching it is reported as a
  recovered fault, by a single thread, by each of eight threads under every schedule that gives
  them eleven turns each, and on repeated faults; the program prints the expected line and exits
  with code 0.
\<close>

theorem scenarios_recover:
  assumes env: "victim_env H k V" and inv: "sig_inv w" and turns: "\<And>i. i < 8 \<Longrightarrow> 11 \<le> count_list sch (tids i)"
    and made: "create_sigbus_mapping H ''/tmp'' ''sigbus_basic.bin'' (w, []) = (Ret tm, pw)"
      "create_sigbus_mapping H ''/tmp'' ''sigbus_mt.bin'' (w, []) = (Ret tm', pw')"
      "create_sigbus_mapping H ''/tmp'' ''sigbus_poison.bin'' (w, []) = (Ret tm'', pw'')"
  shows "(\<exists>w'. main H t tids sch cs [''victim'', ''--scenario=sigbus_basic'', ''--dir=/tmp''] (w, [])
          = (Ret 0, (w', [Out ''recovered''])) \<and> sig_inv w')
    \<and> (\<exists>w'. main H t tids sch cs [''victim'', ''--scenario=multi_thread'', ''--dir=/tmp''] (w, [])
          = (Ret 0, (w', [Out ''recovered''])) \<and> sig_inv w')
    \<and> (\<exists>w'. main H t tids sch cs [''victim'', ''--scenario=poison'', ''--dir=/tmp''] (w, [])
          = (Ret 0, (w', [Out ''poisoned after 2 faults''])) \<and> sig_inv w')"
  using basic_ok [OF env inv made(1)] multi_thread_ok [OF env inv turns made(2)] poison_ok [OF env inv made(3)]
  by (simp add: main_def Let_def)

end
