(* ===== verification/Victim_Nfs.thy ===== *)
theory Victim_Nfs
  imports Victim
begin

text \<open>
  The scenario of \<^verbatim>\<open>src/bin/sigbus_victim.rs\<close> for which the crate was written: a file on a
  server that goes away while it is mapped. Whatever pages are lost, the program reads on, counts
  the pages it could read and those it could not, and exits normally.
\<close>

section \<open>Pages of a mapping\<close>

lemma length_stride: "0 < p \<Longrightarrow> length (stride p pos stop) = (stop - pos + p - 1) div p"
proof (induction p pos stop rule: stride.induct)
  case (1 p pos stop)
  show ?case
  proof (cases "stop \<le> pos")
    case True
    then show ?thesis using 1(2) by (simp add: stride.simps)
  next
    case False
    then have "stop - pos + p - 1 = stop - pos - 1 + p" by simp
    then have "(stop - pos + p - 1) div p = Suc ((stop - pos - 1) div p)"
      using 1(2) by (metis div_add_self2 neq0_conv Suc_eq_plus1)
    moreover have "(stop - (pos + p) + p - 1) div p = (stop - pos - 1) div p"
    proof (cases "stop \<le> pos + p")
      case True
      then have "stop - pos - 1 < p" using False by linarith
      then show ?thesis using True 1(2) by simp
    next
      case more: False
      then have "stop - (pos + p) + p - 1 = stop - pos - 1" by simp
      then show ?thesis by simp
    qed
    ultimately show ?thesis using False 1 by (simp add: stride.simps [of p pos])
  qed
qed

lemma slice_safe_first: "n \<noteq> 0 \<Longrightarrow> slice_safe first_byte p n"
  by (simp add: slice_safe_def first_byte_def in_slice_def word_neq_0_conv word_less_nat_alt)

text \<open>The loads of a mapping never raise a segmentation fault: its pages stay mapped.\<close>

definition stays_mapped :: "'os libc \<Rightarrow> raw_mmap \<Rightarrow> bool" where
  "stays_mapped L raw \<longleftrightarrow>
     (\<forall>off s. unat off < unat (rm_len raw) \<longrightarrow> fst (mem_load L (rm_ptr raw + off) s) \<noteq> SegFault)"

section \<open>What the loop should count\<close>

text \<open>
  The reference, without signals and without the crate: the first byte of every page is loaded in
  turn. A page that can be read counts as good, one that raises SIGBUS as a fault; from the
  \<open>lim\<close>-th fault on nothing is loaded any more, and every page that is left counts as bad.
\<close>

fun survey :: "'os libc \<Rightarrow> nat \<Rightarrow> usize \<Rightarrow> nat list \<Rightarrow> nat \<Rightarrow> 'os \<Rightarrow> nat \<times> nat" where
  "survey L lim p [] n s = (0, 0)"
| "survey L lim p (i # is) n s =
     (if lim \<le> n then (0, Suc (length is))
      else case mem_load L (p + of_nat i) s of
             (Value b, s') \<Rightarrow> map_prod Suc id (survey L lim p is n s')
           | (_, s') \<Rightarrow> map_prod id Suc (survey L lim p is (Suc n) s'))"

lemma survey_poisoned: "lim \<le> n \<Longrightarrow> survey L lim p is n s = (0, length is)"
  by (cases "is") simp_all

lemma survey_total: "fst (survey L lim p is n s) + snd (survey L lim p is n s) = length is"
  by (induction L lim p "is" n s rule: survey.induct) (auto split: prod.split mem_result.split)

section \<open>One page\<close>

lemma call_mm_ret [simp]: "c (m, w) = (Ret x, (m', w')) \<Longrightarrow> call_mm m c (w, ls) = (Ret (x, m'), (w', ls))"
  by (simp add: call_mm_def)

text \<open>
  A read of the first byte of a non-empty range: a poisoned mapping refuses it and touches nothing;
  otherwise the byte is loaded once, and a fault is counted.
\<close>

definition page_read ::
    "'os libc \<Rightarrow> 'os safe_mmap \<Rightarrow> 'os world \<Rightarrow> usize \<Rightarrow> (access_error + u8) outcome \<times> 'os mm \<Rightarrow> bool" where
  "page_read L m w a res \<longleftrightarrow>
     (if poisoned m then res = (Ret (Inl (Poisoned (sigbus_count m))), (m, w))
      else \<exists>w'. regs w' = regs w \<and> os w' = snd (mem_load L a (os w))
             \<and> (case fst (mem_load L a (os w)) of
                  Value b \<Rightarrow> res = (Ret (Inr b), (m, w')) \<and> mm_inv L (m, w')
                | _ \<Rightarrow> res = (Ret (Inl (Sigbus a)), (faulted m, w')) \<and> mm_inv L (faulted m, w')))"

lemma read_first:
  assumes inv: "mm_inv L (m, w)" and map: "stays_mapped L (sm_raw m)" and ev: "on_event m = None"
    and r: "unat start < unat stop" "unat stop \<le> unat (rm_len (sm_raw m))"
  shows "page_read L m w (rm_ptr (sm_raw m) + start) (safe_mmap_read L t start stop first_byte (m, w))"
proof (cases "poisoned m")
  case True
  then show ?thesis using acc_read.gate [OF True] by (simp add: page_read_def)
next
  case False
  let ?a = "rm_ptr (sm_raw m) + start" and ?n = "stop - start"
  have n: "?n \<noteq> 0" and le: "start \<le> stop" "stop \<le> rm_len (sm_raw m)"
    using r by (auto simp: word_le_nat_alt)
  have "recovers L (safe_mmap_read L t start stop first_byte) (first_byte ?a ?n) (m, w)"
    by (rule safe_mmap_read_recovers [OF inv False le slice_safe_first [OF n]])
  moreover obtain res s where ld: "mem_load L ?a (os w) = (res, s)" by fastforce
  moreover have "res \<noteq> SegFault"
    using map r ld unfolding stays_mapped_def by (metis fst_conv less_le_trans)
  ultimately show ?thesis
    using n False ev
    by (cases res) (auto simp: page_read_def recovers_def first_byte_def notify_silent)
qed

section \<open>The loop over the pages\<close>

text \<open>The loop returns and leaves a sound mapping, and its counters have the given values.\<close>

definition pages_read ::
    "'os libc \<Rightarrow> 'os safe_mmap \<Rightarrow> 'os world \<Rightarrow> nat \<times> nat \<Rightarrow> ('os safe_mmap \<times> u32 \<times> u32) outcome \<times> 'os proc \<Rightarrow> bool" where
  "pages_read L m w count res \<longleftrightarrow>
     (\<exists>m' good bad w' ls. res = (Ret (m', good, bad), (w', ls)) \<and> mm_inv L (m', w') \<and> sm_raw m' = sm_raw m
        \<and> regs w' = regs w \<and> (unat good, unat bad) = count)"

lemma u32_count:
  assumes "unat a + n < 2 ^ 32" and "0 < n"
  shows "u32_add chk a 1 = ret (a + 1)" and "unat (a + 1) = Suc (unat a)"
  using assms by (simp_all add: u32_add_def unat_word_ariths)

lemma page_range:
  assumes "i < unat len"
  shows "usize_sub chk len (of_nat i) = ret (len - of_nat i)"
    and "usize_add chk (of_nat i) (min (2 ^ k) (len - of_nat i)) = ret (of_nat i + min (2 ^ k) (len - of_nat i))"
    and "k < 64 \<Longrightarrow> unat (of_nat i :: usize) < unat (of_nat i + min (2 ^ k) (len - of_nat i) :: usize)"
    and "unat (of_nat i + min (2 ^ k) (len - of_nat i) :: usize) \<le> unat len"
proof -
  have u: "unat (of_nat i :: usize) = i" 
    using assms unat_lt_64 [of len] by (simp add: unsigned_of_nat take_bit_nat_eq_self)
  have le: "of_nat i \<le> len" using assms by (simp add: word_le_nat_alt u)
  then have d: "unat (len - of_nat i) = unat len - i" by (simp add: unat_sub u)
  have m: "unat (min (2 ^ k) (len - of_nat i)) \<le> unat len - i"
    using d by (simp add: min_def word_le_nat_alt)
  then have fit: "unat (of_nat i :: usize) + unat (min (2 ^ k) (len - of_nat i)) < 2 ^ 64"
    using unat_lt_64 [of len] assms u by simp
  show "usize_sub chk len (of_nat i) = ret (len - of_nat i)" using le by simp
  show "usize_add chk (of_nat i) (min (2 ^ k) (len - of_nat i)) = ret (of_nat i + min (2 ^ k) (len - of_nat i))"
    using fit by simp
  have s: "unat (of_nat i + min (2 ^ k) (len - of_nat i) :: usize) = i + unat (min (2 ^ k) (len - of_nat i))"
    using fit by (simp add: unat_add_no_wrap u)
  show "unat (of_nat i + min (2 ^ k) (len - of_nat i) :: usize) \<le> unat len"
    using s m assms by linarith
  assume "k < 64"
  then have "0 < unat (min (2 ^ k) (len - of_nat i))" using d assms by (simp add: min_def unat_pow2)
  then show "unat (of_nat i :: usize) < unat (of_nat i + min (2 ^ k) (len - of_nat i) :: usize)"
    using s u by linarith
qed

lemma faulted_simps [simp]:
  "sm_raw (faulted m) = sm_raw m" "on_event (faulted m) = on_event m" "limit (faulted m) = limit m"
  by (simp_all add: faulted_def limit_def)

lemma faults_faulted:
  assumes "mm_inv L (m, w)" and "\<not> poisoned m"
  shows "faults (faulted m) = Suc (faults m)"
  using count_succ [of m] assms by (simp add: mm_inv_def faults_def faulted_def)

text \<open>The loop counts what the reference counts.\<close>

lemma read_pages_ok:
  fixes H :: "'os host"
  assumes k: "k < 64"
  shows "mm_inv (h_libc H) (m, w) \<Longrightarrow> stays_mapped (h_libc H) (sm_raw m) \<Longrightarrow> on_event m = None \<Longrightarrow>
    len = rm_len (sm_raw m) \<Longrightarrow> (\<And>i. i \<in> set is \<Longrightarrow> i < unat len) \<Longrightarrow> unat good + unat bad + length is < 2 ^ 32 \<Longrightarrow>
    survey (h_libc H) (limit m) (rm_ptr (sm_raw m)) is (faults m) (os w) = (g, b) \<Longrightarrow>
    pages_read (h_libc H) m w (unat good + g, unat bad + b)
      (read_pages H t (2 ^ k) len is m good bad (w, ls))"
proof (induction "is" arbitrary: m w good bad ls g b)
  case Nil
  then show ?case by (simp add: pages_read_def)
next
  case (Cons i is')
  let ?L = "h_libc H" and ?off = "of_nat i :: usize" and ?p = "rm_ptr (sm_raw m)"
  let ?stop = "?off + min (2 ^ k) (len - ?off)"
  let ?op = "safe_mmap_read ?L t ?off ?stop first_byte (m, w)"
  have i: "i < unat len" using Cons.prems(5) by simp
  note rng = page_range(1) [OF i] page_range(2-4) [OF i, where k = k]
  have pi: "poisoned m \<longleftrightarrow> limit m \<le> faults m"
    using Cons.prems(1) by (simp add: mm_inv_def poison_inv_iff)
  have read: "page_read ?L m w (?p + ?off) ?op"
    using read_first [OF Cons.prems(1-3) rng(3) [OF k], of t] rng(4) Cons.prems(4) by simp
  have gb: "unat good + 1 < 2 ^ 32" "unat bad + 1 < 2 ^ 32" using Cons.prems(6) by simp_all
  note gc = u32_count(1) [OF gb(1)] u32_count(2) [OF gb(1)] and bc = u32_count(1) [OF gb(2)] u32_count(2) [OF gb(2)]
  have rec: "pages_read ?L m w (unat good' + g', unat bad' + b') (read_pages H t (2 ^ k) len is' m' good' bad' (w', ls'))"
    if "mm_inv ?L (m', w')" "sm_raw m' = sm_raw m" "on_event m' = None" "regs w' = regs w"
      "unat good' + unat bad' = Suc (unat good + unat bad)"
      "survey ?L (limit m') ?p is' (faults m') (os w') = (g', b')" for m' w' good' bad' ls' g' b'
    using Cons.IH [OF that(1) _ that(3), of good' bad' g' b' ls'] Cons.prems(2,4-6) that
    by (auto simp: pages_read_def)
  obtain res s where ld: "mem_load ?L (?p + ?off) (os w) = (res, s)" by fastforce
  consider (refused) "poisoned m" | (good) x where "\<not> poisoned m" "res = Value x"
    | (lost) "\<not> poisoned m" "\<And>x. res \<noteq> Value x" by blast
  then show ?case
  proof cases
    case refused
    then have "g = 0" "b = Suc (length is')" "survey ?L (limit m) ?p is' (faults m) (os w) = (0, length is')"
      using Cons.prems(7) pi survey_poisoned [of "limit m" "faults m"] by simp_all
    moreover have "?op = (Ret (Inl (Poisoned (sigbus_count m))), (m, w))"
      using read refused by (simp add: page_read_def)
    ultimately show ?thesis
      using rec [OF Cons.prems(1) refl Cons.prems(3) refl, of good "bad + 1" 0 "length is'"]
      by (simp add: Let_def rng(1,2) bc show_error_def display_access_error_def)
  next
    case good
    then obtain w' where op: "?op = (Ret (Inr x), (m, w'))" "mm_inv ?L (m, w')" "regs w' = regs w" "os w' = s"
      using read ld by (auto simp: page_read_def)
    obtain g' where g': "survey ?L (limit m) ?p is' (faults m) s = (g', b)" "g = Suc g'"
      using Cons.prems(7) ld good pi by (cases "survey ?L (limit m) ?p is' (faults m) s") auto
    show ?thesis
      using rec [OF op(2) refl Cons.prems(3) op(3), of "good + 1" bad g' b] op(1,4) g'
      by (simp add: Let_def rng(1,2) gc)
  next
    case lost
    let ?a = "?p + ?off"
    obtain w' where op: "?op = (Ret (Inl (Sigbus ?a)), (faulted m, w'))" "mm_inv ?L (faulted m, w')"
        "regs w' = regs w" "os w' = s"
      using read ld lost by (cases res) (auto simp: page_read_def)
    obtain b' where b': "survey ?L (limit m) ?p is' (faults (faulted m)) s = (g, b')" "b = Suc b'"
      using Cons.prems(7) ld lost pi faults_faulted [OF Cons.prems(1)]
      by (cases "survey ?L (limit m) ?p is' (Suc (faults m)) s"; cases res) auto
    show ?thesis
      using rec [of "faulted m" w' good "bad + 1" g b'] op b' Cons.prems(3)
      by (simp add: Let_def rng(1,2) bc)
  qed
qed

section \<open>The whole scenario\<close>

text \<open>
  The kernel state in which the loop starts: the first byte has been loaded, the whole mapping
  has been evicted, and five seconds have passed, in which the server may have gone away.
\<close>

definition after_wait :: "'os host \<Rightarrow> nat \<Rightarrow> raw_mmap \<Rightarrow> 'os \<Rightarrow> 'os" where
  "after_wait H k raw s =
     thread_sleep H 5000000000
       (snd (sys_madvise (h_libc H) (rm_ptr raw) (of_nat (page_ceil (2 ^ k) (unat (rm_len raw))))
               (MADV_DONTNEED (h_libc H)) (snd (mem_load (h_libc H) (rm_ptr raw) s))))"

lemma evict_returns:
  fixes L :: "'os libc" and w :: "'os world"
  assumes pg: "page_pow2 L k" and ok: "raw_ok L (sm_raw m)" and ne: "rm_len (sm_raw m) \<noteq> 0"
  shows "\<exists>r. safe_mmap_evict L 0 (rm_len (sm_raw m)) (m, w)
     = (Ret r, (m, w\<lparr>os := snd (sys_madvise L (rm_ptr (sm_raw m))
           (of_nat (page_ceil (2 ^ k) (unat (rm_len (sm_raw m))))) (MADV_DONTNEED L) (os w))\<rparr>))"
proof -
  let ?raw = "sm_raw m" and ?n = "rm_len (sm_raw m)"
  have fits: "unat (0 :: usize) + unat ?n \<le> unat ?n" by simp
  obtain a n where r: "aligned_range L 0 ?n = (ret (a, n) :: ('os, usize \<times> usize) comp)"
      and a: "unat a = page_floor (2 ^ k) (unat (0 :: usize))"
      and n: "unat a + unat n = page_ceil (2 ^ k) (unat (0 :: usize) + unat ?n)"
    using aligned_range_exact [OF pg raw_ok_in_range [OF pg ok fits]] by blast
  have "a = 0" using a by (simp add: page_floor_def unat_eq_0)
  moreover from this n have u: "page_ceil (2 ^ k) (unat ?n) = unat n" by simp
  then have "n = of_nat (page_ceil (2 ^ k) (unat ?n))" unfolding u by simp
  ultimately have "advise_range L DontNeed ?raw 0 ?n
      = checked_syscall L (sys_madvise L (rm_ptr ?raw) (of_nat (page_ceil (2 ^ k) (unat ?n))) (MADV_DONTNEED L))"
    using r by (simp add: advise_range_def range_rejected_iff checked_syscall_def fun_eq_iff)
  then show ?thesis
    by (auto simp: safe_mmap_evict_def with_raw_def on_world_apply on_os_apply checked_syscall_apply)
qed

lemma nfs_failure_ok:
  fixes H :: "'os host"
  defines "L \<equiv> h_libc H"
  assumes env: "signal_ok L" "mmap_law L" "page_pow2 L k" and inv: "sig_inv w"
    and opn: "safe_mmap_open L path w = (Ret (Inr m), w1)" and map: "stays_mapped L (sm_raw m)"
    and first: "fst (mem_load L (rm_ptr (sm_raw m)) (os w1)) \<noteq> BusError"
    and n: "(unat (rm_len (sm_raw m)) + 2 ^ k - 1) div 2 ^ k < 2 ^ 32"
    and cnt: "survey L 3 (rm_ptr (sm_raw m)) (stride (2 ^ k) 0 (unat (rm_len (sm_raw m)))) 0
         (after_wait H k (sm_raw m) (os w1)) = (good, bad)"
  shows "\<exists>w' ls. scenario_nfs_failure H t (Some path) (w, [])
       = (Ret 0, (w', ls @ [Out (''results: '' @ decimal good @ '' pages ok, '' @ decimal bad @ '' faults caught''),
             Out (if 0 < bad then ''nfs_failure_recovered''
                  else ''nfs_pages_cached (server down but pages still resident)'')]))
     \<and> sig_inv w' \<and> regions_of (regs w')
         = filter (\<lambda>r. r_start r \<noteq> rm_ptr (sm_raw m)) (regions_of (regs w))
     \<and> good + bad = (unat (rm_len (sm_raw m)) + 2 ^ k - 1) div 2 ^ k"
proof -
  let ?raw = "sm_raw m" and ?len = "rm_len (sm_raw m)"
  have k: "k < 64" and pos: "0 < sint (SC_PAGESIZE L)" using env(3) by (auto simp: page_pow2_def sint_pow2)
  have o: "opened L safe_mmap_builder path w m w1" and inv1: "sig_inv w1"
    using open_ok [OF env(1,2) pos inv, of safe_mmap_builder path] opn by (auto simp: safe_mmap_open_def)
  have ev: "on_event m = None" and np: "\<not> poisoned m" and ok: "raw_ok L ?raw" and ne: "?len \<noteq> 0"
    and z: "faults m = 0" "limit m = 3"
    and reg: "regions_of (regs w1) = regions_of (regs w) @ [region_of ?raw]"
    using o by (auto simp: opened_def safe_mmap_builder_def safe_mmap_options_new_def map_length_def Let_def
        faults_def limit_def DEFAULT_MAX_SIGBUS_def split: if_splits)
  have mi: "mm_inv L (m, w1)"
    by (rule opened_mm_inv [OF env(1) inv1 o]) (simp add: callback_ok_def ev)
  have one: "unat (0 :: usize) < unat (1 :: usize)" "unat (1 :: usize) \<le> unat ?len"
    using ne by (simp_all add: Suc_le_eq unat_gt_0)
  have "fst (mem_load L (rm_ptr ?raw) (os w1)) \<noteq> SegFault"
    using map [unfolded stays_mapped_def, rule_format, of 0] ne by (simp add: unat_gt_0)
  then obtain b where "fst (mem_load L (rm_ptr ?raw) (os w1)) = Value b"
    using first by (cases "fst (mem_load L (rm_ptr ?raw) (os w1))") auto
  then obtain w2 where r1: "safe_mmap_read L t 0 1 first_byte (m, w1) = (Ret (Inr b), (m, w2))"
      "mm_inv L (m, w2)" "regs w2 = regs w1" "os w2 = snd (mem_load L (rm_ptr ?raw) (os w1))"
    using read_first [OF mi map ev one, of t] np by (auto simp: page_read_def)
  let ?s = "after_wait H k ?raw (os w1)"
  obtain r s where e: "safe_mmap_evict L 0 ?len (m, w2) = (Ret r, (m, w2\<lparr>os := s\<rparr>))"
      and s: "thread_sleep H 5000000000 s = ?s"
    using evict_returns [OF env(3) ok ne, of w2] r1(4) by (auto simp: after_wait_def L_def)
  let ?w3 = "w2\<lparr>os := ?s\<rparr>" and ?is = "stride (2 ^ k) 0 (unat ?len)"
  let ?ls = "[Out ''initial read ok'', Out ''waiting for NFS server to die...'', Out ''attempting read after NFS failure...'']"
  have "sig_inv ?w3" using r1(2) by (simp add: mm_inv_def env_inv_def)
  then have mi3: "mm_inv L (m, ?w3)" by (rule mm_inv_world [OF r1(2)]) simp
  have len: "length ?is = (unat ?len + 2 ^ k - 1) div 2 ^ k" by (simp add: length_stride)
  have "pages_read L m ?w3 (unat (0 :: u32) + good, unat (0 :: u32) + bad)
      (read_pages H t (2 ^ k) ?len ?is m 0 0 (?w3, ?ls))"
    unfolding L_def by (rule read_pages_ok [OF k])
      (use mi3 map ev n len cnt z set_stride [of "2 ^ k" _ 0 "unat ?len"] in \<open>simp_all add: L_def\<close>)
  then obtain m' g b' w4 ls where p: "read_pages H t (2 ^ k) ?len ?is m 0 0 (?w3, ?ls) = (Ret (m', g, b'), (w4, ls))"
      "mm_inv L (m', w4)" "sm_raw m' = ?raw" "regs w4 = regs w1" "unat g = good" "unat b' = bad"
    using r1(3) by (auto simp: pages_read_def)
  have "sig_inv w4" using p(2) by (simp add: mm_inv_def env_inv_def)
  then obtain w' where d: "safe_mmap_drop L m' w4 = (Ret (), w')" "sig_inv w'"
      "regions_of (regs w') = filter (\<lambda>r. r_start r \<noteq> rm_ptr ?raw) (regions_of (regs w))"
    using drop_ok [of w4 L m'] p(3,4) reg by (auto simp: region_of_def)
  have pw: "unat (2 ^ k :: usize) = 2 ^ k" using k by (simp add: unat_pow2)
  have pos: "0 < b' \<longleftrightarrow> 0 < bad" using p(6) by (simp add: word_less_nat_alt)
  have "scenario_nfs_failure H t (Some path) (w, []) = (Ret 0, (w', ls @ [Out (''results: '' @ decimal good
         @ '' pages ok, '' @ decimal bad @ '' faults caught''),
         Out (if 0 < bad then ''nfs_failure_recovered''
              else ''nfs_pages_cached (server down but pages still resident)'')]))"
    using opn r1(1) e p(1) d(1) env(3)
    by (simp add: scenario_nfs_failure_def Let_def safe_mmap_len_def drop_mm_def pw s p(5,6) pos flip: L_def)
  moreover have "good + bad = length ?is"
    using survey_total [of L 3 "rm_ptr ?raw" ?is 0 ?s] cnt by simp
  ultimately show ?thesis using d(2,3) len by auto
qed

text \<open>
  C16: a server that goes away does not kill the program. Once the file is open and its first byte
  has been read, the run of \<open>nfs_failure\<close> ends with exit code 0 whatever pages the kernel loses, as
  long as they stay mapped and there are fewer than \<open>2 ^ 32\<close> of them. It prints as good the pages
  that could be read, and as faults those whose load raised SIGBUS together with all that follow
  the third of them, which the poisoned mapping refuses; together these are all pages of the file.
  The mapping is unregistered at the end.
\<close>

theorem nfs_failure_survives:
  fixes H :: "'os host"
  assumes env: "signal_ok (h_libc H)" "mmap_law (h_libc H)" "page_pow2 (h_libc H) k" and inv: "sig_inv w"
    and opn: "safe_mmap_open (h_libc H) path w = (Ret (Inr m), w1)" and map: "stays_mapped (h_libc H) (sm_raw m)"
    and first: "fst (mem_load (h_libc H) (rm_ptr (sm_raw m)) (os w1)) \<noteq> BusError"
    and n: "(unat (rm_len (sm_raw m)) + 2 ^ k - 1) div 2 ^ k < 2 ^ 32"
  shows "let (good, bad) = survey (h_libc H) 3 (rm_ptr (sm_raw m)) (stride (2 ^ k) 0 (unat (rm_len (sm_raw m)))) 0
           (after_wait H k (sm_raw m) (os w1)) in
     \<exists>w' ls. main H t tids sch cs [''victim'', ''--scenario=nfs_failure'', ''--file='' @ path] (w, [])
       = (Ret 0, (w', ls @ [Out (''results: '' @ decimal good @ '' pages ok, '' @ decimal bad @ '' faults caught''),
             Out (if 0 < bad then ''nfs_failure_recovered''
                  else ''nfs_pages_cached (server down but pages still resident)'')]))
     \<and> sig_inv w' \<and> regions_of (regs w')
         = filter (\<lambda>r. r_start r \<noteq> rm_ptr (sm_raw m)) (regions_of (regs w))
     \<and> good + bad = (unat (rm_len (sm_raw m)) + 2 ^ k - 1) div 2 ^ k"
proof -
  obtain good bad where c: "survey (h_libc H) 3 (rm_ptr (sm_raw m)) (stride (2 ^ k) 0 (unat (rm_len (sm_raw m)))) 0
      (after_wait H k (sm_raw m) (os w1)) = (good, bad)" by fastforce
  show ?thesis
    using nfs_failure_ok [OF env inv opn map first n c, of t] by (simp add: c main_def Let_def)
qed

end
