(* ===== verification/Mmap_Race.thy ===== *)
theory Mmap_Race
  imports Mmap_Access
begin

text \<open>
  The poisoning policy under concurrency: \<open>record_sigbus_from\<close> and \<open>reset_poison\<close> of
  \<^verbatim>\<open>src/mmap/mod.rs\<close> are several atomic operations each, and threads sharing a mapping
  interleave them. A step is one atomic operation: the \<open>fetch_add\<close>, the comparison of the
  fetched count with the store of the flag, or one of the two stores of a reset.
\<close>

section \<open>Steps\<close>

datatype phase = Idle | Counted u32 | Resetting

text \<open>\<open>ra_faults\<close> counts the \<open>fetch_add\<close>s; it is not part of the program's state.\<close>

record race =
  ra_count :: u32
  ra_poisoned :: bool
  ra_phase :: "tid \<Rightarrow> phase"
  ra_faults :: nat

definition race_start :: race where
  "race_start = \<lparr>ra_count = 0, ra_poisoned = False, ra_phase = (\<lambda>_. Idle), ra_faults = 0\<rparr>"

definition race_count :: "bool \<Rightarrow> tid \<Rightarrow> race \<Rightarrow> race" where
  "race_count chk t s =
     s\<lparr>ra_count := ra_count s + 1, ra_faults := ra_faults s + 1,
       ra_phase := (ra_phase s)(t := if chk \<and> 2 ^ 32 \<le> unat (ra_count s) + 1 then Idle
                                     else Counted (ra_count s + 1))\<rparr>"

definition race_poison :: "u32 \<Rightarrow> tid \<Rightarrow> u32 \<Rightarrow> race \<Rightarrow> race" where
  "race_poison lim t c s =
     s\<lparr>ra_poisoned := (ra_poisoned s \<or> lim \<le> c), ra_phase := (ra_phase s)(t := Idle)\<rparr>"

definition race_clear_flag :: "tid \<Rightarrow> race \<Rightarrow> race" where
  "race_clear_flag t s = s\<lparr>ra_poisoned := False, ra_phase := (ra_phase s)(t := Resetting)\<rparr>"

definition race_clear_count :: "tid \<Rightarrow> race \<Rightarrow> race" where
  "race_clear_count t s = s\<lparr>ra_count := 0, ra_phase := (ra_phase s)(t := Idle)\<rparr>"

inductive race_step :: "bool \<Rightarrow> bool \<Rightarrow> u32 \<Rightarrow> race \<Rightarrow> race \<Rightarrow> bool" for chk resets lim where
  count: "ra_phase s t = Idle \<Longrightarrow> race_step chk resets lim s (race_count chk t s)"
| poison: "ra_phase s t = Counted c \<Longrightarrow> race_step chk resets lim s (race_poison lim t c s)"
| clear_flag: "resets \<Longrightarrow> ra_phase s t = Idle \<Longrightarrow> race_step chk resets lim s (race_clear_flag t s)"
| clear_count: "ra_phase s t = Resetting \<Longrightarrow> race_step chk resets lim s (race_clear_count t s)"

inductive race_reach :: "bool \<Rightarrow> bool \<Rightarrow> u32 \<Rightarrow> race \<Rightarrow> bool" for chk resets lim where
  start: "race_reach chk resets lim race_start"
| step: "race_reach chk resets lim s \<Longrightarrow> race_step chk resets lim s s' \<Longrightarrow> race_reach chk resets lim s'"

definition quiet :: "race \<Rightarrow> bool" where
  "quiet s \<longleftrightarrow> (\<forall>t. ra_phase s t = Idle)"

section \<open>Without resets the flag is exact\<close>

definition race_inv :: "u32 \<Rightarrow> race \<Rightarrow> bool" where
  "race_inv lim s \<longleftrightarrow>
     unat (ra_count s) = ra_faults s
     \<and> (\<forall>t. ra_phase s t \<noteq> Resetting)
     \<and> (\<forall>t c. ra_phase s t = Counted c \<longrightarrow> 0 < c \<and> c \<le> ra_count s)
     \<and> (ra_poisoned s \<longrightarrow> lim \<le> ra_count s \<and> 0 < ra_count s)
     \<and> (lim \<le> ra_count s \<longrightarrow> 0 < ra_count s \<longrightarrow>
          ra_poisoned s \<or> (\<exists>t c. ra_phase s t = Counted c \<and> lim \<le> c))"

lemma race_inv_count:
  assumes inv: "race_inv lim s" and idle: "ra_phase s t = Idle" and room: "ra_faults s + 1 < 2 ^ 32"
  shows "race_inv lim (race_count chk t s)"
proof -
  let ?c = "ra_count s + 1"
  have u: "unat (ra_count s) = ra_faults s" using inv by (simp add: race_inv_def)
  then have uc: "unat ?c = ra_faults s + 1" using room by (simp add: unat_word_ariths)
  have s': "ra_count (race_count chk t s) = ?c" "ra_faults (race_count chk t s) = ra_faults s + 1"
      "ra_poisoned (race_count chk t s) = ra_poisoned s"
      "ra_phase (race_count chk t s) = (ra_phase s)(t := Counted ?c)"
    using room u by (simp_all add: race_count_def)
  have grow: "ra_count s < ?c" "0 < ?c"
    using u uc by (simp_all add: word_less_nat_alt)
  have old: "0 < x \<and> x \<le> ?c" if "ra_phase s t' = Counted x" for t' x
  proof -
    have "0 < x \<and> x \<le> ra_count s" using inv that by (simp add: race_inv_def)
    with grow(1) show ?thesis by (meson less_imp_le order_trans)
  qed
  have flag: "ra_poisoned s \<Longrightarrow> lim \<le> ?c"
    using inv grow(1) by (auto simp: race_inv_def intro: less_imp_le order_trans)
  have own: "lim \<le> ?c \<Longrightarrow> \<exists>t' x. ((ra_phase s)(t := Counted ?c)) t' = Counted x \<and> lim \<le> x"
    by (intro exI [of _ t] exI [of _ ?c]) simp
  have "\<forall>t'. ((ra_phase s)(t := Counted ?c)) t' \<noteq> Resetting"
    using inv by (simp add: race_inv_def)
  moreover have "\<forall>t' x. ((ra_phase s)(t := Counted ?c)) t' = Counted x \<longrightarrow> 0 < x \<and> x \<le> ?c"
    using old grow(2) by simp
  ultimately show ?thesis
    unfolding race_inv_def s' using uc flag own grow(2) by blast
qed

lemma race_inv_poison:
  assumes inv: "race_inv lim s" and c: "ra_phase s t = Counted c"
  shows "race_inv lim (race_poison lim t c s)"
proof -
  have b: "0 < c" "c \<le> ra_count s" using inv c by (simp_all add: race_inv_def)
  show ?thesis
  proof (cases "lim \<le> c")
    case True
    with inv b show ?thesis
      by (auto simp: race_inv_def race_poison_def intro: order_trans less_le_trans)
  next
    case False
    have other: "((ra_phase s)(t := Idle)) t' = Counted x"
      if "ra_phase s t' = Counted x" "lim \<le> x" for t' x
      using that False c by auto
    have "ra_poisoned s \<or> (\<exists>t' x. ((ra_phase s)(t := Idle)) t' = Counted x \<and> lim \<le> x)"
      if "lim \<le> ra_count s" "0 < ra_count s"
      using inv that other unfolding race_inv_def by meson
    moreover have "\<forall>t' x. ((ra_phase s)(t := Idle)) t' = Counted x \<longrightarrow> 0 < x \<and> x \<le> ra_count s"
      using inv by (simp add: race_inv_def)
    ultimately show ?thesis
      using False inv by (simp add: race_inv_def race_poison_def)
  qed
qed

lemma race_reach_inv:
  "race_reach chk False lim s \<Longrightarrow> ra_faults s < 2 ^ 32 \<Longrightarrow> race_inv lim s"
proof (induction rule: race_reach.induct)
  case start
  show ?case by (simp add: race_inv_def race_start_def)
next
  case (step s s')
  from step.hyps(2) step.prems step.IH show ?case
  proof (induction rule: race_step.induct)
    case (count s t)
    then show ?case by (intro race_inv_count) (simp_all add: race_count_def)
  next
    case (poison s t c)
    then show ?case by (intro race_inv_poison) (simp_all add: race_poison_def)
  next
    case (clear_count s t)
    then show ?case by (simp add: race_inv_def race_clear_count_def)
  qed simp
qed

text \<open>
  C19: when threads record faults concurrently and nobody resets, no fault is lost: in every quiet
  state the counter equals the number of recorded faults, and the mapping is poisoned exactly
  when that number has reached the limit (at least one), in whatever order the atomic operations
  were interleaved.
\<close>

theorem concurrent_poisoning_exact:
  assumes "race_reach chk False lim s" and "quiet s" and "ra_faults s < 2 ^ 32"
  shows "unat (ra_count s) = ra_faults s
     \<and> (ra_poisoned s \<longleftrightarrow> max 1 (unat lim) \<le> ra_faults s)"
proof -
  have inv: "race_inv lim s" by (rule race_reach_inv [OF assms(1,3)])
  then have u: "unat (ra_count s) = ra_faults s" by (simp add: race_inv_def)
  have "ra_poisoned s \<longleftrightarrow> lim \<le> ra_count s \<and> 0 < ra_count s"
    using inv assms(2) by (auto simp: race_inv_def quiet_def)
  then show ?thesis using u by (auto simp: word_le_nat_alt word_less_nat_alt)
qed

section \<open>A reset can lose against a recording thread\<close>

text \<open>
  C39: a reset is lost when it runs between the two atomic operations of a recording thread that
  reaches the limit. Thread \<open>t\<close> has counted its fault and not yet stored the flag; the reset of
  \<open>u\<close> runs as a whole; then \<open>t\<close> stores the flag. All threads are done, the counter is zero and the
  mapping is poisoned. Neither order of the two calls gives that: recording first leaves zero
  faults and no poison, resetting first leaves one fault.
\<close>

theorem reset_race_stays_poisoned:
  assumes other: "t \<noteq> u" and idle: "quiet s" and room: "unat (ra_count s) + 1 < 2 ^ 32"
    and hit: "lim \<le> ra_count s + 1"
  shows "let c = ra_count s + 1;
       s1 = race_count chk t s;
       s2 = race_clear_flag u s1;
       s3 = race_clear_count u s2;
       s4 = race_poison lim t c s3;
       recorded_first = race_clear_count u (race_clear_flag u (race_poison lim t c s1));
       reset_first = race_poison lim t 1 (race_count chk t (race_clear_count u (race_clear_flag u s)))
     in race_step chk True lim s s1 \<and> ra_phase s1 t = Counted c
        \<and> race_step chk True lim s1 s2 \<and> race_step chk True lim s2 s3 \<and> ra_phase s3 t = Counted c
        \<and> race_step chk True lim s3 s4 \<and> quiet s4 \<and> ra_count s4 = 0 \<and> ra_poisoned s4
        \<and> ra_count recorded_first = 0 \<and> \<not> ra_poisoned recorded_first
        \<and> ra_count reset_first = 1 \<and> (ra_poisoned reset_first \<longleftrightarrow> lim \<le> 1)"
proof -
  let ?c = "ra_count s + 1"
  let ?s1 = "race_count chk t s"
  let ?s2 = "race_clear_flag u ?s1"
  let ?s3 = "race_clear_count u ?s2"
  have at: "ra_phase s t = Idle" "ra_phase s u = Idle" using idle by (simp_all add: quiet_def)
  have p1: "ra_phase ?s1 t = Counted ?c" "ra_phase ?s1 u = Idle"
    using other room at by (simp_all add: race_count_def)
  have p3: "ra_phase ?s3 t = Counted ?c" "ra_phase ?s2 u = Resetting"
    using other p1 by (simp_all add: race_clear_count_def race_clear_flag_def)
  have "race_step chk True lim s ?s1" by (rule race_step.count) (rule at)
  moreover have "race_step chk True lim ?s1 ?s2" by (rule race_step.clear_flag) (simp_all add: p1)
  moreover have "race_step chk True lim ?s2 ?s3" by (rule race_step.clear_count) (rule p3)
  moreover have "race_step chk True lim ?s3 (race_poison lim t ?c ?s3)"
    by (rule race_step.poison) (rule p3)
  moreover have "quiet (race_poison lim t ?c ?s3)"
    using idle by (simp add: quiet_def race_poison_def race_clear_count_def race_clear_flag_def race_count_def)
  ultimately show ?thesis
    using p1 p3 hit
    by (simp add: Let_def race_poison_def) (simp add: race_clear_count_def race_clear_flag_def race_count_def)
qed

section \<open>The steps are those of the sequential model\<close>

definition ledger_of :: "'os safe_mmap \<Rightarrow> race" where
  "ledger_of m =
     \<lparr>ra_count = sigbus_count m, ra_poisoned = poisoned m, ra_phase = (\<lambda>_. Idle), ra_faults = 0\<rparr>"

text \<open>
  Without interference the two atomic steps of one thread do to the counter and the flag what
  \<open>record_sigbus_from\<close> does to the mapping, and the two steps of a reset what \<open>reset_poison\<close> does.
\<close>

theorem race_steps_sequential:
  fixes L :: "'os libc"
  assumes "on_event m = None" and room: "unat (sigbus_count m) + 1 < 2 ^ 32"
  shows "(\<exists>m'. record_sigbus_from L err (m, w) = (Ret (), (m', w)) \<and>
        (let s = race_poison (max_sigbus m) t (sigbus_count m + 1)
                   (race_count (overflow_checks L) t (ledger_of m))
         in ra_count s = sigbus_count m' \<and> ra_poisoned s = poisoned m' \<and> quiet s))
    \<and> (\<exists>m'. reset_poison (m, w) = (Ret (), (m', w)) \<and>
        (let s = race_clear_count t (race_clear_flag t (ledger_of m))
         in ra_count s = sigbus_count m' \<and> ra_poisoned s = poisoned m' \<and> quiet s))"
proof -
  have "u32_add (overflow_checks L) (sigbus_count m) 1 = (ret (sigbus_count m + 1) :: ('os mm, u32) comp)"
    using room by (simp add: u32_add_def)
  then show ?thesis
    using assms
    by (auto simp: record_sigbus_from_def emit_event_def reset_poison_def Let_def race_poison_def
        race_count_def race_clear_count_def race_clear_flag_def ledger_of_def quiet_def)
qed

end
