(* ===== verification/Demo_Mmap_Witnesses.thy ===== *)
theory Demo_Mmap_Witnesses
  imports Demo_Witnesses Victim_Nfs Mmap_Race
begin

text \<open>
  The theorems on guards, safe mappings and prefetching applied on the environment of
  \<open>Demo_Kernel\<close>.
\<close>

section \<open>Accessors\<close>

lemma demo_slice_first: "slice_safe first_byte (65536 + 4096) 1"
  by (rule slice_safe_first_byte)

theorem guard_read_recovers_witness:
  "\<exists>w'. sig_inv w' \<and> regs w' = demo_regs \<and>
     read_guard_read demo_libc 1 \<lparr>rg_raw = demo_raw\<rparr> 4096 1 first_byte demo_world
       = (Ret (Inl (Sigbus 69632)), w')"
  using guard_read_recovers [OF demo_signal_ok demo_sig_inv, of "\<lparr>rg_raw = demo_raw\<rparr>" first_byte 4096 1 1]
  by (auto simp: demo_mapped slice_safe_first_byte first_byte_def demo_bad_def)

lemma demo_first_recoverable: "slice_safe first_byte (rm_ptr (sm_raw demo_mmap) + 4096) (4097 - 4096)"
  using slice_safe_first_byte by simp

theorem read_recovers_witness:
  "\<exists>w'. safe_mmap_read demo_libc 1 4096 4097 first_byte (demo_mmap, demo_world)
     = (Ret (Inl (Sigbus 69632)), (faulted demo_mmap, w')) \<and> mm_inv demo_libc (faulted demo_mmap, w')"
  using read_recovers [OF demo_inv, of 4096 4097 first_byte 1] demo_first_recoverable
  by (auto simp: recovers_def first_byte_def demo_bad_def)

lemma demo_buffer_ok: "buffer_ok demo_libc demo_world 4096 16"
  by (rule steady_buffer_ok [OF demo_buffer])

lemma demo_holds: "holds_slice (sm_raw demo_mmap) 0 16"
  by (simp add: holds_slice_def)

theorem write_recovers_witness:
  "recovers demo_libc (safe_mmap_write demo_libc 1 0 4096 16)
     (copy_nonoverlapping demo_libc 4096 (rm_ptr (sm_raw demo_mmap) + 0) 16) (demo_mmap, demo_world)"
  by (rule write_recovers [OF demo_inv _ demo_copy_law demo_holds _ demo_buffer_ok]) simp_all

theorem read_into_recovers_witness:
  "recovers demo_libc (safe_mmap_read_into demo_libc 1 0 4096 16)
     (copy_nonoverlapping demo_libc (rm_ptr (sm_raw demo_mmap) + 0) 4096 16) (demo_mmap, demo_world)"
  by (rule read_into_recovers [OF demo_inv _ demo_copy_law demo_holds demo_buffer_ok]) simp

theorem probe_is_one_pass_witness:
  "recovers demo_libc (safe_mmap_probe demo_libc 1 0 8192)
     (probe_program (sm_raw demo_mmap) (2 ^ 12) (unat (0 :: usize)) (unat (0 :: usize) + unat (8192 :: usize)))
     (demo_mmap, demo_world)"
  by (rule probe_is_one_pass [OF demo_page demo_inv]) (simp_all add: holds_slice_def)

theorem faulting_read_poisons_witness:
  "\<exists>m' w'. attempts (safe_mmap_read demo_libc 1 4096 4097 first_byte) 5 (demo_mmap, demo_world)
     = (Ret (replicate 3 (Inl (Sigbus 69632)) @ replicate 2 (Inl (Poisoned 3))), (m', w')) \<and> poisoned m'"
proof -
  have "patience demo_mmap = 3" by (simp add: patience_def)
  then show ?thesis
    using faulting_read_poisons [OF demo_inv, of 4096 4097 first_byte 69632 1 5] demo_first_recoverable
    by (auto simp: first_byte_def demo_bad_def max_def)
qed

section \<open>Sessions\<close>

definition demo_ops :: "mm_op list" where
  "demo_ops = [OpProbe 0 8192, OpReset, OpRead 0 1 (\<lambda>p n. Return ())]"

lemma demo_admissible: "list_all (admissible demo_libc (sm_raw demo_mmap)) demo_ops"
proof -
  have "exec demo_libc (touch as) s \<noteq> (Died, s')" for as s s'
    by (induction as arbitrary: s) (auto split: if_splits)
  then have "survives demo_libc (touch as)" for as
    unfolding survives_def by (metis prod.collapse)
  then show ?thesis
    using demo_page
    by (auto simp: demo_ops_def holds_slice_def probe_program_def slice_safe_def survives_def)
qed

theorem mm_run_policy_witness:
  "\<exists>rs m' w'. mm_run demo_libc 1 demo_ops (demo_mmap, demo_world) = (Ret rs, (m', w'))
     \<and> mm_inv demo_libc (m', w') \<and> length rs = length demo_ops
     \<and> policy_run (limit demo_mmap) (faults demo_mmap) (zip demo_ops rs) = Some (faults m')"
  by (rule mm_run_policy [OF demo_inv demo_admissible])

theorem read_beyond_rejected_witness:
  "\<exists>w'. safe_mmap_read demo_libc 1 8000 9000 first_byte (demo_mmap, demo_world)
      = (Ret (Inl (OutOfBounds 8000 (9000 - 8000) (rm_len (sm_raw demo_mmap)))), (demo_mmap, w'))
     \<and> mm_inv demo_libc (demo_mmap, w') \<and> os w' = os demo_world \<and> regs w' = regs demo_world"
  by (rule read_beyond_rejected [OF demo_inv]) simp_all

theorem read_reversed_witness:
  "fst (safe_mmap_read demo_libc 1 10 5 first_byte (demo_mmap, demo_world)) =
     (if overflow_checks demo_libc then Panicked ''attempt to subtract with overflow''
      else Ret (Inl (OutOfBounds 10 (5 - 10) (rm_len (sm_raw demo_mmap)))))"
  by (rule read_reversed [OF demo_inv]) simp_all

theorem invalid_accesses_rejected_witness:
  "safe_mmap_write demo_libc 1 8191 4096 2 (demo_mmap, demo_world)
     = (Ret (Inl (OutOfBounds 8191 2 8192)), (demo_mmap, demo_world))"
  using invalid_accesses_rejected [of demo_mmap 8191 2 demo_libc 1 4096 demo_world 0]
  by (simp add: holds_slice_def)

theorem range_operations_reject_witness:
  "advise_range demo_libc Normal demo_raw 0xFFFFFFFFFFFFFFFF 2 (\<lambda>_. 0)
     = (Ret (Inl (Custom InvalidInput ''advise range exceeds mapping length'')), \<lambda>_. 0)"
  using range_operations_reject [of demo_raw "0xFFFFFFFFFFFFFFFF" 2 demo_libc Normal "\<lambda>_. 0" True] by simp

definition demo_plain :: "usize \<Rightarrow> bool" where
  "demo_plain a \<longleftrightarrow> \<not> demo_bad a"

lemma demo_plain_memory: "plain_memory demo_libc (\<lambda>s. s) demo_plain"
  by (auto simp: plain_memory_def demo_plain_def)

text \<open>From a buffer at 4096 that holds the bytes 0 to 15 into the mapping and back to one at 8192.\<close>

lemma demo_buffer2: "steady_buffer demo_libc 8192 16"
  by (auto simp: steady_buffer_def in_slice_def word_less_nat_alt intro!: demo_steady)

lemma demo_filled_inv: "mm_inv demo_libc (demo_mmap, demo_world\<lparr>os := ucast\<rparr>)"
  by (rule mm_inv_world [OF demo_inv]) (simp_all add: demo_sig_inv)

theorem write_read_into_roundtrip_witness:
  "\<exists>w'. and_then (safe_mmap_write demo_libc 1 0 4096 16)
       (\<lambda>_. safe_mmap_read_into demo_libc 1 0 8192 16) (demo_mmap, demo_world\<lparr>os := ucast\<rparr>)
      = (Ret (Inr ()), (demo_mmap, w')) \<and> mm_inv demo_libc (demo_mmap, w')
     \<and> (\<forall>i < unat (16 :: usize). os w' (8192 + of_nat i)
          = os (demo_world\<lparr>os := ucast\<rparr>) (4096 + of_nat i))"
proof (rule write_read_into_roundtrip [OF demo_filled_inv _ demo_copy_law demo_plain_memory _ demo_holds
      demo_buffer demo_buffer2])
  show "demo_plain a" if "in_slice 4096 16 a \<or> in_slice 8192 16 a
      \<or> in_slice (rm_ptr (sm_raw demo_mmap) + 0) 16 a" for a
    using that by (auto simp: in_slice_def demo_plain_def demo_bad_def word_le_nat_alt)
qed (auto simp: disjoint_slices_def in_slice_def)

section \<open>Opening and dropping\<close>

theorem open_establishes_witness:
  "\<exists>r w'. safe_mmap_options_open demo_libc safe_mmap_builder ''data.bin'' demo_world = (Ret r, w')
     \<and> sig_inv w'
     \<and> (case r of Inl e \<Rightarrow> not_opened demo_libc safe_mmap_builder ''data.bin'' demo_world w'
                | Inr m \<Rightarrow> opened demo_libc safe_mmap_builder ''data.bin'' demo_world m w'
                          \<and> mm_inv demo_libc (m, w'))"
  by (rule open_establishes [OF demo_signal_ok demo_mmap_law _ demo_sig_inv])
    (simp_all add: safe_mmap_builder_def
      safe_mmap_options_new_def callback_ok_def)

lemma demo_opened:
  "opened demo_libc (so_set_writable True (so_set_max_sigbus 3 safe_mmap_builder)) ''data.bin''
     (demo_world\<lparr>regs := registry_init\<rparr>) demo_mmap demo_world"
proof -
  have "map_length (so_set_writable True (so_set_max_sigbus 3 safe_mmap_builder)) 8192 = Inr 8192"
    by (simp add: map_length_def so_set_writable_def so_set_max_sigbus_def safe_mmap_builder_def
        safe_mmap_options_new_def)
  then show ?thesis
    using demo_raw_ok reg_inv_init
    by (auto simp: opened_def demo_regions region_of_def so_set_writable_def so_set_max_sigbus_def
        safe_mmap_builder_def safe_mmap_options_new_def demo_mmap_def)
qed

theorem open_drop_roundtrip_witness:
  "\<exists>w''. safe_mmap_drop demo_libc demo_mmap demo_world = (Ret (), w'') \<and> sig_inv w''
     \<and> regions_of (regs w'') = regions_of (regs (demo_world\<lparr>regs := registry_init\<rparr>))
     \<and> os w'' = fs_close demo_libc (sm_file demo_mmap)
          (sys_munmap demo_libc (rm_ptr (sm_raw demo_mmap)) (rm_len (sm_raw demo_mmap)) (os demo_world))"
  by (rule open_drop_roundtrip [OF demo_sig_inv demo_opened])
    (simp add: regions_of_def registry_init_def)

section \<open>Prefetching\<close>

definition demo_pa :: prefetch_args where
  "demo_pa = \<lparr>pa_base = 65536, pa_offset = 0, pa_len = 1, pa_timeout = 5\<rparr>"

lemma demo_args: "pf_args_ok demo_libc demo_raw demo_pa"
  using demo_signal_ok demo_page by (auto simp: pf_args_ok_def demo_pa_def holds_slice_def)

lemma demo_pass: "pass demo_libc demo_raw 0 1 0 (\<lambda>_. 0) = (Finished (), \<lambda>_. 0)"
  by (simp add: pass_def probe_program_def stride.simps demo_bad_def)

text \<open>A finished run under a schedule that does not alternate strictly.\<close>

definition demo_schedule :: "sched list" where
  "demo_schedule = concat (replicate 10 [Caller False, Worker, Worker, Caller False])"

lemma demo_fair: "fair_rounds 10 demo_schedule"
  unfolding fair_rounds_def demo_schedule_def
  by (rule exI [of _ "replicate 10 [Caller False, Worker, Worker, Caller False]"]) (auto simp: both_turn_def)

definition demo_prefetched :: "demo prefetch" where
  "demo_prefetched = pf_run demo_libc 2 demo_pa demo_schedule (prefetch_start demo_world)"

lemma demo_prefetch_reach: "pf_reach demo_libc 2 demo_pa demo_world demo_prefetched"
  unfolding demo_prefetched_def by (rule pf_run_reach [OF pf_reach.start])

lemma demo_prefetch_alive: "pf_dead demo_prefetched = None"
proof -
  have "pf_inv demo_libc demo_raw 0 1 demo_world demo_prefetched"
    using pf_reach_inv [OF demo_args demo_mapped demo_sig_inv demo_prefetch_reach]
    by (simp add: demo_pa_def)
  then show ?thesis using demo_pass by (auto simp: pf_inv_def split: if_splits)
qed

lemma demo_prefetch_returned: "\<exists>r. pf_caller demo_prefetched = C_Returned r"
proof -
  have "ended demo_prefetched"
    unfolding demo_prefetched_def
    by (rule fair_rounds_end [OF demo_args demo_mapped demo_sig_inv pf_reach.start demo_fair])
      (simp add: pf_rank_def prefetch_start_def demo_pa_def)
  then show ?thesis using demo_prefetch_alive by (simp add: ended_def)
qed

theorem prefetch_outcome_witness:
  "\<exists>r. pf_caller demo_prefetched = C_Returned r \<and>
     (r = Inr () \<or> (\<exists>a. r = Inl (Sigbus a)) \<or> r = Inl (Timeout 0 1 5))"
proof -
  obtain r where r: "pf_caller demo_prefetched = C_Returned r" using demo_prefetch_returned by blast
  from prefetch_outcome [OF demo_args demo_mapped demo_sig_inv demo_prefetch_reach r demo_prefetch_alive]
    r show ?thesis by (auto simp: demo_pa_def)
qed

theorem prefetch_waits_for_worker_witness: "pf_worker demo_prefetched = W_Done"
proof -
  obtain r where "pf_caller demo_prefetched = C_Returned r" using demo_prefetch_returned by blast
  then show ?thesis by (rule prefetch_waits_for_worker [OF demo_prefetch_reach])
qed

theorem prefetch_terminates_witness:
  "pf_rank demo_pa ((prefetch_start demo_world)\<lparr>pf_caller := C_Wait\<rparr>) < pf_rank demo_pa (prefetch_start demo_world)
     \<and> pf_rank demo_pa (prefetch_start demo_world) < unat (pa_len demo_pa) + 10"
proof -
  have "pf_step demo_libc 2 demo_pa (prefetch_start demo_world) ((prefetch_start demo_world)\<lparr>pf_caller := C_Wait\<rparr>)"
    by (rule pf_step.caller [where b = False]) (simp add: prefetch_start_def caller_step.simps)
  then show ?thesis
    using prefetch_terminates [OF demo_args demo_mapped demo_sig_inv pf_reach.start, of 2] by blast
qed

theorem prefetch_with_timeout_ok_witness:
  "\<exists>r m' w'. prefetch_with_timeout demo_libc 2 demo_schedule 0 1 5 (demo_mmap, demo_world)
     = (Ret r, (m', w')) \<and> mm_inv demo_libc (m', w')"
  using prefetch_with_timeout_ok [OF demo_inv _ demo_page, of 0 1 10 demo_schedule 2 5] demo_pass demo_fair
  by (auto simp: holds_slice_def)

text \<open>Probing the last byte of the first page and the first byte of the lost page finds nothing.\<close>

lemma demo_lost_page: "lost_page demo_libc demo_raw (2 ^ 12) 1"
  unfolding lost_page_def
proof (intro allI impI)
  fix x s assume "x < unat (rm_len demo_raw)"
  then have x: "x < 8192" by simp
  then have "unat (of_nat x :: usize) = x" by (simp add: unat_of_nat)
  then have "unat (65536 + of_nat x :: usize) = 65536 + x" using x by (simp add: unat_word_ariths)
  then have "demo_bad (65536 + of_nat x) \<longleftrightarrow> 4096 \<le> x"
    using x by (simp add: demo_bad_def word_le_nat_alt word_less_nat_alt)
  moreover have "x div 4096 = 1 \<longleftrightarrow> 4096 \<le> x" using x by linarith
  ultimately show "fst (mem_load demo_libc (rm_ptr demo_raw + of_nat x) s) \<noteq> SegFault
      \<and> (fst (mem_load demo_libc (rm_ptr demo_raw + of_nat x) s) = BusError \<longleftrightarrow> x div 2 ^ 12 = 1)"
    by simp
qed

theorem probe_reports_lost_page_witness:
  "fst (safe_mmap_probe demo_libc 1 4095 2 (demo_mmap, demo_world)) = Ret (Inr ())"
  using probe_reports_lost_page [OF demo_page demo_inv, of 4095 2 1 1] demo_lost_page
  by (simp add: holds_slice_def touched_pages_eq)

theorem poisoned_refuses_witness:
  "safe_mmap_read demo_libc 1 0 1 first_byte (demo_mmap\<lparr>poisoned := True\<rparr>, demo_world)
     = (Ret (Inl (Poisoned 0)), (demo_mmap\<lparr>poisoned := True\<rparr>, demo_world))"
  using poisoned_refuses [of "demo_mmap\<lparr>poisoned := True\<rparr>" demo_libc 1 0 1 first_byte demo_world 0 0 0 "[]" 0]
  by simp

section \<open>Concurrent poisoning\<close>

text \<open>Two threads count a fault each before either of them stores the flag; the limit is 2.\<close>

definition demo_race :: race where
  "demo_race = race_poison 2 1 1 (race_poison 2 2 2 (race_count True 2 (race_count True 1 race_start)))"

lemma demo_race_reach: "race_reach True False 2 demo_race"
proof -
  let ?s1 = "race_count True 1 race_start"
  let ?s2 = "race_count True 2 ?s1"
  let ?s3 = "race_poison 2 2 2 ?s2"
  have "race_reach True False 2 ?s1"
    by (rule race_reach.step [OF race_reach.start race_step.count]) (simp add: race_start_def)
  then have "race_reach True False 2 ?s2"
    by (rule race_reach.step [OF _ race_step.count]) (simp add: race_count_def race_start_def)
  then have "race_reach True False 2 ?s3"
    by (rule race_reach.step [OF _ race_step.poison]) (simp add: race_count_def race_start_def)
  then show ?thesis
    unfolding demo_race_def
    by (rule race_reach.step [OF _ race_step.poison])
      (simp add: race_poison_def race_count_def race_start_def)
qed

theorem concurrent_poisoning_exact_witness:
  "unat (ra_count demo_race) = ra_faults demo_race
     \<and> (ra_poisoned demo_race \<longleftrightarrow> max 1 (unat (2 :: u32)) \<le> ra_faults demo_race)"
  by (rule concurrent_poisoning_exact [OF demo_race_reach])
    (simp_all add: demo_race_def quiet_def race_poison_def race_count_def race_start_def)

theorem reset_race_stays_poisoned_witness:
  "\<exists>s1 s2 s3 s4. race_step True True 1 race_start s1 \<and> ra_phase s1 1 = Counted 1
     \<and> race_step True True 1 s1 s2 \<and> race_step True True 1 s2 s3 \<and> ra_phase s3 1 = Counted 1
     \<and> race_step True True 1 s3 s4 \<and> quiet s4 \<and> ra_count s4 = 0 \<and> ra_poisoned s4"
  using reset_race_stays_poisoned [of 1 2 race_start 1 True]
  by (simp add: Let_def quiet_def race_start_def) blast

theorem race_steps_sequential_witness:
  "\<exists>m'. reset_poison (demo_mmap, demo_world) = (Ret (), (m', demo_world)) \<and>
        (let s = race_clear_count 1 (race_clear_flag 1 (ledger_of demo_mmap))
         in ra_count s = sigbus_count m' \<and> ra_poisoned s = poisoned m' \<and> quiet s)"
  using race_steps_sequential [of demo_mmap demo_libc "Sigbus 0" demo_world 1] by simp

section \<open>A life with faults\<close>

text \<open>
  Three operations run into the lost page, the next access is refused, a reset lifts the poison.
\<close>

definition demo_touch :: "unit slice_fn" where
  "demo_touch p n = Load p (\<lambda>b. Return ())"

definition demo_life :: "mm_op list" where
  "demo_life =
     [OpProbe 0 8192, OpRead 0 1 demo_touch, OpRead 4096 4097 demo_touch, OpProbe 0 8192,
      OpRead 0 1 demo_touch, OpReset, OpRead 0 1 demo_touch]"

definition demo_results :: "(access_error + unit) list" where
  "demo_results =
     [Inl (Sigbus 69632), Inr (), Inl (Sigbus 69632), Inl (Sigbus 69632), Inl (Poisoned 3), Inr (), Inr ()]"

lemma demo_touch_safe: "slice_safe demo_touch p 1"
  by (simp add: slice_safe_def demo_touch_def in_slice_def)

lemma demo_survives: "survives demo_libc (touch as)" "survives demo_libc (demo_touch p n)"
proof -
  have "exec demo_libc (touch as) s \<noteq> (Died, s')" for s s'
    by (induction as arbitrary: s) (auto split: if_splits)
  then show "survives demo_libc (touch as)"
    unfolding survives_def by (metis prod.collapse)
qed (simp add: survives_def demo_touch_def)

lemma demo_life_admissible:
  assumes "rm_len raw = 8192"
  shows "list_all (admissible demo_libc raw) demo_life"
  using assms demo_page demo_survives demo_touch_safe
  by (auto simp: demo_life_def holds_slice_def probe_program_def)

lemma demo_steps:
  assumes inv: "mm_inv demo_libc (m, w)" and np: "\<not> poisoned m" and ev: "on_event m = None"
    and raw: "rm_ptr (sm_raw m) = 65536" "rm_len (sm_raw m) = 8192"
  shows "\<exists>w'. mm_step demo_libc 1 (OpProbe 0 8192) (m, w) = (Ret (Inl (Sigbus 69632)), (faulted m, w'))
      \<and> mm_inv demo_libc (faulted m, w')"
    and "\<exists>w'. mm_step demo_libc 1 (OpRead 0 1 demo_touch) (m, w) = (Ret (Inr ()), (m, w'))
      \<and> mm_inv demo_libc (m, w')"
    and "\<exists>w'. mm_step demo_libc 1 (OpRead 4096 4097 demo_touch) (m, w)
        = (Ret (Inl (Sigbus 69632)), (faulted m, w')) \<and> mm_inv demo_libc (faulted m, w')"
proof -
  have "recovers demo_libc (safe_mmap_probe demo_libc 1 0 8192)
     (probe_program (sm_raw m) (2 ^ 12) (unat (0 :: usize)) (unat (0 :: usize) + unat (8192 :: usize))) (m, w)"
    by (rule safe_mmap_probe_recovers [OF demo_page inv np]) (simp add: holds_slice_def raw)
  then show "\<exists>w'. mm_step demo_libc 1 (OpProbe 0 8192) (m, w) = (Ret (Inl (Sigbus 69632)), (faulted m, w'))
      \<and> mm_inv demo_libc (faulted m, w')"
    using raw notify_silent [OF ev]
    by (auto simp: recovers_def probe_program_def stride.simps demo_bad_def)
next
  have "recovers demo_libc (safe_mmap_read demo_libc 1 0 1 demo_touch) (demo_touch (rm_ptr (sm_raw m) + 0) (1 - 0)) (m, w)"
    by (rule safe_mmap_read_recovers [OF inv np]) (simp_all add: raw demo_touch_safe)
  then show "\<exists>w'. mm_step demo_libc 1 (OpRead 0 1 demo_touch) (m, w) = (Ret (Inr ()), (m, w'))
      \<and> mm_inv demo_libc (m, w')"
    using raw by (auto simp: recovers_def demo_touch_def demo_bad_def)
next
  have "recovers demo_libc (safe_mmap_read demo_libc 1 4096 4097 demo_touch)
      (demo_touch (rm_ptr (sm_raw m) + 4096) (4097 - 4096)) (m, w)"
    by (rule safe_mmap_read_recovers [OF inv np]) (simp_all add: raw demo_touch_safe)
  then show "\<exists>w'. mm_step demo_libc 1 (OpRead 4096 4097 demo_touch) (m, w)
        = (Ret (Inl (Sigbus 69632)), (faulted m, w')) \<and> mm_inv demo_libc (faulted m, w')"
    using raw notify_silent [OF ev] by (auto simp: recovers_def demo_touch_def demo_bad_def)
qed

lemma demo_life_run:
  assumes inv: "mm_inv demo_libc (m, w)" and np: "\<not> poisoned m" and ev: "on_event m = None"
    and raw: "rm_ptr (sm_raw m) = 65536" "rm_len (sm_raw m) = 8192"
    and cnt: "sigbus_count m = 0" "max_sigbus m = 3"
  shows "\<exists>m' w'. mm_run demo_libc 1 demo_life (m, w) = (Ret demo_results, (m', w'))"
proof -
  let ?m1 = "faulted m" and ?m2 = "faulted (faulted m)" and ?m3 = "faulted (faulted (faulted m))"
  have fields: "\<not> poisoned ?m1" "\<not> poisoned ?m2" "poisoned ?m3" "sigbus_count ?m3 = 3"
      "on_event ?m1 = None" "on_event ?m2 = None" "sm_raw ?m1 = sm_raw m" "sm_raw ?m2 = sm_raw m"
      "sm_raw ?m3 = sm_raw m"
    using np ev cnt by (simp_all add: faulted_def word_le_nat_alt)
  obtain w1 where s1: "mm_step demo_libc 1 (OpProbe 0 8192) (m, w) = (Ret (Inl (Sigbus 69632)), (?m1, w1))"
      "mm_inv demo_libc (?m1, w1)"
    using demo_steps(1) [OF inv np ev raw] by blast
  obtain w2 where s2: "mm_step demo_libc 1 (OpRead 0 1 demo_touch) (?m1, w1) = (Ret (Inr ()), (?m1, w2))"
      "mm_inv demo_libc (?m1, w2)"
    using demo_steps(2) [OF s1(2) fields(1,5)] raw fields by auto
  obtain w3 where s3: "mm_step demo_libc 1 (OpRead 4096 4097 demo_touch) (?m1, w2) = (Ret (Inl (Sigbus 69632)), (?m2, w3))"
      "mm_inv demo_libc (?m2, w3)"
    using demo_steps(3) [OF s2(2) fields(1,5)] raw fields by auto
  obtain w4 where s4: "mm_step demo_libc 1 (OpProbe 0 8192) (?m2, w3) = (Ret (Inl (Sigbus 69632)), (?m3, w4))"
      "mm_inv demo_libc (?m3, w4)"
    using demo_steps(1) [OF s3(2) fields(2,6)] raw fields by auto
  have s5: "mm_step demo_libc 1 (OpRead 0 1 demo_touch) (?m3, w4) = (Ret (Inl (Poisoned 3)), (?m3, w4))"
    using acc_read.gate [OF fields(3)] fields(4) by simp
  obtain m6 where s6: "mm_step demo_libc 1 OpReset (?m3, w4) = (Ret (Inr ()), (m6, w4))" "mm_inv demo_libc (m6, w4)"
      "sm_raw m6 = sm_raw ?m3" "on_event m6 = on_event ?m3" "faults m6 = 0" "limit m6 = limit ?m3"
    using reset_step [OF s4(2), of 1] by blast
  have "\<not> poisoned m6"
    using s6(2,5) by (simp add: mm_inv_def poison_inv_iff limit_def)
  then obtain w7 where s7: "mm_step demo_libc 1 (OpRead 0 1 demo_touch) (m6, w4) = (Ret (Inr ()), (m6, w7))"
    using demo_steps(2) [OF s6(2)] s6(3,4) raw fields ev by (auto simp: faulted_def)
  show ?thesis
    using s1(1) s2(1) s3(1) s4(1) s5 s6(1) s7
    by (simp add: demo_life_def demo_results_def del: mm_step.simps)
qed

section \<open>Scenarios\<close>

definition demo_host :: "demo host" where
  "demo_host =
     \<lparr>h_libc = demo_libc, fs_write = (\<lambda>path bytes s. (Inr (), s)), fs_remove = (\<lambda>path s. s),
      path_join = (\<lambda>d n. d @ ''/'' @ n), temp_dir = ''/tmp'', thread_sleep = (\<lambda>d s. s),
      show_io_error = (\<lambda>e. ''error''), show_dur = (\<lambda>d. ''time'')\<rparr>"

text \<open>
  For the test file: a kernel whose state is the size of one file, under whatever path. The file is
  mapped at 65536, two pages at a time; the pages beyond its end raise SIGBUS.
\<close>

definition beyond_end :: "nat \<Rightarrow> usize \<Rightarrow> bool" where
  "beyond_end n a \<longleftrightarrow> 65536 \<le> unat a \<and> unat a < 73728 \<and> page_ceil 4096 n \<le> unat a - 65536"

definition file_libc :: "nat libc" where
  "file_libc =
     \<lparr>overflow_checks = True, target_linux = True, SC_PAGESIZE = 4096,
      PROT_READ = 1, PROT_WRITE = 2, PROT_NONE = 0, MAP_PRIVATE = 2, MAP_SHARED = 1,
      MAP_ANON = 32, MAP_POPULATE = 32768, MAP_FAILED = - 1,
      MADV_NORMAL = 0, MADV_SEQUENTIAL = 2, MADV_RANDOM = 1, MADV_WILLNEED = 3, MADV_DONTNEED = 4,
      MS_ASYNC = 1, MS_SYNC = 4, LOCK_EX = 2, LOCK_SH = 1, LOCK_NB = 4,
      errno = (\<lambda>s. 0),
      sys_mmap = (\<lambda>hint len prot flags fd off s. (if len = 8192 then 65536 else - 1, s)),
      sys_munmap = (\<lambda>p n s. s),
      sys_madvise = (\<lambda>p n a s. (0, s)),
      sys_msync = (\<lambda>p n f s. (0, s)),
      sys_mincore = (\<lambda>p n s. ((0, []), s)),
      sys_mlock = (\<lambda>p n s. (0, s)),
      sys_munlock = (\<lambda>p n s. (0, s)),
      sys_pread = (\<lambda>fd n pos s. ((0, []), s)),
      sys_flock = (\<lambda>fd op s. (0, s)),
      sys_sigaction = (\<lambda>s. 0),
      sys_key_create = (\<lambda>s. (0, 5)),
      sys_setspecific = (\<lambda>s. 0),
      fs_open = (\<lambda>wr path s. (Inr 3, s)),
      fs_len = (\<lambda>fd s. (Inr (of_nat s), s)),
      fs_close = (\<lambda>fd s. s),
      mem_load = (\<lambda>a s. (if beyond_end s a then BusError else Value 120, s)),
      mem_store = (\<lambda>a b s. (Value 0, s)),
      copy_order = (\<lambda>n. [0..<n]),
      sys_statfs = (\<lambda>path s. ((0, \<lparr>f_type = 0, f_fstypename = []\<rparr>), s)),
      alloc_ok = (\<lambda>n. True)\<rparr>"

definition file_host :: "nat host" where
  "file_host =
     \<lparr>h_libc = file_libc, fs_write = (\<lambda>path bytes s. (Inr (), length bytes)), fs_remove = (\<lambda>path s. s),
      path_join = (\<lambda>d n. d @ ''/'' @ n), temp_dir = ''/tmp'', thread_sleep = (\<lambda>d s. s),
      show_io_error = (\<lambda>e. ''error''), show_dur = (\<lambda>d. ''time'')\<rparr>"

definition file_view :: "nat fs_view" where
  "file_view = \<lparr>file_size = (\<lambda>s path. Some s), open_size = (\<lambda>s fd. Some s), no_page = beyond_end\<rparr>"

lemma file_libc_simps [simp]:
  "h_libc file_host = file_libc" "overflow_checks file_libc = True" "SC_PAGESIZE file_libc = 4096"
  "sys_mmap file_libc hint len prot flags fd off s = (if len = 8192 then 65536 else - 1, s)"
  "MAP_FAILED file_libc = - 1" "fs_open file_libc wr path s = (Inr 3, s)"
  "fs_write file_host path bytes s = (Inr (), length bytes)"
  "mem_load file_libc a s = (if beyond_end s a then BusError else Value 120, s)"
  by (simp_all add: file_libc_def file_host_def)

lemma file_signal_ok: "signal_ok file_libc"
  by (simp add: signal_ok_def pthread_ok_def file_libc_def)

lemma file_eof_law: "eof_law file_libc 4096 file_view"
proof -
  have "beyond_end n (65536 + off)" if "page_ceil 4096 n \<le> unat off" "unat off < 8192" for n and off :: usize
  proof -
    have "unat (65536 + off) = 65536 + unat off"
      using that(2) by (subst unat_add_no_wrap) simp_all
    then show ?thesis using that by (simp add: beyond_end_def)
  qed
  then show ?thesis by (auto simp: eof_law_def file_view_def split: if_splits)
qed

lemma file_victim_env: "victim_env file_host 12 file_view"
  using file_eof_law
  by (simp add: victim_env_def file_signal_ok mmap_law_def page_pow2_def write_law_def open_law_def
      lost_byte_def Let_def) (simp add: file_view_def)

definition file_world :: "nat world" where
  "file_world = world_init (\<lambda>_ _. False) 0"

lemma file_sig_inv: "sig_inv file_world"
  using thread_inv_init [of "\<lambda>_ _. False" 0] reg_inv_init
  by (simp add: file_world_def sig_inv_def handler_inv_def)
    (simp add: world_init_def registry_init_def usable_def reg_inv_def retired_def)

lemma file_created: "\<exists>tm pw. create_sigbus_mapping file_host ''/tmp'' name (file_world, []) = (Ret tm, pw)"
proof -
  let ?raw = "\<lparr>rm_ptr = 65536, rm_len = 8192, rm_writable = False\<rparr>"
  have map: "raw_mmap_map file_libc 3 0 8192 s = (Ret (Inr ?raw), s)" for s
    by (simp add: raw_mmap_map_def mmap_options_map_def mmap_options_defs page_size_def map_flags_def Let_def)
  have ok: "raw_ok file_libc ?raw" by (simp add: raw_ok_def)
  have inv: "sig_inv (file_world\<lparr>os := Suc 0\<rparr>)" using file_sig_inv by simp
  show ?thesis
    using register_and_install_ok [OF file_signal_ok inv ok] map
    by (auto simp: create_sigbus_mapping_def Let_def expect_def page_size_def usize_mul_def on_os_apply)
qed

definition demo_turns :: "tid list" where
  "demo_turns = concat (replicate 11 [2..<10])"

lemma demo_turns_enough: "i < 8 \<Longrightarrow> 11 \<le> count_list demo_turns (i + 2)"
proof -
  have "count_list (concat (replicate n xs)) x = n * count_list xs x" for n xs and x :: tid
    by (induction n) simp_all
  moreover assume "i < 8"
  then have "count_list [2..<10] (i + 2) = 1" by (simp add: count_list_eq_length_filter upt_rec numeral_eq_Suc less_Suc_eq) auto
  ultimately show ?thesis by (simp add: demo_turns_def)
qed

theorem scenarios_recover_witness:
  "(\<exists>w'. main file_host 1 (\<lambda>i. i + 2) demo_turns [] [''victim'', ''--scenario=sigbus_basic'', ''--dir=/tmp''] (file_world, [])
          = (Ret 0, (w', [Out ''recovered''])) \<and> sig_inv w')
    \<and> (\<exists>w'. main file_host 1 (\<lambda>i. i + 2) demo_turns [] [''victim'', ''--scenario=multi_thread'', ''--dir=/tmp''] (file_world, [])
          = (Ret 0, (w', [Out ''recovered''])) \<and> sig_inv w')
    \<and> (\<exists>w'. main file_host 1 (\<lambda>i. i + 2) demo_turns [] [''victim'', ''--scenario=poison'', ''--dir=/tmp''] (file_world, [])
          = (Ret 0, (w', [Out ''poisoned after 2 faults''])) \<and> sig_inv w')"
proof -
  obtain tm pw tm' pw' tm2 pw2
    where c: "create_sigbus_mapping file_host ''/tmp'' ''sigbus_basic.bin'' (file_world, []) = (Ret tm, pw)"
      "create_sigbus_mapping file_host ''/tmp'' ''sigbus_mt.bin'' (file_world, []) = (Ret tm', pw')"
      "create_sigbus_mapping file_host ''/tmp'' ''sigbus_poison.bin'' (file_world, []) = (Ret tm2, pw2)"
    using file_created by meson
  show ?thesis by (rule scenarios_recover [OF file_victim_env file_sig_inv _ c]) (rule demo_turns_enough)
qed

theorem nfs_failure_survives_witness:
  "\<exists>w' ls. main demo_host 1 (\<lambda>i. i + 2) [] [] [''victim'', ''--scenario=nfs_failure'', ''--file=data.bin''] (demo_fresh, [])
       = (Ret 0, (w', ls @ [Out ''results: 1 pages ok, 1 faults caught'', Out ''nfs_failure_recovered'']))
     \<and> sig_inv w' \<and> regions_of (regs w') = []"
proof -
  have L: "h_libc demo_host = demo_libc" by (simp add: demo_host_def)
  obtain m w1 where m: "safe_mmap_options_open demo_libc safe_mmap_builder ''data.bin'' demo_fresh = (Ret (Inr m), w1)"
      "rm_ptr (sm_raw m) = 65536" "rm_len (sm_raw m) = 8192"
    using demo_open by blast
  have "regions_of (regs demo_fresh) = []" by (simp add: regions_of_def registry_init_def)
  moreover have "survey demo_libc 3 65536 (stride 4096 0 8192) 0 s = (1, 1)" for s
    by (simp add: stride.simps demo_bad_def)
  moreover have "decimal 1 = ''1''" by (simp add: decimal_def digits_in.simps digit_def)
  ultimately show ?thesis
    using nfs_failure_survives [where H = demo_host and k = 12 and w = demo_fresh and path = "''data.bin''"
        and m = m and ?w1.0 = w1 and t = 1 and tids = "\<lambda>i. i + 2" and sch = "[]" and cs = "[]"]
      demo_signal_ok demo_mmap_law demo_page demo_fresh_inv m
    by (simp add: L safe_mmap_open_def stays_mapped_def demo_bad_def)
qed

end
