(* ===== verification/Spec2Isabelle.thy ===== *)
theory Spec2Isabelle
  imports Demo_Mmap_Witnesses
begin

text \<open>
  A verification library for \<^verbatim>\<open>mmap-shield\<close>, a Rust crate that maps files into memory
  and turns SIGBUS faults on the mapping into error values.

  \<^bold>\<open>The program.\<close> \<open>SafeMmap\<close> (\<^verbatim>\<open>src/mmap/mod.rs\<close>) opens a file, maps it through the raw
  layer (\<^verbatim>\<open>src/sys/mmap.rs\<close>), installs the process-wide SIGBUS handler and registers the
  mapped region (\<^verbatim>\<open>src/signal\<close>). Every access runs inside \<open>with_sigbus_protection\<close>: a
  \<open>sigsetjmp\<close> checkpoint taken by the C shim \<^verbatim>\<open>csrc/sigsetjmp_shim.c\<close>, to which the handler
  jumps back when the faulting thread stands inside a protected call and the address lies in a
  registered region. Faults are counted; at a limit the mapping is poisoned and refuses further
  access. \<open>ReadGuard\<close> (\<^verbatim>\<open>src/mmap/guard.rs\<close>) is the unchecked reader below \<open>SafeMmap\<close>;
  \<^verbatim>\<open>src/mmap/prefetch.rs\<close> touches pages on a worker thread under a deadline;
  \<^verbatim>\<open>src/fallback\<close> and \<^verbatim>\<open>src/sys/pread.rs\<close> read files without mapping them;
  \<^verbatim>\<open>src/sys/fs_detect.rs\<close> classifies filesystems; \<^verbatim>\<open>src/bin/sigbus_victim.rs\<close> drives
  the crate end to end.

  \<^bold>\<open>How it is modelled.\<close> A call is a computation \<open>'s \<Rightarrow> 'a outcome \<times> 's\<close> (\<open>Shield_Prelude\<close>): the
  outcome is a return value, a panic, an abort, death by a signal, a pending \<open>siglongjmp\<close>,
  undefined behaviour, or exhausted fuel. A Rust \<open>Result\<close> is a sum with the error on the left.
  Integers keep their width; arithmetic that Rust checks only in debug builds takes the build
  profile from the environment. The environment itself, everything the crate takes from the
  kernel, libc and the standard library, is one record \<open>'os libc\<close> over an arbitrary type of kernel
  states (\<open>Sys_Libc\<close>), and what a theorem needs of it is a named hypothesis
  (\<open>page_pow2\<close>, \<open>mmap_law\<close>, \<open>copy_law\<close>, \<open>pthread_ok\<close>, \<open>signal_ok\<close>, \<open>pread_law\<close>,
  \<open>pread_progress\<close>, and for the file system \<open>write_law\<close>, \<open>open_law\<close>, \<open>eof_law\<close>). Closures over mapped memory are programs of single-byte loads and stores
  that may panic or nest protected calls (\<open>access\<close> in \<open>Signal_Protect\<close>); their reference semantics
  \<open>exec\<close> knows nothing of signals.

  \<^bold>\<open>Theories.\<close>
  \<^item> \<open>Shield_Prelude\<close>: outcomes, computations, checked arithmetic, page alignment on words.
  \<^item> \<open>Shield_Error\<close> (\<^verbatim>\<open>src/error.rs\<close>): error values and their \<open>Display\<close>; formatting panics
    exactly on overflowing ranges in debug builds.
  \<^item> \<open>Sys_Libc\<close> (the environment and \<^verbatim>\<open>src/sys/page.rs\<close>), \<open>Sys_Mmap\<close> (\<^verbatim>\<open>src/sys/mmap.rs\<close>,
    \<^verbatim>\<open>src/sys/advice.rs\<close>): builder, \<open>map\<close>, and the range operations, which are shown to reach
    exactly the pages of the range; the locale \<open>range_guarded\<close> is the contract of a range check
    and is interpreted for every operation that makes one.
  \<^item> \<open>Signal_Registry\<close>: snapshots behind an atomic pointer with two-generation reclamation. The
    locale \<open>region_registry\<close> is what the handler relies on; sequences of mutations refine a plain
    list of regions. A mutation is also cut in two, rotating the generations and publishing, and
    handlers interleaved with the halves hold a live snapshot exactly for four of them.
  \<^item> \<open>Signal_Thread\<close>: the process state (\<open>world\<close>) and the per-thread recovery state behind a pthread
    key, with its ownership invariant. \<open>Signal_Handler\<close>: installation and the handler's decision.
  \<^item> \<open>Signal_Protect\<close>: \<open>with_sigbus_protection\<close> with trampoline and C shim; a protected call ends as
    \<open>exec\<close> says. The locale \<open>protected_access\<close> is the promise to the mapping layer. Also its limits:
    nested calls, panicking closures, faults outside registered regions. \<open>Signal_Sound\<close>: for
    closures of any kind a call started in a well-formed state never meets undefined behaviour and
    leaves a well-formed state if it returns.
  \<^item> \<open>Signal_Steps\<close>: the same call cut into the steps between which other threads run, with the handler
    cut where it has loaded the snapshot pointer. A thread alone through the steps does what the
    whole call does. \<open>Signal_Concurrent\<close>: any interleaving of threads, with the halves of
    registrations and unregistrations in between, refines threads that access memory directly and
    stop at their first fault, as long as at most four halves overtake a running handler (the locale
    \<open>stuttering_simulation\<close> carries the step-wise argument to runs); with one more, the handler
    reads freed memory.
  \<^item> \<open>Mmap_Guard\<close>, \<open>Mmap_Safe\<close>: the guard and every operation of \<open>SafeMmap\<close> and its builder.
    \<open>Mmap_Access\<close>: the invariant of an open mapping and the contract \<open>recovers\<close> of its accessors;
    the locales \<open>poison_gated\<close> and \<open>accessor\<close> carry what follows for each of them. \<open>Mmap_Session\<close>:
    arbitrary sequences of operations refine a fault counter with a limit; rejected accesses; the
    round trip of write and copy back. \<open>Mmap_Lifecycle\<close>: open and drop. \<open>Mmap_Race\<close>: the atomic
    steps of concurrent fault recording and resets.
  \<^item> \<open>Mmap_Prefetch\<close>: worker and caller as interleaved steps, with safety, termination, progress and
    the meaning of the result; which pages a pass touches.
  \<^item> \<open>Fallback\<close>, \<open>Fs_Detect\<close>: the \<open>pread\<close> loop and reader, filesystem detection. \<open>Victim_Threads\<close>: the
    test helpers of \<^verbatim>\<open>src/lib.rs\<close> and threads that read through guards, interleaved.
    \<open>Victim\<close>, \<open>Victim_Nfs\<close>: the end-to-end scenarios, the last on a server that goes away.
  \<^item> \<open>Demo_Kernel\<close>, \<open>Demo_Witnesses\<close>, \<open>Demo_Mmap_Witnesses\<close>: a concrete environment and every theorem
    with hypotheses applied in it.

  \<^bold>\<open>Loops and fuel.\<close> The loop of \<open>probe\<close> gets as many iterations as there are pages in the range
  plus two, the loop of \<open>pread_exact\<close> one more than the buffer has bytes; both are shown to be
  enough. \<open>prefetch_with_deadline\<close> runs under an explicit schedule; every schedule that can be
  cut into as many rounds as the range has bytes, plus nine, in each of which both threads get a turn,
  in any order and number, reaches the end; one that exhausts the turns of the caller first does not. The threads of the
  multi-thread scenario run under a schedule too; eleven turns for each are shown to be enough.

  \<^bold>\<open>Choices.\<close> The registry's mutations are serialised by its mutex, so sequential theorems take them
  whole; where handlers run beside them they are two steps, and a mapping is never unregistered
  while a protected call on it is pending, as the borrow checker ensures. The allocator of snapshots never reuses a pointer, so that every
  use after free is visible as undefined behaviour. \<open>copy_nonoverlapping\<close> visits its bytes in an
  arbitrary order taken from the environment. Memory is accessed byte by byte. A \<open>Once\<close> is complete,
  incomplete or poisoned. One iteration of the prefetch worker, the test of the cancellation flag and the
  touch of a page, is one step; a worker stalled in a page fault is one that gets no turn. An event
  callback acts on the process, not on the mapping that calls it.

  \<^bold>\<open>Not modelled.\<close> The size and layout of \<open>sigjmp_buf\<close>; \<open>Debug\<close> output and error sources; leaks of
  values owned by a closure that is abandoned by \<open>siglongjmp\<close>; signals delivered during the critical
  section of the registry on the same thread; weak memory beyond the interleavings of atomic
  operations; failure to spawn the prefetch thread; \<^verbatim>\<open>build.rs\<close>, the module declarations of
  \<^verbatim>\<open>src/lib.rs\<close> and \<^verbatim>\<open>src/sys/mod.rs\<close>, benches and tests.
\<close>

section \<open>Across the components\<close>

text \<open>
  C2: the whole life of a mapping that was opened without an event callback: whatever admissible
  operations (arguments in range, no segmentation fault) are run on it, with any faults on the way,
  they return and follow the poisoning policy from zero faults; dropping the mapping afterwards
  succeeds and leaves the registered regions as they were before it was opened, provided none of
  them starts at the same address.
\<close>

theorem mapping_lifecycle:
  assumes env: "signal_ok L" "mmap_law L" "0 < sint (SC_PAGESIZE L)" and inv: "sig_inv w"
    and silent: "so_on_event so = None"
    and opn: "safe_mmap_options_open L so path w = (Ret (Inr m), w1)"
    and ops: "list_all (admissible L (sm_raw m)) ops"
    and fresh: "\<forall>r \<in> set (regions_of (regs w)). r_start r \<noteq> rm_ptr (sm_raw m)"
  shows "\<exists>rs m' w2 w3. mm_run L t ops (m, w1) = (Ret rs, (m', w2))
     \<and> policy_run (max 1 (unat (so_max_sigbus so))) 0 (zip ops rs) = Some (faults m')
     \<and> safe_mmap_drop L m' w2 = (Ret (), w3) \<and> sig_inv w3
     \<and> regions_of (regs w3) = regions_of (regs w)"
proof -
  have o: "opened L so path w m w1" and inv1: "sig_inv w1"
    using open_ok [OF env inv, of so path] opn by auto
  then have ev: "on_event m = None" and lim: "limit m = max 1 (unat (so_max_sigbus so))"
    and z: "faults m = 0" and reg: "regions_of (regs w1) = regions_of (regs w) @ [region_of (sm_raw m)]"
    using silent by (simp_all add: opened_def limit_def faults_def)
  have "callback_ok L m" using ev by (simp add: callback_ok_def)
  then have mi: "mm_inv L (m, w1)" by (rule opened_mm_inv [OF env(1) inv1 o])
  obtain rs m' w2 where run: "mm_run L t ops (m, w1) = (Ret rs, (m', w2))" "mm_inv L (m', w2)"
      "sm_raw m' = sm_raw m" "regs w2 = regs w1"
      "policy_run (limit m) (faults m) (zip ops rs) = Some (faults m')"
    using mm_run_ok [OF mi ops, of t] ev by blast
  have "sig_inv w2" using run(2) by (simp add: mm_inv_def env_inv_def)
  then obtain w3 where "safe_mmap_drop L m' w2 = (Ret (), w3)" "sig_inv w3"
      "regions_of (regs w3) = filter (\<lambda>r. r_start r \<noteq> rm_ptr (sm_raw m)) (regions_of (regs w2))"
    using drop_ok [of w2 L m'] run(3) by auto
  moreover have "filter (\<lambda>r. r_start r \<noteq> rm_ptr (sm_raw m)) (regions_of (regs w2)) = regions_of (regs w)"
    using run(4) reg fresh by (simp add: region_of_def filter_id_conv)
  ultimately show ?thesis using run(1,5) lim z by auto
qed

theorem mapping_lifecycle_witness:
  "\<exists>m w1 m' w2 w3.
       safe_mmap_options_open demo_libc safe_mmap_builder ''data.bin'' demo_fresh = (Ret (Inr m), w1)
     \<and> mm_run demo_libc 1 demo_life (m, w1) = (Ret demo_results, (m', w2))
     \<and> policy_run 3 0 (zip demo_life demo_results) = Some (faults m')
     \<and> safe_mmap_drop demo_libc m' w2 = (Ret (), w3) \<and> regions_of (regs w3) = []"
proof -
  obtain m w1 where o: "safe_mmap_options_open demo_libc safe_mmap_builder ''data.bin'' demo_fresh = (Ret (Inr m), w1)"
      and m: "rm_ptr (sm_raw m) = 65536" "rm_len (sm_raw m) = 8192" "sigbus_count m = 0" "\<not> poisoned m"
        "max_sigbus m = 3" "on_event m = None"
    using demo_open by blast
  have pos: "0 < sint (SC_PAGESIZE demo_libc)" by simp
  have "opened demo_libc safe_mmap_builder ''data.bin'' demo_fresh m w1" "sig_inv w1"
    using open_ok [OF demo_signal_ok demo_mmap_law pos demo_fresh_inv, of safe_mmap_builder "''data.bin''"] o by auto
  then have "mm_inv demo_libc (m, w1)"
    using opened_mm_inv [OF demo_signal_ok] m(6) by (simp add: callback_ok_def)
  then obtain m2 w2' where run: "mm_run demo_libc 1 demo_life (m, w1) = (Ret demo_results, (m2, w2'))"
    using demo_life_run m by blast
  have "\<exists>rs m' w2 w3. mm_run demo_libc 1 demo_life (m, w1) = (Ret rs, (m', w2))
     \<and> policy_run (max 1 (unat (so_max_sigbus (safe_mmap_builder :: demo safe_mmap_options)))) 0
          (zip demo_life rs) = Some (faults m')
     \<and> safe_mmap_drop demo_libc m' w2 = (Ret (), w3) \<and> sig_inv w3
     \<and> regions_of (regs w3) = regions_of (regs demo_fresh)"
    by (rule mapping_lifecycle [OF demo_signal_ok demo_mmap_law pos demo_fresh_inv _ o])
      (simp_all add: safe_mmap_builder_def safe_mmap_options_new_def regions_of_def registry_init_def
        demo_life_admissible m)
  then show ?thesis
    using o run
    by (auto simp: regions_of_def registry_init_def safe_mmap_builder_def safe_mmap_options_new_def DEFAULT_MAX_SIGBUS_def)
qed

text \<open>
  C34: the guard of a poisoned mapping still reads memory: it neither consults the poison flag nor
  counts the faults it reports.
\<close>

theorem guard_ignores_poison:
  assumes inv: "mm_inv L (m, w)" and p: "poisoned m" and fits: "holds_slice (sm_raw m) off len"
    and f: "slice_safe f (rm_ptr (sm_raw m) + off) len"
  shows "\<exists>w'. and_then (safe_mmap_guard L) (\<lambda>g. on_world (read_guard_read L t g off len f)) (m, w)
     = (guard_outcome (fst (exec L (f (rm_ptr (sm_raw m) + off) len) (os w))), (m, w'))"
proof -
  obtain w1 where g: "safe_mmap_guard L (m, w) = (Ret \<lparr>rg_raw = sm_raw m\<rparr>, (m, w1))"
      "mm_inv L (m, w1)" "os w1 = os w"
    using guard_ok [OF inv] by blast
  have env: "signal_ok L" "sig_inv w1" "mapped L w1 (rg_raw \<lparr>rg_raw = sm_raw m\<rparr>)"
    using g(2) by (simp_all add: mm_inv_def env_inv_def)
  have "unat off + unat len \<le> unat (rm_len (rg_raw \<lparr>rg_raw = sm_raw m\<rparr>))"
    using fits by (simp add: holds_slice_def)
  from read_guard_read_exact [OF env this, of f t] f g show ?thesis
    by (auto simp: on_world_apply)
qed

theorem guard_ignores_poison_witness:
  "\<exists>w'. and_then (safe_mmap_guard demo_libc)
       (\<lambda>g. on_world (read_guard_read demo_libc 1 g 0 1 first_byte))
       (demo_mmap\<lparr>sigbus_count := 3, poisoned := True\<rparr>, demo_world)
     = (Ret (Inr 0), (demo_mmap\<lparr>sigbus_count := 3, poisoned := True\<rparr>, w'))"
proof -
  let ?m = "demo_mmap\<lparr>sigbus_count := 3, poisoned := True\<rparr>"
  have "mm_inv demo_libc (?m, demo_world)"
    using demo_inv by (simp add: mm_inv_def env_inv_fields poison_inv_def max_def)
  from guard_ignores_poison [OF this, of 0 1 first_byte 1] show ?thesis
    using slice_safe_first_byte by (simp add: holds_slice_def first_byte_def demo_bad_def)
qed

end
